(* ===== verification/SST_Prelude.thy ===== *)
theory SST_Prelude
  imports Main "HOL-Library.Word" "HOL-Library.Monad_Syntax"
begin

text \<open>
  Prelude of the development: the machine types of the Rust sources, the parts of the Rust
  language and standard library that the sources use (checked \<open>usize\<close> arithmetic, slicing,
  indexing, \<open>assert!\<close>, \<open>Vec::resize\<close>, the \<open>?\<close> operator) and the generic lemmas on lists,
  options and words that the components share.

  A Rust function that can panic is a HOL function into \<open>'a run\<close>, where \<open>None\<close> is the
  panic (or, for a loop defined by \<^theory_text>\<open>partial_function\<close>, a run that does not return)
  and \<open>Some x\<close> is a normal return. A Rust \<open>Result\<close> is a sum inside of it, so that an error
  value is never confused with a panic. Arithmetic on \<open>usize\<close> is that of a 64-bit target
  built with overflow checks.
\<close>

unbundle bit_operations_syntax

section \<open>Machine types\<close>

type_synonym u8 = "8 word"
type_synonym u32 = "32 word"
type_synonym u64 = "64 word"
type_synonym usize = nat
type_synonym bytes = "u8 list"
type_synonym 'a run = "'a option"

named_theorems run_simps "unfolding rules of the checked operations on values in range"
named_theorems layout_simps "lengths and offsets of encoded data"

section \<open>Checked arithmetic, slices and assertions\<close>

definition usize_add :: "usize \<Rightarrow> usize \<Rightarrow> usize run" where
  "usize_add a b = (if a + b < 2 ^ 64 then Some (a + b) else None)"

definition usize_sub :: "usize \<Rightarrow> usize \<Rightarrow> usize run" where
  "usize_sub a b = (if b \<le> a then Some (a - b) else None)"

text \<open>\<open>&v[a..b]\<close>, \<open>&v[a..]\<close> and \<open>v[i]\<close>: out of range is a panic.\<close>

definition vec_slice :: "'a list \<Rightarrow> usize \<Rightarrow> usize \<Rightarrow> 'a list run" where
  "vec_slice v a b = (if a \<le> b \<and> b \<le> length v then Some (take (b - a) (drop a v)) else None)"

definition slice_from :: "'a list \<Rightarrow> usize \<Rightarrow> 'a list run" where
  "slice_from v a = (if a \<le> length v then Some (drop a v) else None)"

definition vec_index :: "'a list \<Rightarrow> usize \<Rightarrow> 'a run" where
  "vec_index v i = (if i < length v then Some (v ! i) else None)"

text \<open>\<open>assert!(b)\<close>.\<close>

definition rassert :: "bool \<Rightarrow> unit run" where
  "rassert b = (if b then Some () else None)"

text \<open>\<open>Vec::resize(n, x)\<close>, \<open>Vec::truncate(n)\<close> and \<open>vec![0; n]\<close>; the last panics with a
  capacity overflow beyond \<open>isize::MAX\<close> bytes.\<close>

definition vec_resize :: "'a list \<Rightarrow> usize \<Rightarrow> 'a \<Rightarrow> 'a list" where
  "vec_resize v n x = take n v @ replicate (n - length v) x"

definition vec_truncate :: "'a list \<Rightarrow> usize \<Rightarrow> 'a list" where
  "vec_truncate v n = take n v"

definition zeroed_vec :: "usize \<Rightarrow> bytes run" where
  "zeroed_vec n = (if n < 2 ^ 63 then Some (replicate n 0) else None)"

text \<open>\<open>x as u32\<close> of a \<open>usize\<close> truncates, \<open>x as usize\<close> of a \<open>u32\<close> widens.\<close>

definition usize_as_u32 :: "usize \<Rightarrow> u32" where
  "usize_as_u32 n = of_nat n"

definition u32_as_usize :: "u32 \<Rightarrow> usize" where
  "u32_as_usize w = unat w"

definition usize_as_u64 :: "usize \<Rightarrow> u64" where
  "usize_as_u64 n = of_nat n"

text \<open>A copy into the front of a mutable slice, \<open>dst[..src.len()].copy_from_slice(src)\<close>.\<close>

definition copy_into :: "'a list \<Rightarrow> usize \<Rightarrow> 'a list \<Rightarrow> 'a list" where
  "copy_into dst at src = take at dst @ src @ drop (at + length src) dst"

section \<open>Results\<close>

text \<open>The \<open>?\<close> operator inside a computation that may also panic.\<close>

definition try_bind :: "('e + 'a) run \<Rightarrow> ('a \<Rightarrow> ('e + 'b) run) \<Rightarrow> ('e + 'b) run" where
  "try_bind m f = (case m of None \<Rightarrow> None | Some (Inl e) \<Rightarrow> Some (Inl e) | Some (Inr x) \<Rightarrow> f x)"

definition ok :: "'a \<Rightarrow> ('e + 'a) run" where
  "ok x = Some (Inr x)"

lemma try_bind_simps [simp]:
  "try_bind None f = None"
  "try_bind (Some (Inl e)) f = Some (Inl e)"
  "try_bind (Some (Inr x)) f = f x"
  "try_bind (ok x) f = f x"
  by (simp_all add: try_bind_def ok_def)

lemma try_bind_eq_Some_Inr:
  "try_bind m f = Some (Inr y) \<longleftrightarrow> (\<exists>x. m = Some (Inr x) \<and> f x = Some (Inr y))"
  by (auto simp: try_bind_def split: option.splits sum.splits)

section \<open>Lemmas on the checked operations\<close>

lemma usize_add_Some [run_simps]: "a + b < 2 ^ 64 \<Longrightarrow> usize_add a b = Some (a + b)"
  by (simp add: usize_add_def)

lemma usize_add_eq_Some: "usize_add a b = Some c \<longleftrightarrow> c = a + b \<and> a + b < 2 ^ 64"
  by (auto simp: usize_add_def)

lemma usize_sub_Some [run_simps]: "b \<le> a \<Longrightarrow> usize_sub a b = Some (a - b)"
  by (simp add: usize_sub_def)

lemma slice_Some [run_simps]:
  "a \<le> b \<Longrightarrow> b \<le> length v \<Longrightarrow> vec_slice v a b = Some (take (b - a) (drop a v))"
  by (simp add: vec_slice_def)

lemma slice_from_Some [run_simps]: "a \<le> length v \<Longrightarrow> slice_from v a = Some (drop a v)"
  by (simp add: slice_from_def)

lemma vec_index_Some [run_simps]: "i < length v \<Longrightarrow> vec_index v i = Some (v ! i)"
  by (simp add: vec_index_def)

lemma rassert_True [simp]: "rassert True = Some ()" and rassert_False [simp]: "rassert False = None"
  by (simp_all add: rassert_def)

lemma rassert_eq_Some [simp]: "rassert b = Some u \<longleftrightarrow> b"
  by (simp add: rassert_def)

lemma rassert_bind_eq_Some: "(rassert b \<bind> f) = Some y \<longleftrightarrow> b \<and> f () = Some y"
  by (simp add: rassert_def)

lemma length_vec_resize [simp]: "length (vec_resize v n x) = n"
  by (simp add: vec_resize_def)

lemma vec_resize_shrink: "n \<le> length v \<Longrightarrow> vec_resize v n x = take n v"
  by (simp add: vec_resize_def)

lemma unat_usize_as_u32: "n < 2 ^ 32 \<Longrightarrow> unat (usize_as_u32 n) = n"
  by (simp add: usize_as_u32_def unat_of_nat take_bit_nat_eq_self_iff)

lemma unat_usize_as_u64: "n < 2 ^ 64 \<Longrightarrow> unat (usize_as_u64 n) = n"
  by (simp add: usize_as_u64_def unat_of_nat take_bit_nat_eq_self_iff)

lemma u32_usize_roundtrip [run_simps]: "n < 2 ^ 32 \<Longrightarrow> u32_as_usize (usize_as_u32 n) = n"
  by (simp add: u32_as_usize_def unat_usize_as_u32)

lemma length_copy_into:
  "at + length src \<le> length dst \<Longrightarrow> length (copy_into dst at src) = length dst"
  by (simp add: copy_into_def)

section \<open>Lists\<close>

lemma take_prefix_middle: "take (length ys) (drop (length xs) (xs @ ys @ zs)) = ys"
  by simp

lemma drop_suffix: "length ys = n \<Longrightarrow> drop (length (xs @ ys) - n) (xs @ ys) = ys"
  by simp

lemma slice_middle:
  "a = length xs \<Longrightarrow> b = length xs + length ys \<Longrightarrow> vec_slice (xs @ ys @ zs) a b = Some ys"
  by (simp add: vec_slice_def)

text \<open>Slices of a list whose content from \<open>a\<close> on is known.\<close>

lemma slice_from_at:
  assumes "drop a v = x @ y" "a \<le> length v"
  shows "slice_from v (a + length x) = Some y"
proof -
  have "length v - a = length x + length y" using arg_cong [OF assms(1), of length] by simp
  moreover have "drop (a + length x) v = drop (length x) (drop a v)" by (simp add: add.commute)
  ultimately show ?thesis using assms by (simp add: slice_from_def del: drop_drop)
qed

lemma slice_at:
  assumes "drop a v = x @ y @ z" "a \<le> length v"
  shows "vec_slice v (a + length x) (a + length x + length y) = Some y"
proof -
  have "length v - a = length x + length y + length z"
    using arg_cong [OF assms(1), of length] by simp
  moreover have "drop (a + length x) v = drop (length x) (drop a v)" by (simp add: add.commute)
  ultimately show ?thesis using assms by (simp add: vec_slice_def del: drop_drop)
qed

lemma concat_map_take_Suc:
  "i < length xs \<Longrightarrow> concat (map f (take (Suc i) xs)) = concat (map f (take i xs)) @ f (xs ! i)"
  by (simp add: take_Suc_conv_app_nth)

lemma concat_map_split:
  "i < length xs \<Longrightarrow>
   concat (map f xs) = concat (map f (take i xs)) @ f (xs ! i) @ concat (map f (drop (Suc i) xs))"
proof -
  assume i: "i < length xs"
  then have "xs = take i xs @ xs ! i # drop (Suc i) xs" by (rule id_take_nth_drop)
  then have "concat (map f xs) = concat (map f (take i xs @ xs ! i # drop (Suc i) xs))" by simp
  then show ?thesis by simp
qed

lemma length_concat_const:
  "(\<And>x. x \<in> set xs \<Longrightarrow> length (f x) = n) \<Longrightarrow> length (concat (map f xs)) = n * length xs"
  by (induction xs) auto

lemma concat_const_nth:
  assumes "\<And>x. x \<in> set xs \<Longrightarrow> length (f x) = n" and "i < length xs"
  shows "take n (drop (n * i) (concat (map f xs))) = f (xs ! i)"
proof -
  have "length (concat (map f (take i xs))) = n * length (take i xs)"
    using assms(1) by (intro length_concat_const) (auto dest: in_set_takeD)
  then have len: "length (concat (map f (take i xs))) = n * i" using assms(2) by simp
  have "length (f (xs ! i)) = n" using assms by simp
  then show ?thesis
    unfolding concat_map_split [OF assms(2)] using len by simp
qed

text \<open>A loop that overwrites the indices of a range.\<close>

lemma foldl_update_range:
  "a \<le> b \<Longrightarrow> b \<le> length xs \<Longrightarrow>
   foldl (\<lambda>xs i. xs[i := f i]) xs [a..<b] = take a xs @ map f [a..<b] @ drop b xs"
proof (induction b)
  case (Suc b)
  show ?case
  proof (cases "a = Suc b")
    case False
    then have "foldl (\<lambda>xs i. xs[i := f i]) xs [a..<Suc b] = (take a xs @ map f [a..<b] @ drop b xs)[b := f b]"
      using Suc by simp
    also have "drop b xs = xs ! b # drop (Suc b) xs" using Suc.prems by (simp add: Cons_nth_drop_Suc)
    finally show ?thesis using False Suc.prems by (simp add: list_update_append)
  qed (use Suc.prems in simp)
qed simp

end
