(* ===== verification/SST_Deps.thy ===== *)
theory SST_Deps
  imports SST_Prelude
begin

text \<open>
  The third-party crates the sources call: \<open>integer-encoding\<close> (varints and fixed-width
  integers), \<open>crc\<close> (the CRC-32/ISCSI digest) and \<open>snap\<close> (Snappy). They are a parameter of
  the model, a record of functions that every definition using them takes as its first
  argument. The locales \<open>integer_codec\<close> and \<open>third_party_laws\<close> state the documented
  behaviour the code relies on, and both are interpreted on \<open>reference_deps\<close>: LEB128
  varints, little-endian integers, the bitwise CRC-32C and literal-only Snappy streams.
\<close>

section \<open>The interface\<close>

text \<open>
  \<open>decode_var\<close> is \<open>usize::decode_var\<close>, which returns the value and the number of bytes read.
  A digest that is updated with \<open>a\<close> and then with \<open>b\<close> is \<open>crc32_iscsi (a @ b)\<close>. An error of
  the Snappy coder is the string it prints.
\<close>

record deps =
  encode_var :: "usize \<Rightarrow> bytes"
  required_space :: "usize \<Rightarrow> usize"
  decode_var :: "bytes \<Rightarrow> (usize \<times> usize) option"
  encode_fixed32 :: "u32 \<Rightarrow> bytes"
  decode_fixed32 :: "bytes \<Rightarrow> u32"
  encode_fixed64 :: "u64 \<Rightarrow> bytes"
  crc32_iscsi :: "bytes \<Rightarrow> u32"
  snap_compress :: "bytes \<Rightarrow> string + bytes"
  snap_decompress :: "bytes \<Rightarrow> string + bytes"

locale integer_codec =
  fixes D :: deps
  assumes decode_encode_var:
      "n < 2 ^ 64 \<Longrightarrow> decode_var D (encode_var D n @ rest) = Some (n, length (encode_var D n))"
    and length_encode_var: "length (encode_var D n) = required_space D n"
    and required_space_pos: "0 < required_space D n"
    and required_space_le: "0 < m \<Longrightarrow> n < 2 ^ (7 * m) \<Longrightarrow> required_space D n \<le> m"
    and decode_var_bounds:
      "decode_var D bs = Some (n, l) \<Longrightarrow> 0 < l \<and> l \<le> length bs \<and> n < 2 ^ 64"
    and length_encode_fixed32: "length (encode_fixed32 D w) = 4"
    and decode_encode_fixed32: "decode_fixed32 D (encode_fixed32 D w) = w"
    and length_encode_fixed64: "length (encode_fixed64 D v) = 8"
    and encode_fixed64_inject: "encode_fixed64 D v = encode_fixed64 D v' \<Longrightarrow> v = v'"
begin

lemma encode_var_nonempty: "encode_var D n \<noteq> []"
  using length_encode_var [of n] required_space_pos [of n] by auto

lemma length_encode_var_pos: "1 \<le> length (encode_var D n)"
  using length_encode_var [of n] required_space_pos [of n] by simp

lemma length_encode_var_max: "n < 2 ^ 64 \<Longrightarrow> length (encode_var D n) \<le> 10"
  using required_space_le [of 10 n] by (simp add: length_encode_var)

end

text \<open>Snappy documents the largest size of a compressed buffer, and fails only beyond 4 GiB.\<close>

definition max_compress_len :: "nat \<Rightarrow> nat" where
  "max_compress_len n = 32 + n + n div 6"

locale third_party_laws = integer_codec +
  assumes decompress_compress: "snap_compress D x = Inr y \<Longrightarrow> snap_decompress D y = Inr x"
    and compress_total: "max_compress_len (length x) < 2 ^ 32 \<Longrightarrow>
      \<exists>y. snap_compress D x = Inr y \<and> length y \<le> max_compress_len (length x)"

section \<open>The reference instance\<close>

text \<open>LEB128: seven bits per byte, least significant group first; ten bytes at most.\<close>

fun leb_encode :: "nat \<Rightarrow> bytes" where
  "leb_encode n =
     (if n < 128 then [of_nat n] else of_nat (n mod 128 + 128) # leb_encode (n div 128))"

declare leb_encode.simps [simp del]

fun leb_decode :: "nat \<Rightarrow> bytes \<Rightarrow> (nat \<times> nat) option" where
  "leb_decode 0 bs = None"
| "leb_decode (Suc f) [] = None"
| "leb_decode (Suc f) (b # bs) =
     (if unat b < 128 then Some (unat b, 1)
      else case leb_decode f bs of
             None \<Rightarrow> None
           | Some (n, l) \<Rightarrow> Some (unat b - 128 + 128 * n, Suc l))"

definition ref_decode_var :: "bytes \<Rightarrow> (nat \<times> nat) option" where
  "ref_decode_var bs =
     (case leb_decode 10 bs of
        None \<Rightarrow> None
      | Some (n, l) \<Rightarrow> if n < 2 ^ 64 then Some (n, l) else None)"

definition le32_encode :: "u32 \<Rightarrow> bytes" where
  "le32_encode w = [ucast w, ucast (drop_bit 8 w), ucast (drop_bit 16 w), ucast (drop_bit 24 w)]"

definition le32_decode :: "bytes \<Rightarrow> u32" where
  "le32_decode bs =
     (case bs of
        [a, b, c, d] \<Rightarrow>
          ucast a OR push_bit 8 (ucast b) OR push_bit 16 (ucast c) OR push_bit 24 (ucast d)
      | _ \<Rightarrow> 0)"

definition le64_encode :: "u64 \<Rightarrow> bytes" where
  "le64_encode w = map (\<lambda>i. ucast (drop_bit (8 * i) w)) [0..<8]"

text \<open>The reflected CRC-32C, one bit at a time.\<close>

fun crc32c_bits :: "nat \<Rightarrow> u32 \<Rightarrow> u32" where
  "crc32c_bits 0 c = c"
| "crc32c_bits (Suc n) c =
     crc32c_bits n (if c AND 1 = 1 then drop_bit 1 c XOR 0x82F63B78 else drop_bit 1 c)"

definition crc32c :: "bytes \<Rightarrow> u32" where
  "crc32c bs = NOT (fold (\<lambda>b c. crc32c_bits 8 (c XOR ucast b)) bs (NOT 0))"

text \<open>Snappy streams made of literals of at most 60 bytes.\<close>

fun snap_literals :: "bytes \<Rightarrow> bytes" where
  "snap_literals xs =
     (if xs = [] then []
      else of_nat (4 * (length (take 60 xs) - 1)) # take 60 xs @ snap_literals (drop 60 xs))"

declare snap_literals.simps [simp del]

function snap_unliterals :: "bytes \<Rightarrow> string + bytes" where
  "snap_unliterals ys =
     (case ys of
        [] \<Rightarrow> Inr []
      | t # ys' \<Rightarrow>
          let n = unat t div 4 + 1 in
          if unat t mod 4 \<noteq> 0 \<or> 60 < n \<or> length ys' < n then Inl ''corrupt input''
          else case snap_unliterals (drop n ys') of
                 Inl e \<Rightarrow> Inl e
               | Inr xs \<Rightarrow> Inr (take n ys' @ xs))"
  by pat_completeness auto
termination
  by (relation "measure length") auto

declare snap_unliterals.simps [simp del]

definition ref_compress :: "bytes \<Rightarrow> string + bytes" where
  "ref_compress xs =
     (if length xs < 2 ^ 32 then Inr (leb_encode (length xs) @ snap_literals xs)
      else Inl ''input too large'')"

definition ref_decompress :: "bytes \<Rightarrow> string + bytes" where
  "ref_decompress ys =
     (case ref_decode_var ys of
        None \<Rightarrow> Inl ''corrupt header''
      | Some (n, l) \<Rightarrow>
          (case snap_unliterals (drop l ys) of
             Inl e \<Rightarrow> Inl e
           | Inr xs \<Rightarrow> if length xs = n then Inr xs else Inl ''length mismatch''))"

definition reference_deps :: deps where
  "reference_deps =
     \<lparr>encode_var = leb_encode,
      required_space = (\<lambda>n. length (leb_encode n)),
      decode_var = ref_decode_var,
      encode_fixed32 = le32_encode,
      decode_fixed32 = le32_decode,
      encode_fixed64 = le64_encode,
      crc32_iscsi = crc32c,
      snap_compress = ref_compress,
      snap_decompress = ref_decompress\<rparr>"

section \<open>The reference instance satisfies the contract\<close>

lemma leb_encode_nonempty: "leb_encode n \<noteq> []"
  by (simp add: leb_encode.simps [of n])

lemma leb_encode_length: "0 < m \<Longrightarrow> n < 2 ^ (7 * m) \<Longrightarrow> length (leb_encode n) \<le> m"
proof (induction n arbitrary: m rule: leb_encode.induct)
  case (1 n)
  show ?case
  proof (cases "n < 128")
    case True
    with "1.prems" show ?thesis by (simp add: leb_encode.simps [of n])
  next
    case False
    then obtain k where m: "m = Suc k" "0 < k"
      using "1.prems" by (cases m; cases "m - 1") auto
    have "n < 128 * 2 ^ (7 * k)" using "1.prems" m by (simp add: power_add)
    then have "n div 128 < 2 ^ (7 * k)" by (simp add: less_mult_imp_div_less mult.commute)
    then have "length (leb_encode (n div 128)) \<le> k" using "1.IH" [OF False m(2)] by simp
    then show ?thesis using False m by (simp add: leb_encode.simps [of n])
  qed
qed

lemma leb_decode_encode:
  "0 < f \<Longrightarrow> n < 2 ^ (7 * f) \<Longrightarrow>
   leb_decode f (leb_encode n @ rest) = Some (n, length (leb_encode n))"
proof (induction n arbitrary: f rule: leb_encode.induct)
  case (1 n)
  then obtain k where f: "f = Suc k" by (cases f) auto
  show ?case
  proof (cases "n < 128")
    case True
    then show ?thesis using f by (simp add: leb_encode.simps [of n] unat_of_nat take_bit_nat_eq_self_iff)
  next
    case False
    then have "0 < k" using "1.prems" f by (cases k) auto
    have "n < 128 * 2 ^ (7 * k)" using "1.prems" f by (simp add: power_add)
    then have "n div 128 < 2 ^ (7 * k)" by (simp add: less_mult_imp_div_less mult.commute)
    then have IH: "leb_decode k (leb_encode (n div 128) @ rest) =
        Some (n div 128, length (leb_encode (n div 128)))"
      using "1.IH" [OF False \<open>0 < k\<close>] by simp
    have "unat (of_nat (n mod 128 + 128) :: u8) = n mod 128 + 128"
      by (simp add: unat_of_nat take_bit_nat_eq_self_iff del: of_nat_add)
    then show ?thesis using False f IH by (simp add: leb_encode.simps [of n] del: of_nat_add)
  qed
qed

lemma leb_decode_bounds: "leb_decode f bs = Some (n, l) \<Longrightarrow> 0 < l \<and> l \<le> length bs"
  by (induction f bs arbitrary: n l rule: leb_decode.induct)
    (auto split: if_splits option.splits)

lemma le32_decode_encode: "le32_decode (le32_encode w) = w"
proof (rule bit_word_eqI)
  fix n assume n: "n < LENGTH(32)"
  consider "n < 8" | "8 \<le> n" "n < 16" | "16 \<le> n" "n < 24" | "24 \<le> n" by linarith
  then show "bit (le32_decode (le32_encode w)) n = bit w n"
    using n by cases (auto simp: le32_decode_def le32_encode_def bit_simps less_diff_conv2)
qed

lemma length_le32_encode: "length (le32_encode w) = 4"
  by (simp add: le32_encode_def)

lemma le64_encode_inject: "le64_encode v = le64_encode w \<Longrightarrow> v = w"
proof (rule bit_word_eqI)
  fix n assume eq: "le64_encode v = le64_encode w" and "n < LENGTH(64)"
  then have n: "n div 8 < 8" by simp
  then have "(ucast (drop_bit (8 * (n div 8)) v) :: u8) = ucast (drop_bit (8 * (n div 8)) w)"
    using eq by (auto simp: le64_encode_def)
  then have "bit (ucast (drop_bit (8 * (n div 8)) v) :: u8) (n mod 8) =
    bit (ucast (drop_bit (8 * (n div 8)) w) :: u8) (n mod 8)" by simp
  then show "bit v n = bit w n" by (simp add: bit_simps)
qed

lemma snap_unliterals_step:
  assumes "unat t = 4 * (length c - 1)" "0 < length c" "length c \<le> 60"
  shows "snap_unliterals (t # c @ ys) =
    (case snap_unliterals ys of Inl e \<Rightarrow> Inl e | Inr xs \<Rightarrow> Inr (c @ xs))"
  using assms by (simp add: snap_unliterals.simps [of "t # c @ ys"] Let_def split: sum.split)

lemma snap_unliterals_literals: "snap_unliterals (snap_literals xs) = Inr xs"
proof (induction xs rule: snap_literals.induct)
  case (1 xs)
  show ?case
  proof (cases "xs = []")
    case True
    then show ?thesis by (simp add: snap_literals.simps snap_unliterals.simps)
  next
    case False
    let ?n = "length (take 60 xs)"
    have n: "0 < ?n" "?n \<le> 60" using False by auto
    then have "unat (of_nat (4 * (?n - 1)) :: u8) = 4 * (?n - 1)"
      by (simp add: unat_of_nat take_bit_nat_eq_self_iff del: of_nat_mult length_take)
    from snap_unliterals_step [OF this n, of "snap_literals (drop 60 xs)"] 1 [OF False]
    show ?thesis
      by (simp add: snap_literals.simps [of xs] False del: of_nat_mult)
  qed
qed

lemma snap_literals_length: "length (snap_literals xs) \<le> length xs + (length xs + 59) div 60"
proof (induction xs rule: snap_literals.induct)
  case (1 xs)
  show ?case
  proof (cases "xs = []")
    case False
    then have step: "length (snap_literals xs) = 1 + min 60 (length xs) + length (snap_literals (drop 60 xs))"
      by (simp add: snap_literals.simps [of xs] min.commute)
    show ?thesis
    proof (cases "length xs \<le> 60")
      case True
      moreover have "0 < length xs" using False by simp
      then have "1 \<le> (length xs + 59) div 60" by linarith
      ultimately show ?thesis using step by (simp add: snap_literals.simps [of "[]"])
    next
      case more_left: False
      have "length xs - 60 + 59 = length xs - 1" "length xs + 59 = length xs - 1 + 60"
        using more_left by simp_all
      then show ?thesis using step "1" [OF False] more_left by simp
    qed
  qed (simp add: snap_literals.simps)
qed

lemma ref_compress_total:
  assumes "max_compress_len (length x) < 2 ^ 32"
  shows "\<exists>y. ref_compress x = Inr y \<and> length y \<le> max_compress_len (length x)"
proof -
  have n: "length x < 2 ^ 32" using assms by (simp add: max_compress_len_def)
  then have "length (leb_encode (length x)) \<le> 5" using leb_encode_length [of 5 "length x"] by simp
  moreover have "(length x + 59) div 60 \<le> 1 + length x div 6" by linarith
  ultimately show ?thesis
    using n snap_literals_length [of x] by (simp add: ref_compress_def max_compress_len_def)
qed

interpretation ref_deps: third_party_laws reference_deps
proof
  fix n m l :: nat and bs rest x y :: bytes and w :: u32 and v v' :: u64
  show "n < 2 ^ 64 \<Longrightarrow> decode_var reference_deps (encode_var reference_deps n @ rest) =
      Some (n, length (encode_var reference_deps n))"
    using leb_decode_encode [of 10 n rest]
    by (simp add: reference_deps_def ref_decode_var_def)
  show "decode_var reference_deps bs = Some (n, l) \<Longrightarrow> 0 < l \<and> l \<le> length bs \<and> n < 2 ^ 64"
    using leb_decode_bounds [of 10 bs n l]
    by (auto simp: reference_deps_def ref_decode_var_def split: option.splits if_splits)
  show "encode_fixed64 reference_deps v = encode_fixed64 reference_deps v' \<Longrightarrow> v = v'"
    by (simp add: reference_deps_def le64_encode_inject)
  show "snap_decompress reference_deps y = Inr x" if "snap_compress reference_deps x = Inr y"
    using that leb_decode_encode [of 10 "length x" "snap_literals x"]
    by (auto simp: reference_deps_def ref_compress_def ref_decompress_def ref_decode_var_def
        snap_unliterals_literals split: if_splits)
  show "\<exists>y. snap_compress reference_deps x = Inr y \<and> length y \<le> max_compress_len (length x)"
    if "max_compress_len (length x) < 2 ^ 32"
    using ref_compress_total [OF that] by (simp add: reference_deps_def)
qed (simp_all add: reference_deps_def leb_encode_nonempty leb_encode_length le32_decode_encode
    length_le32_encode le64_encode_def)

end
