(* ===== verification/SST_BlockFormat.thy ===== *)
theory SST_BlockFormat
  imports SST_Deps
begin

text \<open>
  The block format of the comment at the head of \<open>src/block.rs\<close>, as a specification: an
  entry is its shared-prefix length, its key and its value; a block is the encoded entries,
  the restart offsets and their number. \<open>block_layout\<close> is what the builder establishes and
  what the iterator relies on; neither component knows the other's definitions.
\<close>

section \<open>Entries\<close>

type_synonym entry = "nat \<times> bytes \<times> bytes"

abbreviation ent_shared :: "entry \<Rightarrow> nat" where "ent_shared e \<equiv> fst e"
abbreviation ent_key :: "entry \<Rightarrow> bytes" where "ent_key e \<equiv> fst (snd e)"
abbreviation ent_val :: "entry \<Rightarrow> bytes" where "ent_val e \<equiv> snd (snd e)"

definition entry_head :: "deps \<Rightarrow> entry \<Rightarrow> bytes" where
  "entry_head D e =
     encode_var D (ent_shared e) @ encode_var D (length (ent_key e) - ent_shared e) @
     encode_var D (length (ent_val e))"

definition entry_bytes :: "deps \<Rightarrow> entry \<Rightarrow> bytes" where
  "entry_bytes D e = entry_head D e @ drop (ent_shared e) (ent_key e) @ ent_val e"

text \<open>Each key shares what it claims with the key before it.\<close>

fun chained :: "bytes \<Rightarrow> entry list \<Rightarrow> bool" where
  "chained prev [] = True"
| "chained prev (e # es) =
     (ent_shared e \<le> length prev \<and> ent_shared e \<le> length (ent_key e) \<and>
      take (ent_shared e) (ent_key e) = take (ent_shared e) prev \<and> chained (ent_key e) es)"

definition encoded :: "deps \<Rightarrow> entry list \<Rightarrow> bytes" where
  "encoded D es = concat (map (entry_bytes D) es)"

definition ent_off :: "deps \<Rightarrow> entry list \<Rightarrow> nat \<Rightarrow> nat" where
  "ent_off D es i = length (encoded D (take i es))"

text \<open>The restart points, as indices of entries.\<close>

definition restarts_ok :: "entry list \<Rightarrow> nat list \<Rightarrow> bool" where
  "restarts_ok es rs \<longleftrightarrow>
     rs \<noteq> [] \<and> hd rs = 0 \<and> sorted_wrt (<) rs \<and>
     (\<forall>r \<in> set rs. if es = [] then r = 0 else r < length es \<and> ent_shared (es ! r) = 0)"

definition block_bytes :: "deps \<Rightarrow> entry list \<Rightarrow> nat list \<Rightarrow> bytes" where
  "block_bytes D es rs =
     encoded D es @ concat (map (\<lambda>r. encode_fixed32 D (usize_as_u32 (ent_off D es r))) rs) @
     encode_fixed32 D (usize_as_u32 (length rs))"

definition block_layout :: "deps \<Rightarrow> entry list \<Rightarrow> nat list \<Rightarrow> bytes \<Rightarrow> bool" where
  "block_layout D es rs contents \<longleftrightarrow>
     contents = block_bytes D es rs \<and> chained [] es \<and> restarts_ok es rs \<and>
     length contents < 2 ^ 32"

section \<open>Offsets\<close>

lemma encoded_simps [layout_simps]:
  "encoded D [] = []" "encoded D (e # es) = entry_bytes D e @ encoded D es"
  "encoded D (es @ fs) = encoded D es @ encoded D fs"
  by (simp_all add: encoded_def)

lemma ent_off_0 [simp]: "ent_off D es 0 = 0"
  by (simp add: ent_off_def encoded_def)

lemma ent_off_end: "ent_off D es (length es) = length (encoded D es)"
  by (simp add: ent_off_def)

lemma ent_off_Suc:
  "i < length es \<Longrightarrow> ent_off D es (Suc i) = ent_off D es i + length (entry_bytes D (es ! i))"
  by (simp add: ent_off_def encoded_def take_Suc_conv_app_nth)

lemma ent_off_append: "i \<le> length es \<Longrightarrow> ent_off D (es @ fs) i = ent_off D es i"
  by (simp add: ent_off_def)

lemma ent_off_mono: "i \<le> j \<Longrightarrow> ent_off D es i \<le> ent_off D es j"
  by (auto simp: ent_off_def encoded_def take_add le_iff_add)

lemma ent_off_le: "ent_off D es i \<le> length (encoded D es)"
proof -
  have "encoded D es = encoded D (take i es) @ encoded D (drop i es)"
    unfolding encoded_def by (simp flip: concat_append map_append)
  then show ?thesis by (simp add: ent_off_def)
qed

lemma encoded_at:
  "i < length es \<Longrightarrow>
   drop (ent_off D es i) (encoded D es) = entry_bytes D (es ! i) @ encoded D (drop (Suc i) es)"
  using concat_map_split [of i es "entry_bytes D"] by (simp add: ent_off_def encoded_def)

section \<open>Chains of keys\<close>

lemma chained_append:
  "chained prev (es @ fs) \<longleftrightarrow>
   chained prev es \<and> chained (if es = [] then prev else ent_key (last es)) fs"
  by (induction es arbitrary: prev) auto

lemma chained_nth:
  "chained prev es \<Longrightarrow> i < length es \<Longrightarrow>
   let p = (case i of 0 \<Rightarrow> prev | Suc j \<Rightarrow> ent_key (es ! j)) in
   ent_shared (es ! i) \<le> length p \<and> ent_shared (es ! i) \<le> length (ent_key (es ! i)) \<and>
   take (ent_shared (es ! i)) (ent_key (es ! i)) = take (ent_shared (es ! i)) p"
proof (induction es arbitrary: prev i)
  case (Cons e es)
  then show ?case
  proof (cases i)
    case (Suc j)
    with Cons.IH [of "ent_key e" j] Cons.prems show ?thesis by (cases j) (auto simp: Let_def)
  qed (auto simp: Let_def)
qed simp

lemma entry_bytes_length:
  "length (entry_bytes D e) =
   length (entry_head D e) + (length (ent_key e) - ent_shared e) + length (ent_val e)"
  by (simp add: entry_bytes_def)

text \<open>A key is never longer than the encoding up to and including its entry.\<close>

lemma chained_key_length:
  "chained prev es \<Longrightarrow> i < length es \<Longrightarrow>
   length (ent_key (es ! i)) \<le> length prev + length (encoded D es)"
proof (induction es arbitrary: prev i)
  case (Cons e es)
  have e: "length (ent_key e) \<le> length prev + length (entry_bytes D e)"
    using Cons.prems by (auto simp: entry_bytes_length)
  show ?case
  proof (cases i)
    case 0
    with e show ?thesis by (simp add: layout_simps)
  next
    case (Suc j)
    with Cons.IH [of "ent_key e" j] Cons.prems e show ?thesis by (auto simp: layout_simps)
  qed
qed simp

lemma value_length:
  assumes "i < length es"
  shows "length (ent_val (es ! i)) \<le> length (encoded D es)"
proof -
  have "length (ent_val (es ! i)) \<le> length (entry_bytes D (es ! i))"
    by (simp add: entry_bytes_length)
  also have "\<dots> \<le> ent_off D es (Suc i)" using ent_off_Suc [OF assms] by simp
  also have "\<dots> \<le> length (encoded D es)" by (rule ent_off_le)
  finally show ?thesis .
qed

section \<open>Restart points\<close>

lemma restarts_ok_mono: "restarts_ok es rs \<Longrightarrow> i < j \<Longrightarrow> j < length rs \<Longrightarrow> rs ! i < rs ! j"
  unfolding restarts_ok_def by (auto intro: sorted_wrt_nth_less)

lemma restarts_ok_nth:
  "restarts_ok es rs \<Longrightarrow> es \<noteq> [] \<Longrightarrow> j < length rs \<Longrightarrow>
   rs ! j < length es \<and> ent_shared (es ! (rs ! j)) = 0"
  unfolding restarts_ok_def by auto

lemma restarts_ok_0: "restarts_ok es rs \<Longrightarrow> rs ! 0 = 0 \<and> 0 < length rs"
  unfolding restarts_ok_def by (auto simp: hd_conv_nth)

lemma restarts_ok_snoc:
  assumes "restarts_ok es rs" "es \<noteq> [] \<or> rs = [0]" "ent_shared e = 0 \<or> es \<noteq> []"
  shows "restarts_ok (es @ [e]) rs"
  using assms unfolding restarts_ok_def by (auto simp: nth_append)

lemma restarts_ok_push:
  assumes "restarts_ok es rs" "es \<noteq> []" "ent_shared e = 0"
  shows "restarts_ok (es @ [e]) (rs @ [length es])"
  using assms unfolding restarts_ok_def
  by (auto simp: nth_append sorted_wrt_append hd_append)

context integer_codec
begin

lemma entry_head_length: "3 \<le> length (entry_head D e)"
  using length_encode_var_pos [of "ent_shared e"]
    length_encode_var_pos [of "length (ent_key e) - ent_shared e"]
    length_encode_var_pos [of "length (ent_val e)"]
  by (simp add: entry_head_def)

lemma entry_head_nonempty [simp]: "entry_head D e \<noteq> []"
  using entry_head_length [of e] by auto

lemma ent_off_strict:
  assumes "i < length es"
  shows "ent_off D es i < ent_off D es (Suc i)"
  unfolding ent_off_Suc [OF assms] entry_bytes_length
  using entry_head_length [of "es ! i"] by linarith

lemma ent_off_less: "i < j \<Longrightarrow> j \<le> length es \<Longrightarrow> ent_off D es i < ent_off D es j"
  using ent_off_strict [of i es] ent_off_mono [of "Suc i" j D es] by simp

lemma ent_off_less_iff:
  "i \<le> length es \<Longrightarrow> j \<le> length es \<Longrightarrow> ent_off D es i < ent_off D es j \<longleftrightarrow> i < j"
  by (metis ent_off_less ent_off_mono not_le)

lemma block_bytes_length:
  "length (block_bytes D es rs) = length (encoded D es) + 4 * length rs + 4"
proof -
  have "length (concat (map (\<lambda>r. encode_fixed32 D (usize_as_u32 (ent_off D es r))) rs)) = 4 * length rs"
    by (rule length_concat_const) (simp add: length_encode_fixed32)
  then show ?thesis by (simp add: block_bytes_def length_encode_fixed32)
qed

lemma block_bytes_count:
  "drop (length (block_bytes D es rs) - 4) (block_bytes D es rs) =
   encode_fixed32 D (usize_as_u32 (length rs))"
  unfolding block_bytes_def append_assoc [symmetric]
  by (rule drop_suffix) (rule length_encode_fixed32)

lemma block_bytes_restart:
  assumes "j < length rs"
  shows "take 4 (drop (length (encoded D es) + 4 * j) (block_bytes D es rs)) =
    encode_fixed32 D (usize_as_u32 (ent_off D es (rs ! j)))"
proof -
  let ?f = "\<lambda>r. encode_fixed32 D (usize_as_u32 (ent_off D es r))"
  have "take 4 (drop (4 * j) (concat (map ?f rs))) = ?f (rs ! j)"
    using assms by (intro concat_const_nth) (simp_all add: length_encode_fixed32)
  moreover have "length (concat (map ?f rs)) = 4 * length rs"
    by (rule length_concat_const) (simp add: length_encode_fixed32)
  ultimately show ?thesis using assms
    by (simp add: block_bytes_def)
qed

end

end
