(* ===== verification/SST_Cmp.thy ===== *)
theory SST_Cmp
  imports SST_Prelude
begin

text \<open>
  The comparator trait and the lexical comparator, \<open>src/cmp.rs\<close>. The trait \<open>Cmp\<close> is a
  record of functions; the locale \<open>comparator\<close> is what the block and table code relies
  on, and it is interpreted on \<open>DefaultCmp\<close>.
\<close>

section \<open>Orderings\<close>

datatype Ordering = Less | Equal | Greater

text \<open>The source compares orderings (\<open>c >= Ordering::Equal\<close>) by their derived order.\<close>

fun Ordering_rank :: "Ordering \<Rightarrow> nat" where
  "Ordering_rank Less = 0"
| "Ordering_rank Equal = 1"
| "Ordering_rank Greater = 2"

instantiation Ordering :: linorder
begin

definition less_eq_Ordering :: "Ordering \<Rightarrow> Ordering \<Rightarrow> bool" where
  "less_eq_Ordering a b \<longleftrightarrow> Ordering_rank a \<le> Ordering_rank b"

definition less_Ordering :: "Ordering \<Rightarrow> Ordering \<Rightarrow> bool" where
  "less_Ordering a b \<longleftrightarrow> Ordering_rank a < Ordering_rank b"

instance
proof
  fix x y :: Ordering
  show "x \<le> y \<Longrightarrow> y \<le> x \<Longrightarrow> x = y"
    by (cases x; cases y) (simp_all add: less_eq_Ordering_def)
qed (auto simp: less_eq_Ordering_def less_Ordering_def)

end

lemma Ordering_ge_Equal [simp]: "Equal \<le> c \<longleftrightarrow> c \<noteq> Less"
  by (cases c) (simp_all add: less_eq_Ordering_def)

lemma Ordering_le_Equal [simp]: "c \<le> Equal \<longleftrightarrow> c \<noteq> Greater"
  by (cases c) (simp_all add: less_eq_Ordering_def)

section \<open>The trait and the lexical comparator\<close>

record Cmp =
  cmp :: "bytes \<Rightarrow> bytes \<Rightarrow> Ordering"
  find_shortest_sep :: "bytes \<Rightarrow> bytes \<Rightarrow> bytes run"
  find_short_succ :: "bytes \<Rightarrow> bytes"
  cmp_id :: string

text \<open>\<open>Ord::cmp\<close> on byte slices is lexicographic.\<close>

fun slice_cmp :: "bytes \<Rightarrow> bytes \<Rightarrow> Ordering" where
  "slice_cmp [] [] = Equal"
| "slice_cmp [] (b # bs) = Less"
| "slice_cmp (a # as) [] = Greater"
| "slice_cmp (a # as) (b # bs) =
     (if a < b then Less else if b < a then Greater else slice_cmp as bs)"

function sep_common :: "bytes \<Rightarrow> bytes \<Rightarrow> nat \<Rightarrow> nat \<Rightarrow> nat" where
  "sep_common a b m diff_at =
     (if diff_at < m \<and> a ! diff_at = b ! diff_at then sep_common a b m (diff_at + 1) else diff_at)"
  by pat_completeness auto
termination
  by (relation "measure (\<lambda>(a, b, m, d). m - d)") auto

function sep_scan :: "bytes \<Rightarrow> bytes \<Rightarrow> nat \<Rightarrow> nat \<Rightarrow> bytes run" where
  "sep_scan a b m diff_at =
     (if diff_at < m then
        let diff = a ! diff_at in
        if diff < 0xff \<and> diff + 1 < b ! diff_at then
          let sep = (take (diff_at + 1) a)[diff_at := diff + 1] in
          do { rassert (slice_cmp sep b = Less); Some sep }
        else sep_scan a b m (diff_at + 1)
      else Some (a @ [0]))"
  by pat_completeness auto
termination
  by (relation "measure (\<lambda>(a, b, m, d). m - d)") auto

definition DefaultCmp_find_shortest_sep :: "bytes \<Rightarrow> bytes \<Rightarrow> bytes run" where
  "DefaultCmp_find_shortest_sep a b =
     (if a = b then Some a
      else let m = (if length a < length b then length a else length b);
               diff_at = sep_common a b m 0
           in sep_scan a b m diff_at)"

text \<open>The loop of \<open>find_short_succ\<close> over the indices, from \<open>i\<close> on.\<close>

function succ_from :: "bytes \<Rightarrow> nat \<Rightarrow> bytes" where
  "succ_from a i =
     (if i < length a then
        if a ! i \<noteq> 0xff then vec_resize (a[i := a ! i + 1]) (i + 1) 0 else succ_from a (i + 1)
      else a @ [255])"
  by pat_completeness auto
termination
  by (relation "measure (\<lambda>(a, i). length a - i)") auto

definition DefaultCmp_find_short_succ :: "bytes \<Rightarrow> bytes" where
  "DefaultCmp_find_short_succ a = succ_from a 0"

definition DefaultCmp :: Cmp where
  "DefaultCmp =
     \<lparr>cmp = slice_cmp,
      find_shortest_sep = DefaultCmp_find_shortest_sep,
      find_short_succ = DefaultCmp_find_short_succ,
      cmp_id = ''leveldb.BytewiseComparator''\<rparr>"

declare sep_common.simps [simp del] sep_scan.simps [simp del] succ_from.simps [simp del]

section \<open>What clients of a comparator rely on\<close>

text \<open>Strictly ascending keys.\<close>

definition ascending :: "Cmp \<Rightarrow> bytes list \<Rightarrow> bool" where
  "ascending C ks \<longleftrightarrow> sorted_wrt (\<lambda>a b. cmp C a b = Less) ks"

text \<open>
  A comparator orders byte strings by a total preorder, a separator of \<open>a < b\<close> exists,
  is above \<open>a\<close> and not above \<open>b\<close>, and a successor is above its argument.
\<close>

locale comparator =
  fixes C :: Cmp
  assumes cmp_refl: "cmp C a a = Equal"
    and cmp_swap: "cmp C a b = Less \<longleftrightarrow> cmp C b a = Greater"
    and cmp_trans: "cmp C a b \<noteq> Greater \<Longrightarrow> cmp C b c \<noteq> Greater \<Longrightarrow> cmp C a c \<noteq> Greater"
    and sep_above: "cmp C a b = Less \<Longrightarrow> find_shortest_sep C a b = Some s \<Longrightarrow> cmp C a s = Less"
    and sep_upto: "cmp C a b = Less \<Longrightarrow> find_shortest_sep C a b = Some s \<Longrightarrow> cmp C s b \<noteq> Greater"
    and sep_returns: "cmp C a b = Less \<Longrightarrow> \<exists>s. find_shortest_sep C a b = Some s"
    and succ_above: "cmp C a (find_short_succ C a) = Less"
begin

lemma cmp_swap': "cmp C a b = Greater \<longleftrightarrow> cmp C b a = Less"
  using cmp_swap by blast

lemma cmp_le_less_trans: "cmp C a b \<noteq> Greater \<Longrightarrow> cmp C b c = Less \<Longrightarrow> cmp C a c = Less"
proof (rule ccontr)
  assume ab: "cmp C a b \<noteq> Greater" and bc: "cmp C b c = Less" and "cmp C a c \<noteq> Less"
  then have "cmp C c a \<noteq> Greater" using cmp_swap by blast
  with ab have "cmp C c b \<noteq> Greater" by (metis cmp_trans)
  with bc show False using cmp_swap by simp
qed

lemma cmp_less_le_trans: "cmp C a b = Less \<Longrightarrow> cmp C b c \<noteq> Greater \<Longrightarrow> cmp C a c = Less"
proof (rule ccontr)
  assume ab: "cmp C a b = Less" and bc: "cmp C b c \<noteq> Greater" and "cmp C a c \<noteq> Less"
  then have "cmp C c a \<noteq> Greater" using cmp_swap by blast
  with bc have "cmp C b a \<noteq> Greater" by (metis cmp_trans)
  with ab show False using cmp_swap by simp
qed

lemma cmp_less_trans: "cmp C a b = Less \<Longrightarrow> cmp C b c = Less \<Longrightarrow> cmp C a c = Less"
  by (rule cmp_le_less_trans) auto

lemma cmp_less_irrefl: "cmp C a a \<noteq> Less"
  by (simp add: cmp_refl)

lemma cmp_less_asym: "cmp C a b = Less \<Longrightarrow> cmp C b a \<noteq> Less"
  using cmp_less_trans cmp_less_irrefl by blast

end

section \<open>The lexical order\<close>

lemma slice_cmp_refl [simp]: "slice_cmp a a = Equal"
  by (induction a) auto

lemma slice_cmp_Equal_iff [simp]: "slice_cmp a b = Equal \<longleftrightarrow> a = b"
  by (induction a b rule: slice_cmp.induct) auto

lemma slice_cmp_swap: "slice_cmp a b = Less \<longleftrightarrow> slice_cmp b a = Greater"
  by (induction a b rule: slice_cmp.induct) auto

lemma slice_cmp_trans:
  "slice_cmp a b \<noteq> Greater \<Longrightarrow> slice_cmp b c \<noteq> Greater \<Longrightarrow> slice_cmp a c \<noteq> Greater"
proof (induction a b arbitrary: c rule: slice_cmp.induct)
  case (4 a as b bs)
  then show ?case by (cases c) (auto split: if_splits)
next
  case (1 c)
  then show ?case by simp
next
  case (2 b bs)
  then show ?case by (cases c) auto
qed simp

lemma slice_cmp_prefix [simp]: "slice_cmp (p @ a) (p @ b) = slice_cmp a b"
  by (induction p) auto

lemma slice_cmp_extend [simp]: "slice_cmp a (a @ v) = (if v = [] then Equal else Less)"
  using slice_cmp_prefix [of a "[]" v] by (cases v) simp_all

lemma slice_cmp_diverge: "x < y \<Longrightarrow> slice_cmp (p @ x # u) (p @ y # v) = Less"
  by simp

lemma slice_cmp_LessE:
  assumes "slice_cmp a b = Less"
  obtains (extend) v where "v \<noteq> []" "b = a @ v"
  | (diverge) p x u y v where "a = p @ x # u" "b = p @ y # v" "x < y"
  using assms
proof (induction a b arbitrary: thesis rule: slice_cmp.induct)
  case (4 a as b bs)
  show ?case
  proof (cases "a = b")
    case True
    with 4 show ?thesis by (metis append_Cons less_irrefl slice_cmp.simps(4))
  next
    case False
    with 4(4) have "a < b" by (auto split: if_splits)
    then show ?thesis using 4(3) [of "[]" a as b bs] by simp
  qed
qed auto

section \<open>Separators and successors\<close>

lemma sep_common_prefix:
  "d \<le> length p \<Longrightarrow> m \<ge> length p \<Longrightarrow>
   sep_common (p @ u) (p @ v) m d = sep_common (p @ u) (p @ v) m (length p)"
proof (induction "length p - d" arbitrary: d)
  case 0
  then show ?case by simp
next
  case (Suc k)
  then have d: "d < length p" by simp
  then have "(p @ u) ! d = (p @ v) ! d" by (simp add: nth_append)
  then have "sep_common (p @ u) (p @ v) m d = sep_common (p @ u) (p @ v) m (d + 1)"
    using d Suc.prems by (subst sep_common.simps) simp
  also have "\<dots> = sep_common (p @ u) (p @ v) m (length p)"
    using Suc d by (intro Suc.hyps) simp_all
  finally show ?case .
qed

lemma sep_common_diverge:
  "x \<noteq> y \<Longrightarrow> m > length p \<Longrightarrow> sep_common (p @ x # u) (p @ y # v) m 0 = length p"
  using sep_common_prefix [of 0 p m "x # u" "y # v"]
  by (simp add: sep_common.simps [of _ _ _ "length p"])

lemma sep_common_extend: "sep_common a (a @ v) (length a) 0 = length a"
  using sep_common_prefix [of 0 a "length a" "[]" v]
  by (simp add: sep_common.simps [of _ _ _ "length a"])

text \<open>The bumped prefix that the scan proposes at position \<open>j\<close>.\<close>

lemma bump_at:
  "j < length (a :: bytes) \<Longrightarrow> (take (j + 1) a)[j := y] = take j a @ [y]"
  by (simp add: take_Suc_conv_app_nth list_update_append)

lemma byte_less_succ: "(x :: u8) < 0xff \<Longrightarrow> x < x + 1"
  by (simp add: word_less_nat_alt unat_word_ariths)

lemma byte_lt_max: "(x :: u8) \<noteq> 0xff \<Longrightarrow> x < 0xff"
  using unsigned_less [of x, where ?'a = nat] by (auto simp: word_less_nat_alt word_eq_iff_unsigned [where ?'a = nat])

lemma bump_above:
  assumes "j < length a" "a ! j < (0xff :: u8)"
  shows "slice_cmp a (take j a @ [a ! j + 1]) = Less"
proof -
  have a: "a = take j a @ a ! j # drop (Suc j) a" using assms(1) by (rule id_take_nth_drop)
  have "slice_cmp (take j a @ a ! j # drop (Suc j) a) (take j a @ [a ! j + 1]) = Less"
    by (rule slice_cmp_diverge) (rule byte_less_succ [OF assms(2)])
  then show ?thesis using a by simp
qed

text \<open>On strings that diverge at \<open>p\<close>, every position the scan can stop at from there on
  gives a separator.\<close>

lemma bump_below:
  assumes ab: "a = p @ x # u" "b = p @ y # v" "x < y"
    and j: "length p \<le> j" "j < length a" "a ! j < 0xff" "a ! j + 1 < b ! j"
  shows "slice_cmp (take j a @ [a ! j + 1]) b = Less"
proof (cases "j = length p")
  case True
  with ab j show ?thesis by (simp add: nth_append)
next
  case False
  with j obtain k where k: "j = length p + Suc k" by (metis add_Suc_right le_neq_implies_less less_iff_Suc_add)
  with ab have "take j a = p @ x # take k u" by simp
  with ab show ?thesis by simp
qed

lemma append_zero_below:
  assumes "a = p @ x # u" "b = p @ y # v" "x < (y :: u8)"
  shows "slice_cmp (a @ [0]) b = Less"
  using assms by simp

lemma sep_scan_between:
  assumes ab: "a = p @ x # u" "b = p @ y # v" "x < y"
  shows "length p \<le> d \<Longrightarrow> m \<le> length a \<Longrightarrow>
    \<exists>s. sep_scan a b m d = Some s \<and> slice_cmp a s = Less \<and> slice_cmp s b = Less"
proof (induction "m - d" arbitrary: d)
  case 0
  then show ?case
    using append_zero_below [OF ab] by (simp add: sep_scan.simps [of a b m d])
next
  case (Suc k)
  then have d: "d < m" "d < length a" by simp_all
  show ?case
  proof (cases "a ! d < 0xff \<and> a ! d + 1 < b ! d")
    case True
    then have below: "slice_cmp (take d a @ [a ! d + 1]) b = Less"
      using bump_below [OF ab] Suc.prems d by simp
    moreover have "slice_cmp a (take d a @ [a ! d + 1]) = Less"
      using bump_above d True by simp
    ultimately show ?thesis
      using True d bump_at [of d a "a ! d + 1"]
      by (simp add: sep_scan.simps [of a b m d] Let_def)
  next
    case False
    then have "sep_scan a b m d = sep_scan a b m (d + 1)"
      using d by (auto simp: sep_scan.simps [of a b m d] Let_def)
    then show ?thesis using Suc.hyps(1) [of "d + 1"] Suc.hyps(2) Suc.prems by simp
  qed
qed

lemma sep_scan_extend: "sep_scan a b (length a) (length a) = Some (a @ [0])"
  by (simp add: sep_scan.simps)

lemma append_zero_upto:
  "v \<noteq> [] \<Longrightarrow> slice_cmp (a @ [0]) (a @ v) = (if v = [0] then Equal else Less)"
proof -
  assume "v \<noteq> []"
  then obtain y w where v: "v = y # w" by (cases v) auto
  show ?thesis
  proof (cases "y = 0")
    case True
    then show ?thesis using v by (cases w) simp_all
  next
    case False
    then show ?thesis using v by (simp add: word_gt_0)
  qed
qed

lemma find_shortest_sep_between:
  assumes "slice_cmp a b = Less"
  shows "\<exists>s. DefaultCmp_find_shortest_sep a b = Some s \<and> slice_cmp a s = Less \<and>
    slice_cmp s b = (if b = a @ [0] then Equal else Less)"
  using assms
proof (cases rule: slice_cmp_LessE)
  case (extend v)
  then have "DefaultCmp_find_shortest_sep a b = Some (a @ [0])"
    by (simp add: DefaultCmp_find_shortest_sep_def Let_def sep_common_extend sep_scan_extend)
  then show ?thesis using extend append_zero_upto [of v a] by simp
next
  case (diverge p x u y v)
  define m where "m = (if length a < length b then length a else length b)"
  have m: "length p < m" "m \<le> length a" using diverge by (auto simp: m_def)
  have "a \<noteq> b" "x \<noteq> y" using diverge by auto
  then have "sep_common a b m 0 = length p"
    using diverge(1,2) m(1) sep_common_diverge [of x y p m u v] by simp
  then have "DefaultCmp_find_shortest_sep a b = sep_scan a b m (length p)"
    using \<open>a \<noteq> b\<close> by (simp only: DefaultCmp_find_shortest_sep_def Let_def m_def if_False)
  moreover have "b \<noteq> a @ [0]" using diverge by auto
  ultimately show ?thesis using sep_scan_between [OF diverge, of "length p" m] m by simp
qed

text \<open>The separator of a key and a smaller one, when there is one, is the first key followed by a zero byte.\<close>

lemma sep_scan_below:
  assumes "sep_scan a b m d = Some s" "a = p @ y # v" "b = p @ x # u" "x < y" "length p < d" "m \<le> length a"
  shows "s = a @ [0]"
  using assms
proof (induction a b m d rule: sep_scan.induct)
  case (1 a b m d)
  show ?case
  proof (cases "d < m \<and> a ! d < 0xff \<and> a ! d + 1 < b ! d")
    case True
    let ?s = "(take (d + 1) a)[d := a ! d + 1]"
    have "take (Suc (length p)) ?s = p @ [y]" using "1.prems"(2,5,6) True by simp
    then have "?s = p @ y # drop (Suc (length p)) ?s"
      by (metis append_Cons append_Nil append_assoc append_take_drop_id)
    then have "slice_cmp ?s b \<noteq> Less"
      using "1.prems"(3,4) slice_cmp_prefix [of p "y # drop (Suc (length p)) ?s" "x # u"] by (metis less_asym' not_less_iff_gr_or_eq slice_cmp.simps(4) Ordering.distinct(3))
    then show ?thesis
      using "1.prems"(1) True by (subst (asm) sep_scan.simps) (simp add: Let_def rassert_def)
  next
    case False
    show ?thesis
    proof (cases "d < m")
      case True
      then have c: "\<not> (a ! d < 0xff \<and> a ! d + 1 < b ! d)" using False by blast
      then have "sep_scan a b m (d + 1) = Some s"
        using "1.prems"(1) True by (simp add: sep_scan.simps [of a b m d] Let_def if_not_P [OF c])
      then show ?thesis using "1.IH" [OF True refl c] "1.prems"(2-) by simp
    next
      case False
      then show ?thesis using "1.prems"(1) by (subst (asm) sep_scan.simps) simp
    qed
  qed
qed

lemma find_shortest_sep_below:
  assumes less: "slice_cmp b a = Less" and sep: "DefaultCmp_find_shortest_sep a b = Some s"
  shows "s = a @ [0]"
proof -
  define m where "m = (if length a < length b then length a else length b)"
  have "a \<noteq> b" using less by auto
  then have scan: "sep_scan a b m (sep_common a b m 0) = Some s"
    using sep by (simp add: DefaultCmp_find_shortest_sep_def Let_def m_def)
  from less show ?thesis
  proof (cases rule: slice_cmp_LessE)
    case (extend v)
    then have m: "m = length b" by (simp add: m_def)
    have "sep_common a b m 0 = m"
      unfolding m extend(2) using sep_common_prefix [of 0 b "length b" v "[]"]
      by (simp add: sep_common.simps [of _ _ _ "length b"])
    then show ?thesis using scan by (simp add: sep_scan.simps [of a b m m])
  next
    case (diverge p x u y v)
    have p: "length p < m" and m: "m \<le> length a" using diverge by (auto simp: m_def)
    then have "sep_common a b m 0 = length p"
      using diverge sep_common_diverge [of y x p m v u] by simp
    moreover have "\<not> (y < 0xff \<and> y + 1 < x)" using byte_less_succ [of y] diverge(3) by (metis less_trans less_irrefl)
    ultimately have "sep_scan a b m (length p + 1) = Some s"
      using scan p diverge by (subst (asm) sep_scan.simps) (auto simp: Let_def nth_append)
    from sep_scan_below [OF this diverge(2,1,3)] m show ?thesis by simp
  qed
qed

lemma succ_from_above: "slice_cmp a (succ_from a i) = Less"
proof (induction a i rule: succ_from.induct)
  case (1 a i)
  show ?case
  proof (cases "i < length a \<and> a ! i \<noteq> 0xff")
    case True
    then have "a ! i < 0xff" by (intro byte_lt_max) simp
    then have "slice_cmp a (take i a @ [a ! i + 1]) = Less" using True by (intro bump_above) simp_all
    moreover have "succ_from a i = take i a @ [a ! i + 1]"
      using True by (simp add: succ_from.simps [of a i] vec_resize_shrink take_update_swap take_Suc_conv_app_nth list_update_append)
    ultimately show ?thesis by simp
  next
    case False
    then show ?thesis using 1 by (auto simp: succ_from.simps [of a i])
  qed
qed

interpretation default_cmp: comparator DefaultCmp
proof
  fix a b c s :: bytes
  show "cmp DefaultCmp a a = Equal" by (simp add: DefaultCmp_def)
  show "cmp DefaultCmp a b = Less \<longleftrightarrow> cmp DefaultCmp b a = Greater"
    by (simp add: DefaultCmp_def slice_cmp_swap)
  show "cmp DefaultCmp a b \<noteq> Greater \<Longrightarrow> cmp DefaultCmp b c \<noteq> Greater \<Longrightarrow> cmp DefaultCmp a c \<noteq> Greater"
    by (simp add: DefaultCmp_def) (rule slice_cmp_trans)
  show "cmp DefaultCmp a (find_short_succ DefaultCmp a) = Less"
    by (simp add: DefaultCmp_def DefaultCmp_find_short_succ_def succ_from_above)
next
  fix a b s :: bytes
  assume "cmp DefaultCmp a b = Less"
  then obtain t where t: "find_shortest_sep DefaultCmp a b = Some t" "slice_cmp a t = Less"
    "slice_cmp t b = (if b = a @ [0] then Equal else Less)"
    using find_shortest_sep_between by (auto simp: DefaultCmp_def)
  then show "\<exists>s. find_shortest_sep DefaultCmp a b = Some s" by blast
  assume "find_shortest_sep DefaultCmp a b = Some s"
  with t show "cmp DefaultCmp a s = Less" and "cmp DefaultCmp s b \<noteq> Greater"
    by (auto simp: DefaultCmp_def split: if_splits)
qed

text \<open>What the table builder relies on besides: separators are not empty and not much longer than
  the key they follow.\<close>

locale short_comparator = comparator +
  assumes sep_short: "cmp C a b = Less \<Longrightarrow> find_shortest_sep C a b = Some s \<Longrightarrow>
    s \<noteq> [] \<and> length s \<le> length a + 1"

lemma sep_scan_short: "sep_scan a b m d = Some s \<Longrightarrow> m \<le> length a \<Longrightarrow> length s \<le> length a + 1"
proof (induction a b m d rule: sep_scan.induct)
  case (1 a b m d)
  then show ?case
    by (auto simp: sep_scan.simps [of a b m d] Let_def rassert_def split: if_splits)
qed

interpretation default_cmp: short_comparator DefaultCmp
proof
  fix a b s
  assume less: "cmp DefaultCmp a b = Less" and s: "find_shortest_sep DefaultCmp a b = Some s"
  have "s \<noteq> []" using default_cmp.sep_above [OF less s] by (cases a) (auto simp: DefaultCmp_def)
  moreover have "a \<noteq> b" using less by (auto simp: DefaultCmp_def)
  then have "length s \<le> length a + 1"
    using s sep_scan_short
    by (auto simp: DefaultCmp_def DefaultCmp_find_shortest_sep_def Let_def split: if_splits)
  ultimately show "s \<noteq> [] \<and> length s \<le> length a + 1" by blast
qed

section \<open>Properties of the default comparator\<close>

text \<open>The length of a successor: one byte past the leading run of \<open>0xff\<close> bytes.\<close>

lemma succ_from_length:
  "length (succ_from a i) = i + length (takeWhile (\<lambda>x. x = 0xff) (drop i a)) + 1"
  if "i \<le> length a"
  using that
proof (induction a i rule: succ_from.induct)
  case (1 a i)
  show ?case
  proof (cases "i < length a")
    case True
    then have "drop i a = a ! i # drop (Suc i) a" by (simp add: Cons_nth_drop_Suc)
    then show ?thesis
      using 1 True by (cases "a ! i = 0xff") (simp_all add: succ_from.simps [of a i])
  next
    case False
    then show ?thesis using 1 by (auto simp: succ_from.simps [of a "length a"])
  qed
qed

lemma above_length:
  assumes "slice_cmp a s = Less"
  shows "length (takeWhile (\<lambda>x. x = 0xff) a) < length s"
  using assms
proof (cases rule: slice_cmp_LessE)
  case (extend v)
  then show ?thesis using length_takeWhile_le [of "\<lambda>x. x = 0xff" a] by (cases v) auto
next
  case (diverge p x u y v)
  have "x \<noteq> 0xff"
  proof
    assume "x = 0xff"
    then have "(0xff :: u8) < y" using diverge by simp
    then show False using unsigned_less [of y, where ?'a = nat] by (simp add: word_less_nat_alt)
  qed
  then have "length (takeWhile (\<lambda>x. x = 0xff) a) \<le> length p"
    unfolding diverge(1) by (induction p) auto
  then show ?thesis using diverge by simp
qed

text \<open>C38: For \<open>a < b\<close> the default comparator's separator exists (its internal assertion holds), is above
  \<open>a\<close>, and is below \<open>b\<close>, except when \<open>b\<close> is \<open>a\<close> followed by one zero byte: then it is \<open>b\<close>
  itself.\<close>

theorem default_separator_between:
  assumes "slice_cmp a b = Less"
  shows "\<exists>s. DefaultCmp_find_shortest_sep a b = Some s \<and> slice_cmp a s = Less \<and>
    slice_cmp s b = (if b = a @ [0] then Equal else Less)"
  using assms by (rule find_shortest_sep_between)

theorem default_separator_between_witness:
  "(\<exists>s. DefaultCmp_find_shortest_sep [1, 5, 9] [1, 8] = Some s \<and> slice_cmp [1, 5, 9] s = Less \<and>
      slice_cmp s [1, 8] = Less) \<and>
   (\<exists>s. DefaultCmp_find_shortest_sep [97] [97, 0] = Some s \<and> slice_cmp s [97, 0] = Equal)"
  using default_separator_between [of "[1, 5, 9]" "[1, 8]"] default_separator_between [of "[97]" "[97, 0]"]
  by auto

text \<open>The default comparator's short successor is above its argument, and no byte string above
  the argument is shorter.\<close>

lemma default_successor_shortest:
  "slice_cmp a (DefaultCmp_find_short_succ a) = Less \<and>
   (\<forall>s. slice_cmp a s = Less \<longrightarrow> length (DefaultCmp_find_short_succ a) \<le> length s)"
  using above_length [of a] succ_from_length [of 0 a]
  by (simp add: DefaultCmp_find_short_succ_def succ_from_above Suc_le_eq)

end
