(* ===== verification/SST_Filter.thy ===== *)
theory SST_Filter
  imports SST_Deps
begin

text \<open>
  Filter policies, \<open>src/filter.rs\<close>: the trait, the policy without a filter and the Bloom
  filter. The trait object \<open>BoxedFilterPolicy\<close> is a record of functions; the locale
  \<open>filter_policy\<close> is its contract (a filter never rejects a key it was created with), and
  both policies of the source are interpreted in it.
\<close>

section \<open>The trait\<close>

record FilterPolicy =
  policy_name :: string
  create_filter :: "bytes \<Rightarrow> usize list \<Rightarrow> bytes run"
  key_may_match :: "bytes \<Rightarrow> bytes \<Rightarrow> bool run"

definition NoFilterPolicy :: FilterPolicy where
  "NoFilterPolicy =
     \<lparr>policy_name = ''_'',
      create_filter = (\<lambda>_ _. Some []),
      key_may_match = (\<lambda>_ _. Some True)\<rparr>"

section \<open>The Bloom filter\<close>

definition BLOOM_SEED :: u32 where
  "BLOOM_SEED = 0xbc9f1d34"

definition bloom_m :: u32 where
  "bloom_m = 0xc6a4a793"

record BloomPolicy =
  bits_per_key :: u32
  bloom_k :: u32

text \<open>
  Single precision floating point on non-negative numbers: \<open>f32_round\<close> rounds a whole number
  of units to 24 significant bits, ties to even. The constant \<open>0.69f32\<close> is
  \<open>11576279 / 2 ^ 24\<close>, so a product with it is a whole number of units \<open>2 ^ -24\<close>, and the
  cast to \<open>u32\<close> truncates.
\<close>

fun f32_shift :: "nat \<Rightarrow> nat" where
  "f32_shift n = (if n < 2 ^ 24 then 0 else Suc (f32_shift (n div 2)))"

declare f32_shift.simps [simp del]

definition f32_round :: "nat \<Rightarrow> nat" where
  "f32_round n =
     (let e = f32_shift n; q = n div 2 ^ e; r = 2 * (n mod 2 ^ e)
      in (if 2 ^ e < r \<or> r = 2 ^ e \<and> odd q then q + 1 else q) * 2 ^ e)"

definition f32_mul_069_as_u32 :: "u32 \<Rightarrow> u32" where
  "f32_mul_069_as_u32 n = of_nat (f32_round (f32_round (unat n) * 11576279) div 2 ^ 24)"

definition BloomPolicy_new_unwrapped :: "u32 \<Rightarrow> BloomPolicy" where
  "BloomPolicy_new_unwrapped bits =
     (let k = f32_mul_069_as_u32 bits;
          k = (if k < 1 then 1 else if k > 30 then 30 else k)
      in \<lparr>bits_per_key = bits, bloom_k = k\<rparr>)"

text \<open>The loop over whole words returns the index it stops at and the hash so far.\<close>

function bloom_words :: "deps \<Rightarrow> bytes \<Rightarrow> nat \<Rightarrow> u32 \<Rightarrow> nat \<times> u32" where
  "bloom_words D data ix h =
     (if ix + 4 \<le> length data then
        let w = decode_fixed32 D (take 4 (drop ix data));
            h = h + w;
            h = h * bloom_m
        in bloom_words D data (ix + 4) (h XOR drop_bit 16 h)
      else (ix, h))"
  by pat_completeness auto
termination
  by (relation "measure (\<lambda>(D, data, ix, h). length data - ix)") auto

declare bloom_words.simps [simp del]

fun bloom_tail :: "bytes \<Rightarrow> nat \<Rightarrow> u32 \<Rightarrow> u32" where
  "bloom_tail [] i h = h"
| "bloom_tail (b # bs) i h = bloom_tail bs (i + 1) (h + push_bit (8 * i) (ucast b))"

text \<open>The product of the length and \<open>m\<close> is taken in \<open>u64\<close> and panics when it overflows.\<close>

definition bloom_hash :: "deps \<Rightarrow> bytes \<Rightarrow> u32 run" where
  "bloom_hash D data =
     do {
       let limit = length data;
       rassert (limit * unat bloom_m < 2 ^ 64);
       let h0 = BLOOM_SEED XOR (of_nat limit * bloom_m);
       let (ix, h) = bloom_words D data 0 h0;
       rassert (limit - ix < 4);
       if limit - ix > 0 then
         let h = bloom_tail (drop ix data) 0 h;
             h = h * bloom_m
         in Some (h XOR drop_bit 24 h)
       else Some h
     }"

fun offset_data_iterate :: "bytes \<Rightarrow> usize list \<Rightarrow> (bytes \<Rightarrow> 's \<Rightarrow> 's run) \<Rightarrow> 's \<Rightarrow> 's run" where
  "offset_data_iterate data [] f s = Some s"
| "offset_data_iterate data (off # offs) f s =
     do {
       let upper = (case offs of [] \<Rightarrow> length data | off' # _ \<Rightarrow> off');
       piece \<leftarrow> vec_slice data off upper;
       s' \<leftarrow> f piece s;
       offset_data_iterate data offs f s'
     }"

definition bloom_delta :: "u32 \<Rightarrow> u32" where
  "bloom_delta h = drop_bit 17 h OR push_bit 15 h"

text \<open>The remainder \<open>h % bits\<close> panics for zero bits.\<close>

definition u32_rem :: "u32 \<Rightarrow> u32 \<Rightarrow> u32 run" where
  "u32_rem a b = (if b = 0 then None else Some (a mod b))"

fun bloom_set_bits :: "nat \<Rightarrow> u32 \<Rightarrow> u32 \<Rightarrow> u32 \<Rightarrow> bytes \<Rightarrow> bytes run" where
  "bloom_set_bits 0 bits h delta flt = Some flt"
| "bloom_set_bits (Suc n) bits h delta flt =
     do {
       r \<leftarrow> u32_rem h bits;
       let bitpos = u32_as_usize r;
       b \<leftarrow> vec_index flt (bitpos div 8);
       let flt' = flt[bitpos div 8 := b OR push_bit (bitpos mod 8) 1];
       bloom_set_bits n bits (h + delta) delta flt'
     }"

definition BloomPolicy_create_filter ::
  "deps \<Rightarrow> BloomPolicy \<Rightarrow> bytes \<Rightarrow> usize list \<Rightarrow> bytes run" where
  "BloomPolicy_create_filter D self keys key_offsets =
     do {
       let filter_bits = length key_offsets * u32_as_usize (bits_per_key self);
       rassert (filter_bits < 2 ^ 64);
       flt \<leftarrow> (if filter_bits < 64 then Some (vec_resize [] 8 0)
               else do { n \<leftarrow> usize_add filter_bits 7; Some (vec_resize [] (n div 8) 0) });
       let adj_filter_bits = usize_as_u32 (length flt * 8);
       let flt = flt @ [ucast (bloom_k self)];
       offset_data_iterate keys key_offsets
         (\<lambda>key flt. do {
            h \<leftarrow> bloom_hash D key;
            bloom_set_bits (unat (bloom_k self)) adj_filter_bits h (bloom_delta h) flt
          })
         flt
     }"

fun bloom_test_bits :: "nat \<Rightarrow> u32 \<Rightarrow> u32 \<Rightarrow> u32 \<Rightarrow> bytes \<Rightarrow> bool run" where
  "bloom_test_bits 0 bits h delta filter_adj = Some True"
| "bloom_test_bits (Suc n) bits h delta filter_adj =
     do {
       r \<leftarrow> u32_rem h bits;
       let bitpos = u32_as_usize r;
       b \<leftarrow> vec_index filter_adj (bitpos div 8);
       if b AND push_bit (bitpos mod 8) 1 = 0 then Some False
       else bloom_test_bits n bits (h + delta) delta filter_adj
     }"

definition BloomPolicy_key_may_match :: "deps \<Rightarrow> bytes \<Rightarrow> bytes \<Rightarrow> bool run" where
  "BloomPolicy_key_may_match D key flt =
     (if length flt = 0 then Some True
      else do {
        let len32 = usize_as_u32 (length flt - 1);
        rassert (unat len32 * 8 < 2 ^ 32);
        let bits = len32 * 8;
        let k = flt ! (length flt - 1);
        let filter_adj = take (length flt - 1) flt;
        if k > 30 then Some True
        else do {
          h \<leftarrow> bloom_hash D key;
          bloom_test_bits (unat k) bits h (bloom_delta h) filter_adj
        }
      })"

definition BloomPolicy_new :: "deps \<Rightarrow> u32 \<Rightarrow> FilterPolicy" where
  "BloomPolicy_new D bits =
     \<lparr>policy_name = ''leveldb.BuiltinBloomFilter2'',
      create_filter = BloomPolicy_create_filter D (BloomPolicy_new_unwrapped bits),
      key_may_match = BloomPolicy_key_may_match D\<rparr>"

section \<open>The contract of a filter policy\<close>

text \<open>Keys are handed to a policy concatenated, with the offset each one starts at.\<close>

fun offsets_from :: "nat \<Rightarrow> bytes list \<Rightarrow> usize list" where
  "offsets_from n [] = []"
| "offsets_from n (k # ks) = n # offsets_from (n + length k) ks"

locale filter_policy =
  fixes P :: FilterPolicy
  assumes no_false_negative:
    "create_filter P (concat ks) (offsets_from 0 ks) = Some f \<Longrightarrow> length f < 2 ^ 29 \<Longrightarrow>
     k \<in> set ks \<Longrightarrow> key_may_match P k f = Some True"

text \<open>A policy whose filters are never empty and can be asked for every key.\<close>

locale nonempty_filter_policy = filter_policy +
  assumes create_nonempty: "create_filter P (concat ks) (offsets_from 0 ks) = Some f \<Longrightarrow> f \<noteq> []"
    and match_total: "create_filter P (concat ks) (offsets_from 0 ks) = Some f \<Longrightarrow>
      length f < 2 ^ 29 \<Longrightarrow> length key < 2 ^ 32 \<Longrightarrow> \<exists>b. key_may_match P key f = Some b"

interpretation no_filter: filter_policy NoFilterPolicy
  by unfold_locales (simp add: NoFilterPolicy_def)

lemma length_offsets_from [simp]: "length (offsets_from n ks) = length ks"
  by (induction ks arbitrary: n) simp_all

section \<open>Iterating over the keys\<close>

text \<open>The fold of a panicking function over a list of keys.\<close>

fun fold_run :: "('a \<Rightarrow> 's \<Rightarrow> 's run) \<Rightarrow> 'a list \<Rightarrow> 's \<Rightarrow> 's run" where
  "fold_run f [] s = Some s"
| "fold_run f (x # xs) s = do { s' \<leftarrow> f x s; fold_run f xs s' }"

lemma offset_data_iterate_pieces:
  "data = pre @ concat ks \<Longrightarrow>
   offset_data_iterate data (offsets_from (length pre) ks) f s = fold_run f ks s"
proof (induction ks arbitrary: pre s)
  case (Cons k ks)
  let ?upper = "case offsets_from (length pre + length k) ks of
      [] \<Rightarrow> length data | off' # _ \<Rightarrow> off'"
  have "?upper = length pre + length k"
    using Cons.prems by (cases ks) simp_all
  then have "vec_slice data (length pre) ?upper = Some k"
    using Cons.prems by (simp add: vec_slice_def)
  moreover have "offset_data_iterate data (offsets_from (length (pre @ k)) ks) f = fold_run f ks"
    using Cons.prems by (intro ext Cons.IH) simp
  ultimately show ?case by simp
qed simp

lemma offset_data_iterate_concat:
  "offset_data_iterate (concat ks) (offsets_from 0 ks) f s = fold_run f ks s"
  using offset_data_iterate_pieces [of "concat ks" "[]" ks f s] by simp

section \<open>No false negatives of the Bloom filter\<close>

definition filter_bit :: "bytes \<Rightarrow> nat \<Rightarrow> bool" where
  "filter_bit flt i \<longleftrightarrow> bit (flt ! (i div 8)) (i mod 8)"

text \<open>The bit positions of a key: \<open>n\<close> probes starting at \<open>h\<close> with step \<open>delta\<close>.\<close>

fun probes :: "nat \<Rightarrow> u32 \<Rightarrow> u32 \<Rightarrow> u32 \<Rightarrow> nat list" where
  "probes 0 bits h delta = []"
| "probes (Suc n) bits h delta = unat (h mod bits) # probes n bits (h + delta) delta"

lemma unat_mod_less: "bits \<noteq> 0 \<Longrightarrow> unat (h mod bits :: u32) < unat bits"
  by (simp add: unat_mod_distrib unat_gt_0)

lemma set_bit_byte:
  "(b AND 2 ^ j = 0) \<longleftrightarrow> \<not> bit (b :: u8) j"
  using bit_iff_and_push_bit_not_eq_0 [of b j] by simp

lemma probes_bounded: "bits \<noteq> 0 \<Longrightarrow> \<forall>i \<in> set (probes n bits h delta). i < unat bits"
  by (induction n arbitrary: h) (simp_all add: unat_mod_less)

lemma filter_bit_set:
  assumes "i < 8 * length flt" "j < 8 * length flt"
  shows "filter_bit (flt[j div 8 := flt ! (j div 8) OR push_bit (j mod 8) 1]) i \<longleftrightarrow>
    i = j \<or> filter_bit flt i"
proof (cases "i div 8 = j div 8")
  case True
  have "j div 8 < length flt" using assms(2) by simp
  moreover have "i = j \<longleftrightarrow> i mod 8 = j mod 8" using True by (metis div_mult_mod_eq)
  moreover have "i mod 8 < 8" "j mod 8 < 8" by simp_all
  ultimately show ?thesis using True by (auto simp: filter_bit_def bit_simps bit_1_iff)
next
  case False
  then show ?thesis by (auto simp: filter_bit_def)
qed

lemma bloom_set_bits_spec:
  "bits \<noteq> 0 \<Longrightarrow> unat bits \<le> 8 * m \<Longrightarrow> m \<le> length flt \<Longrightarrow>
   \<exists>flt'. bloom_set_bits n bits h delta flt = Some flt' \<and> length flt' = length flt \<and>
     (\<forall>i < 8 * length flt. filter_bit flt i \<longrightarrow> filter_bit flt' i) \<and>
     (\<forall>i \<in> set (probes n bits h delta). filter_bit flt' i) \<and> drop m flt' = drop m flt"
proof (induction n arbitrary: h flt)
  case (Suc n)
  let ?i = "unat (h mod bits)"
  let ?flt = "flt[?i div 8 := flt ! (?i div 8) OR push_bit (?i mod 8) 1]"
  have i: "?i < 8 * m" using unat_mod_less [OF Suc.prems(1), of h] Suc.prems(2) by linarith
  then have i': "?i < 8 * length flt" and dv: "?i div 8 < length flt" "?i div 8 < m"
    using Suc.prems(3) by simp_all
  obtain flt' where flt': "bloom_set_bits n bits (h + delta) delta ?flt = Some flt'"
    "length flt' = length flt" "\<forall>i < 8 * length flt. filter_bit ?flt i \<longrightarrow> filter_bit flt' i"
    "\<forall>i \<in> set (probes n bits (h + delta) delta). filter_bit flt' i" "drop m flt' = drop m ?flt"
    using Suc.IH [of ?flt "h + delta"] Suc.prems by auto
  have "bloom_set_bits (Suc n) bits h delta flt = Some flt'"
    using Suc.prems(1) dv flt'(1) by (simp add: u32_rem_def u32_as_usize_def run_simps)
  moreover have "drop m ?flt = drop m flt" using dv by simp
  ultimately show ?case
    using flt' i' filter_bit_set [OF _ i'] by auto
qed simp

lemma bloom_test_bits_sound:
  "bits \<noteq> 0 \<Longrightarrow> unat bits \<le> 8 * length flt \<Longrightarrow>
   bloom_test_bits n bits h delta flt =
     Some (\<forall>i \<in> set (probes n bits h delta). filter_bit flt i)"
proof (induction n arbitrary: h)
  case (Suc n)
  let ?i = "unat (h mod bits)"
  have "?i < 8 * length flt" using unat_mod_less [OF Suc.prems(1), of h] Suc.prems(2) by linarith
  then have "?i div 8 < length flt" by simp
  then show ?case
    using Suc by (simp add: u32_rem_def u32_as_usize_def run_simps set_bit_byte filter_bit_def Let_def)
qed simp

text \<open>The number of probes is between 1 and 30, so it survives the cast to a byte.\<close>

lemma bloom_k_range: "1 \<le> bloom_k (BloomPolicy_new_unwrapped bits)"
  "bloom_k (BloomPolicy_new_unwrapped bits) \<le> 30"
  by (auto simp: BloomPolicy_new_unwrapped_def Let_def word_le_nat_alt word_less_nat_alt)

lemma bloom_k_as_u8:
  "k \<le> (30 :: u32) \<Longrightarrow> unat (ucast k :: u8) = unat k \<and> (ucast k :: u8) \<le> 30"
proof -
  assume "k \<le> 30"
  then have "unat k \<le> 30" by (simp add: word_le_nat_alt)
  then have "unat (ucast k :: u8) = unat k" by (simp add: unsigned_ucast_eq take_bit_nat_eq_self_iff)
  with \<open>unat k \<le> 30\<close> show ?thesis by (simp add: word_le_nat_alt)
qed

text \<open>The fold that sets the probes of every key.\<close>

definition bloom_add_key :: "deps \<Rightarrow> nat \<Rightarrow> u32 \<Rightarrow> bytes \<Rightarrow> bytes \<Rightarrow> bytes run" where
  "bloom_add_key D n bits key flt =
     do { h \<leftarrow> bloom_hash D key; bloom_set_bits n bits h (bloom_delta h) flt }"

lemma bloom_add_keys:
  "fold_run (bloom_add_key D n bits) ks flt = Some flt' \<Longrightarrow> bits \<noteq> 0 \<Longrightarrow> unat bits \<le> 8 * m \<Longrightarrow>
   m \<le> length flt \<Longrightarrow>
   length flt' = length flt \<and> drop m flt' = drop m flt \<and>
   (\<forall>i < 8 * length flt. filter_bit flt i \<longrightarrow> filter_bit flt' i) \<and>
   (\<forall>k \<in> set ks. \<exists>h. bloom_hash D k = Some h \<and>
      (\<forall>i \<in> set (probes n bits h (bloom_delta h)). filter_bit flt' i))"
proof (induction ks arbitrary: flt)
  case (Cons k ks)
  from Cons.prems(1) obtain h flt1 where h: "bloom_hash D k = Some h"
    and flt1: "bloom_set_bits n bits h (bloom_delta h) flt = Some flt1"
    and rest: "fold_run (bloom_add_key D n bits) ks flt1 = Some flt'"
    by (auto simp: bloom_add_key_def [of D n bits k] bind_eq_Some_conv)
  note spec = bloom_set_bits_spec [OF Cons.prems(2-4), of n h "bloom_delta h"]
  have len: "length flt1 = length flt" "m \<le> length flt1" using spec flt1 Cons.prems(4) by auto
  note IH = Cons.IH [OF rest Cons.prems(2,3) len(2)]
  have "\<forall>i \<in> set (probes n bits h (bloom_delta h)). i < 8 * length flt"
    using probes_bounded [OF Cons.prems(2), of n h "bloom_delta h"] Cons.prems(3,4) by fastforce
  then have "\<forall>i \<in> set (probes n bits h (bloom_delta h)). filter_bit flt' i"
    using spec flt1 IH len by auto
  then show ?case using spec flt1 IH len h by auto
qed simp

lemma bloom_set_bits_length:
  "bloom_set_bits n bits h delta flt = Some flt' \<Longrightarrow> length flt' = length flt"
  by (induction n arbitrary: h flt) (auto simp: bind_eq_Some_conv Let_def)

lemma bloom_add_keys_length:
  "fold_run (bloom_add_key D n bits) ks flt = Some flt' \<Longrightarrow> length flt' = length flt"
proof (induction ks arbitrary: flt)
  case (Cons k ks)
  then obtain flt1 where "length flt1 = length flt" "fold_run (bloom_add_key D n bits) ks flt1 = Some flt'"
    by (auto simp: bloom_add_key_def [of D n bits k] bind_eq_Some_conv dest: bloom_set_bits_length)
  with Cons.IH show ?case by simp
qed simp

definition bloom_size :: "BloomPolicy \<Rightarrow> nat \<Rightarrow> nat" where
  "bloom_size self n =
     (let fb = n * unat (bits_per_key self) in if fb < 64 then 8 else (fb + 7) div 8)"

lemma bloom_size_pos: "8 \<le> bloom_size self n"
  by (auto simp: bloom_size_def Let_def)

lemma create_filter_eq:
  "BloomPolicy_create_filter D self (concat ks) (offsets_from 0 ks) =
     (if length ks * unat (bits_per_key self) + 7 < 2 ^ 64 then
        fold_run (bloom_add_key D (unat (bloom_k self)) (usize_as_u32 (bloom_size self (length ks) * 8)))
          ks (replicate (bloom_size self (length ks)) 0 @ [ucast (bloom_k self)])
      else None)"
  by (auto simp: BloomPolicy_create_filter_def offset_data_iterate_concat bloom_size_def Let_def
      u32_as_usize_def vec_resize_def rassert_def usize_add_def bloom_add_key_def [abs_def])

lemma key_may_match_eq:
  assumes "length f = Suc L" "L * 8 < 2 ^ 32" "bloom_hash D k = Some h" "f ! L \<le> 30"
  shows "BloomPolicy_key_may_match D k f =
    bloom_test_bits (unat (f ! L)) (usize_as_u32 (L * 8)) h (bloom_delta h) (take L f)"
proof -
  have "unat (usize_as_u32 L) * 8 < 2 ^ 32"
    using assms(2) unat_usize_as_u32 [of L] by simp
  moreover have "usize_as_u32 L * 8 = usize_as_u32 (L * 8)" by (simp add: usize_as_u32_def)
  moreover have "\<not> 30 < f ! L" using assms(4) by (simp add: not_less)
  ultimately show ?thesis
    using assms(1-3) by (simp add: BloomPolicy_key_may_match_def rassert_def Let_def)
qed

lemma bloom_no_false_negative:
  fixes bits :: u32
  defines "P \<equiv> BloomPolicy_new_unwrapped bits"
  assumes create: "BloomPolicy_create_filter D P (concat ks) (offsets_from 0 ks) = Some f"
    and len: "length f < 2 ^ 29" and k: "k \<in> set ks"
  shows "BloomPolicy_key_may_match D k f = Some True"
proof -
  define L where "L = bloom_size P (length ks)"
  define n where "n = unat (bloom_k P)"
  define bs where "bs = usize_as_u32 (L * 8)"
  let ?flt0 = "replicate L 0 @ [ucast (bloom_k P)]"
  have fold: "fold_run (bloom_add_key D n bs) ks ?flt0 = Some f"
    using create by (simp add: create_filter_eq L_def n_def bs_def split: if_splits)
  have lenf: "length f = Suc L" using bloom_add_keys_length [OF fold] by simp
  then have L: "L * 8 < 2 ^ 32" using len by simp
  then have bs: "unat bs = L * 8" using unat_usize_as_u32 [OF L] by (simp add: bs_def)
  have "8 \<le> L" unfolding L_def by (rule bloom_size_pos)
  then have "bs \<noteq> 0" using bs by auto
  from bloom_add_keys [OF fold this, of L] bs k obtain h where
    h: "bloom_hash D k = Some h" "\<forall>i \<in> set (probes n bs h (bloom_delta h)). filter_bit f i"
    and drop: "drop L f = [ucast (bloom_k P)]" by auto
  have fL: "f ! L = ucast (bloom_k P)" using drop lenf by (metis Cons_nth_drop_Suc lessI list.inject)
  have k8: "unat (f ! L) = n" "f ! L \<le> 30"
    using bloom_k_as_u8 [OF bloom_k_range(2) [of bits]] by (simp_all add: fL n_def P_def)
  have "\<forall>i \<in> set (probes n bs h (bloom_delta h)). filter_bit (take L f) i"
    using h(2) probes_bounded [OF \<open>bs \<noteq> 0\<close>, of n h "bloom_delta h"] bs
    by (auto simp: filter_bit_def)
  then have "bloom_test_bits n bs h (bloom_delta h) (take L f) = Some True"
    using bloom_test_bits_sound [OF \<open>bs \<noteq> 0\<close>, of "take L f"] bs lenf by simp
  then show ?thesis
    using key_may_match_eq [OF lenf L h(1) k8(2)] k8(1) by (simp add: bs_def)
qed

lemma bloom_words_index:
  "ix \<le> length data \<Longrightarrow> length data - fst (bloom_words D data ix h) < 4"
proof (induction D data ix h rule: bloom_words.induct)
  case (1 D data ix h)
  then show ?case by (auto simp: bloom_words.simps [of D data ix h] Let_def)
qed

lemma bloom_hash_total:
  assumes "length key < 2 ^ 32"
  shows "\<exists>h. bloom_hash D key = Some h"
proof -
  have "length key * unat bloom_m < 2 ^ 32 * 2 ^ 32"
    using assms unsigned_less [of bloom_m, where ?'a = nat] by (intro mult_strict_mono) simp_all
  then show ?thesis
    using bloom_words_index [of 0 key D]
    by (auto simp: bloom_hash_def rassert_def split_beta Let_def)
qed

lemma bloom_match_total:
  assumes "BloomPolicy_create_filter D self (concat ks) (offsets_from 0 ks) = Some f"
    and len: "length f < 2 ^ 29" "length key < 2 ^ 32"
  shows "\<exists>b. BloomPolicy_key_may_match D key f = Some b"
proof -
  define L where "L = bloom_size self (length ks)"
  have f: "length f = Suc L" "8 \<le> L"
    using assms(1) bloom_size_pos [of self "length ks"]
    by (auto simp: create_filter_eq L_def dest: bloom_add_keys_length split: if_splits)
  obtain h where h: "bloom_hash D key = Some h" using bloom_hash_total [OF len(2)] by blast
  show ?thesis
  proof (cases "f ! L \<le> 30")
    case True
    have "L * 8 < 2 ^ 32" using f len(1) by simp
    then have bits: "unat (usize_as_u32 (L * 8)) = L * 8" by (rule unat_usize_as_u32)
    then have "usize_as_u32 (L * 8) \<noteq> 0" using f(2) by auto
    with bits key_may_match_eq [OF f(1) \<open>L * 8 < 2 ^ 32\<close> h True]
      bloom_test_bits_sound [of "usize_as_u32 (L * 8)" "take L f"] f(1)
    show ?thesis by simp
  next
    case False
    have "unat (usize_as_u32 L) * 8 < 2 ^ 32" using f len(1) unat_usize_as_u32 [of L] by simp
    then show ?thesis using False f(1)
      by (auto simp: BloomPolicy_key_may_match_def rassert_def Let_def not_le)
  qed
qed

lemma bloom_filter_nonempty:
  "BloomPolicy_create_filter D self (concat ks) (offsets_from 0 ks) = Some f \<Longrightarrow> f \<noteq> []"
  by (auto simp: create_filter_eq dest: bloom_add_keys_length split: if_splits)

interpretation bloom: nonempty_filter_policy "BloomPolicy_new D bits" for D bits
  by unfold_locales
    (auto simp: BloomPolicy_new_def intro: bloom_no_false_negative dest: bloom_filter_nonempty bloom_match_total)

text \<open>The filter is created, without a panic, for keys and key counts of ordinary size.\<close>

lemma bloom_create_total:
  assumes "length ks * unat bits < 2 ^ 31" "\<forall>k \<in> set ks. length k < 2 ^ 32"
  shows "\<exists>f. create_filter (BloomPolicy_new D bits) (concat ks) (offsets_from 0 ks) = Some f \<and>
    length f = Suc (bloom_size (BloomPolicy_new_unwrapped bits) (length ks)) \<and> length f < 2 ^ 29"
proof -
  define P where "P = BloomPolicy_new_unwrapped bits"
  define L where "L = bloom_size P (length ks)"
  have bpk: "bits_per_key P = bits" by (simp add: P_def BloomPolicy_new_unwrapped_def Let_def)
  have L: "8 \<le> L" "L < 2 ^ 29 - 1"
    using assms(1) by (auto simp: L_def bloom_size_def bpk Let_def)
  define bs where "bs = usize_as_u32 (L * 8)"
  have bs: "unat bs = L * 8" using unat_usize_as_u32 [of "L * 8"] L by (simp add: bs_def)
  then have "bs \<noteq> 0" using L by auto
  have "L \<le> length flt \<Longrightarrow> set xs \<subseteq> set ks \<Longrightarrow>
      \<exists>f. fold_run (bloom_add_key D n bs) xs flt = Some f" for n xs flt
  proof (induction xs arbitrary: flt)
    case (Cons x xs)
    obtain h where h: "bloom_hash D x = Some h" using bloom_hash_total [of x D] Cons.prems assms by auto
    from bloom_set_bits_spec [OF \<open>bs \<noteq> 0\<close>, of L flt n h "bloom_delta h"] bs Cons.prems
    obtain flt1 where "bloom_set_bits n bs h (bloom_delta h) flt = Some flt1" "length flt1 = length flt"
      by auto
    with Cons h show ?case by (simp add: bloom_add_key_def [of D n bs x])
  qed simp
  from this [of "replicate L 0 @ [ucast (bloom_k P)]" ks "unat (bloom_k P)"]
  obtain f where f: "fold_run (bloom_add_key D (unat (bloom_k P)) bs) ks
      (replicate L 0 @ [ucast (bloom_k P)]) = Some f" by auto
  then have "create_filter (BloomPolicy_new D bits) (concat ks) (offsets_from 0 ks) = Some f"
    using assms(1) by (simp add: BloomPolicy_new_def create_filter_eq bpk bs_def L_def flip: P_def)
  moreover have "length f = Suc L" using bloom_add_keys_length [OF f] by simp
  ultimately show ?thesis using L by (simp add: L_def P_def)
qed

section \<open>Properties\<close>

text \<open>The Bloom filter of any keys of ordinary size is created without a panic and accepts every
  one of them: it has no false negatives.\<close>

lemma bloom_filter_accepts_its_keys:
  assumes "length ks * unat bits < 2 ^ 31" "\<forall>k \<in> set ks. length k < 2 ^ 32"
  shows "\<exists>f. create_filter (BloomPolicy_new D bits) (concat ks) (offsets_from 0 ks) = Some f \<and>
    (\<forall>k \<in> set ks. key_may_match (BloomPolicy_new D bits) k f = Some True)"
  using bloom_create_total [OF assms, of D] bloom.no_false_negative by blast

end
