(* ===== verification/SST_Options.thy ===== *)
theory SST_Options
  imports SST_Cmp SST_Filter
begin

text \<open>
  \<open>src/options.rs\<close>. The block cache that \<open>Options\<close> shares between tables is mutable state:
  it is passed explicitly to the operations that use it and is not a field here; its
  default capacity is \<open>Options_default_cache_capacity\<close>, and \<open>SST_TableReader\<close> has the options
  together with their cache.
\<close>

definition KB :: usize where "KB = 2 ^ 10"
definition MB :: usize where "MB = KB * KB"
definition BLOCK_MAX_SIZE :: usize where "BLOCK_MAX_SIZE = 4 * KB"
definition BLOCK_CACHE_CAPACITY :: usize where "BLOCK_CACHE_CAPACITY = 8 * MB"
definition WRITE_BUFFER_SIZE :: usize where "WRITE_BUFFER_SIZE = 4 * MB"
definition DEFAULT_BITS_PER_KEY :: u32 where "DEFAULT_BITS_PER_KEY = 10"

datatype CompressionType = CompressionNone | CompressionSnappy

fun CompressionType_as_u8 :: "CompressionType \<Rightarrow> u8" where
  "CompressionType_as_u8 CompressionNone = 0"
| "CompressionType_as_u8 CompressionSnappy = 1"

definition int_to_compressiontype :: "u32 \<Rightarrow> CompressionType option" where
  "int_to_compressiontype i =
     (if i = 0 then Some CompressionNone
      else if i = 1 then Some CompressionSnappy
      else None)"

record Options =
  opt_cmp :: Cmp
  write_buffer_size :: usize
  block_size :: usize
  block_restart_interval :: usize
  compression_type :: CompressionType
  opt_filter_policy :: FilterPolicy

definition Options_default :: "deps \<Rightarrow> Options" where
  "Options_default D =
     \<lparr>opt_cmp = DefaultCmp,
      write_buffer_size = WRITE_BUFFER_SIZE,
      block_size = BLOCK_MAX_SIZE,
      block_restart_interval = 16,
      compression_type = CompressionNone,
      opt_filter_policy = BloomPolicy_new D DEFAULT_BITS_PER_KEY\<rparr>"

definition Options_default_cache_capacity :: usize where
  "Options_default_cache_capacity = BLOCK_CACHE_CAPACITY div BLOCK_MAX_SIZE"

lemma compressiontype_roundtrip [simp]:
  "int_to_compressiontype (ucast (CompressionType_as_u8 c)) = Some c"
  by (cases c) (simp_all add: int_to_compressiontype_def)

end
