(* ===== verification/SST_BlockBuilder.thy ===== *)
theory SST_BlockBuilder
  imports SST_BlockFormat SST_Options
begin

text \<open>
  \<open>src/block_builder.rs\<close>: the builder of a block of consecutive entries. Its invariant
  \<open>bb_inv\<close> ties the buffer and the restart list to the entries added so far; \<open>finish\<close>
  then yields a block with the layout of \<open>SST_BlockFormat\<close>.
\<close>

section \<open>The builder\<close>

record BlockBuilder =
  bb_opt :: Options
  bb_buffer :: bytes
  bb_restarts :: "u32 list"
  bb_last_key :: bytes
  bb_restart_counter :: usize
  bb_counter :: usize

definition BlockBuilder_new :: "Options \<Rightarrow> BlockBuilder" where
  "BlockBuilder_new opt =
     \<lparr>bb_opt = opt, bb_buffer = [], bb_restarts = [0], bb_last_key = [],
      bb_restart_counter = 0, bb_counter = 0\<rparr>"

definition BlockBuilder_entries :: "BlockBuilder \<Rightarrow> usize" where
  "BlockBuilder_entries self = bb_counter self"

definition BlockBuilder_last_key :: "BlockBuilder \<Rightarrow> bytes" where
  "BlockBuilder_last_key self = bb_last_key self"

definition BlockBuilder_size_estimate :: "BlockBuilder \<Rightarrow> usize" where
  "BlockBuilder_size_estimate self = length (bb_buffer self) + 4 * length (bb_restarts self) + 4"

function shared_prefix :: "bytes \<Rightarrow> bytes \<Rightarrow> nat \<Rightarrow> nat \<Rightarrow> nat" where
  "shared_prefix last_key key smallest shared =
     (if shared < smallest \<and> last_key ! shared = key ! shared
      then shared_prefix last_key key smallest (shared + 1) else shared)"
  by pat_completeness auto
termination
  by (relation "measure (\<lambda>(l, k, n, s). n - s)") auto

declare shared_prefix.simps [simp del]

text \<open>\<open>add\<close> panics on a key that is not above the last one, and on a restart counter beyond
  the interval.\<close>

definition BlockBuilder_add :: "deps \<Rightarrow> BlockBuilder \<Rightarrow> bytes \<Rightarrow> bytes \<Rightarrow> BlockBuilder run" where
  "BlockBuilder_add D self key val =
     do {
       rassert (bb_restart_counter self \<le> block_restart_interval (bb_opt self));
       rassert (bb_buffer self = [] \<or> cmp (opt_cmp (bb_opt self)) (bb_last_key self) key = Less);
       let (shared, self) =
         (if bb_restart_counter self < block_restart_interval (bb_opt self) then
            let smallest = (if length (bb_last_key self) < length key
                            then length (bb_last_key self) else length key)
            in (shared_prefix (bb_last_key self) key smallest 0, self)
          else
            (0, self\<lparr>bb_restarts := bb_restarts self @ [usize_as_u32 (length (bb_buffer self))],
                     bb_last_key := vec_resize (bb_last_key self) 0 0,
                     bb_restart_counter := 0\<rparr>));
       non_shared \<leftarrow> usize_sub (length key) shared;
       rest \<leftarrow> slice_from key shared;
       let buffer = bb_buffer self @ encode_var D shared @ encode_var D non_shared @
                    encode_var D (length val) @ rest @ val;
       Some (self\<lparr>bb_buffer := buffer,
                  bb_last_key := vec_resize (bb_last_key self) shared 0 @ rest,
                  bb_restart_counter := bb_restart_counter self + 1,
                  bb_counter := bb_counter self + 1\<rparr>)
     }"

definition BlockBuilder_finish :: "deps \<Rightarrow> BlockBuilder \<Rightarrow> bytes" where
  "BlockBuilder_finish D self =
     bb_buffer self @ concat (map (encode_fixed32 D) (bb_restarts self)) @
     encode_fixed32 D (usize_as_u32 (length (bb_restarts self)))"

text \<open>A client's loop over its data.\<close>

fun BlockBuilder_add_all :: "deps \<Rightarrow> BlockBuilder \<Rightarrow> (bytes \<times> bytes) list \<Rightarrow> BlockBuilder run" where
  "BlockBuilder_add_all D self [] = Some self"
| "BlockBuilder_add_all D self ((k, v) # kvs) =
     do { self' \<leftarrow> BlockBuilder_add D self k v; BlockBuilder_add_all D self' kvs }"

section \<open>Shared prefixes\<close>

lemma shared_prefix_bounds:
  "s \<le> n \<Longrightarrow> s \<le> shared_prefix l k n s \<and> shared_prefix l k n s \<le> n"
proof (induction l k n s rule: shared_prefix.induct)
  case (1 l k n s)
  then show ?case by (auto simp: shared_prefix.simps [of l k n s])
qed

lemma shared_prefix_take:
  "n \<le> length l \<Longrightarrow> n \<le> length k \<Longrightarrow> s \<le> n \<Longrightarrow> take s l = take s k \<Longrightarrow>
   take (shared_prefix l k n s) k = take (shared_prefix l k n s) l"
proof (induction l k n s rule: shared_prefix.induct)
  case (1 l k n s)
  then show ?case
    by (auto simp: shared_prefix.simps [of l k n s] take_Suc_conv_app_nth)
qed

text \<open>The prefix is maximal: it ends at the shorter key's end or at a difference.\<close>

lemma shared_prefix_maximal:
  "s \<le> n \<Longrightarrow> shared_prefix l k n s = n \<or>
   l ! shared_prefix l k n s \<noteq> k ! shared_prefix l k n s"
proof (induction l k n s rule: shared_prefix.induct)
  case (1 l k n s)
  then show ?case by (auto simp: shared_prefix.simps [of l k n s])
qed

section \<open>The invariant\<close>

definition bb_inv :: "deps \<Rightarrow> BlockBuilder \<Rightarrow> entry list \<Rightarrow> nat list \<Rightarrow> bool" where
  "bb_inv D b es rs \<longleftrightarrow>
     bb_buffer b = encoded D es \<and>
     bb_restarts b = map (\<lambda>r. usize_as_u32 (ent_off D es r)) rs \<and>
     bb_last_key b = (if es = [] then [] else ent_key (last es)) \<and>
     bb_restart_counter b \<le> block_restart_interval (bb_opt b) \<and>
     bb_counter b = length es \<and>
     (es = [] \<longrightarrow> rs = [0] \<and> bb_restart_counter b = 0) \<and>
     chained [] es \<and> restarts_ok es rs"

lemma bb_inv_new: "bb_inv D (BlockBuilder_new opt) [] [0]"
  by (simp add: bb_inv_def BlockBuilder_new_def layout_simps restarts_ok_def usize_as_u32_def)

lemma restart_offsets_append:
  "restarts_ok es rs \<Longrightarrow>
   map (\<lambda>r. usize_as_u32 (ent_off D (es @ fs) r)) rs = map (\<lambda>r. usize_as_u32 (ent_off D es r)) rs"
  unfolding restarts_ok_def by (auto simp: ent_off_append split: if_splits)

definition key_after :: "Cmp \<Rightarrow> entry list \<Rightarrow> bytes \<Rightarrow> bool" where
  "key_after C es key \<longleftrightarrow> es = [] \<or> cmp C (ent_key (last es)) key = Less"

text \<open>Both ways \<open>add\<close> can go keep the invariant: within the interval the entry shares a
  prefix with the last key, at the interval a new restart point is opened.\<close>

lemma BlockBuilder_add_within:
  assumes inv: "bb_inv D b es rs" and after: "key_after (opt_cmp (bb_opt b)) es key"
    and counter: "bb_restart_counter b < block_restart_interval (bb_opt b)"
  shows "\<exists>b' s. BlockBuilder_add D b key val = Some b' \<and> bb_opt b' = bb_opt b \<and>
    bb_inv D b' (es @ [(s, key, val)]) rs"
proof -
  let ?l = "bb_last_key b"
  let ?n = "if length ?l < length key then length ?l else length key"
  define s where "s = shared_prefix ?l key ?n 0"
  have s: "s \<le> length ?l" "s \<le> length key"
    using shared_prefix_bounds [of 0 ?n ?l key] by (auto simp: s_def split: if_splits)
  have tk: "take s key = take s ?l"
    unfolding s_def by (rule shared_prefix_take) auto
  have "bb_buffer b = [] \<or> cmp (opt_cmp (bb_opt b)) ?l key = Less"
    using inv after by (auto simp: bb_inv_def key_after_def layout_simps)
  then obtain b' where b': "BlockBuilder_add D b key val = Some b'"
    "b' = b\<lparr>bb_buffer := bb_buffer b @ entry_bytes D (s, key, val),
            bb_last_key := take s ?l @ drop s key,
            bb_restart_counter := bb_restart_counter b + 1, bb_counter := bb_counter b + 1\<rparr>"
    using counter s
    by (simp add: BlockBuilder_add_def run_simps vec_resize_shrink entry_bytes_def entry_head_def
        flip: s_def)
  have "restarts_ok (es @ [(s, key, val)]) rs"
    using inv s by (intro restarts_ok_snoc) (auto simp: bb_inv_def)
  then have "bb_inv D b' (es @ [(s, key, val)]) rs"
    using inv counter s tk b'(2) append_take_drop_id [of s key]
    by (simp add: bb_inv_def layout_simps restart_offsets_append chained_append)
  with b' show ?thesis by auto
qed

lemma BlockBuilder_add_restart:
  assumes inv: "bb_inv D b es rs" and after: "key_after (opt_cmp (bb_opt b)) es key"
    and counter: "bb_restart_counter b = block_restart_interval (bb_opt b)"
    and interval: "0 < block_restart_interval (bb_opt b)"
  shows "\<exists>b'. BlockBuilder_add D b key val = Some b' \<and> bb_opt b' = bb_opt b \<and>
    bb_inv D b' (es @ [(0, key, val)]) (rs @ [length es])"
proof -
  have es: "es \<noteq> []" using inv counter interval by (auto simp: bb_inv_def)
  have "bb_buffer b = [] \<or> cmp (opt_cmp (bb_opt b)) (bb_last_key b) key = Less"
    using inv after es by (auto simp: bb_inv_def key_after_def)
  then obtain b' where b': "BlockBuilder_add D b key val = Some b'"
    "b' = b\<lparr>bb_buffer := bb_buffer b @ entry_bytes D (0, key, val),
            bb_restarts := bb_restarts b @ [usize_as_u32 (length (bb_buffer b))],
            bb_last_key := key, bb_restart_counter := 1, bb_counter := bb_counter b + 1\<rparr>"
    using counter
    by (simp add: BlockBuilder_add_def run_simps vec_resize_shrink entry_bytes_def entry_head_def)
  have "restarts_ok (es @ [(0, key, val)]) (rs @ [length es])"
    using inv es by (intro restarts_ok_push) (auto simp: bb_inv_def)
  then have "bb_inv D b' (es @ [(0, key, val)]) (rs @ [length es])"
    using inv interval es b'(2)
    by (simp add: bb_inv_def layout_simps restart_offsets_append chained_append
        ent_off_append ent_off_end)
  with b' show ?thesis by auto
qed

lemma BlockBuilder_add_inv:
  assumes "bb_inv D b es rs" "key_after (opt_cmp (bb_opt b)) es key"
    and "0 < block_restart_interval (bb_opt b)"
  shows "\<exists>b' s rs'. BlockBuilder_add D b key val = Some b' \<and> bb_opt b' = bb_opt b \<and>
    bb_inv D b' (es @ [(s, key, val)]) rs'"
proof (cases "bb_restart_counter b < block_restart_interval (bb_opt b)")
  case True
  from BlockBuilder_add_within [OF assms(1,2) True, of val] show ?thesis by blast
next
  case False
  then have "bb_restart_counter b = block_restart_interval (bb_opt b)"
    using assms(1) by (simp add: bb_inv_def)
  from BlockBuilder_add_restart [OF assms(1,2) this assms(3), of val] show ?thesis by blast
qed

section \<open>Building a whole block\<close>

lemma BlockBuilder_add_all_inv:
  assumes "bb_inv D b es rs" "0 < block_restart_interval (bb_opt b)"
    and "ascending (opt_cmp (bb_opt b)) (map ent_key es @ map fst kvs)"
  shows "\<exists>b' es' rs'. BlockBuilder_add_all D b kvs = Some b' \<and> bb_opt b' = bb_opt b \<and>
    bb_inv D b' es' rs' \<and> map snd es' = map snd es @ kvs"
  using assms
proof (induction kvs arbitrary: b es rs)
  case Nil
  then show ?case by auto
next
  case (Cons kv kvs)
  obtain k v where kv: "kv = (k, v)" by (cases kv)
  have "key_after (opt_cmp (bb_opt b)) es k"
    using Cons.prems(3) kv last_in_set [of es]
    by (cases "es = []") (auto simp: key_after_def ascending_def sorted_wrt_append)
  from BlockBuilder_add_inv [OF Cons.prems(1) this Cons.prems(2), of v]
  obtain b1 s rs1 where b1: "BlockBuilder_add D b k v = Some b1" "bb_opt b1 = bb_opt b"
    "bb_inv D b1 (es @ [(s, k, v)]) rs1" by blast
  from Cons.IH [OF b1(3)] b1(2) Cons.prems kv
  obtain b' es' rs' where "BlockBuilder_add_all D b1 kvs = Some b'" "bb_opt b' = bb_opt b1"
    "bb_inv D b' es' rs'" "map snd es' = map snd (es @ [(s, k, v)]) @ kvs"
    by (auto simp: ascending_def)
  with b1 kv show ?case by auto
qed

lemma BlockBuilder_finish_bytes:
  "bb_inv D b es rs \<Longrightarrow> BlockBuilder_finish D b = block_bytes D es rs"
  by (simp add: bb_inv_def BlockBuilder_finish_def block_bytes_def comp_def)

lemma BlockBuilder_finish_layout:
  "bb_inv D b es rs \<Longrightarrow> length (BlockBuilder_finish D b) < 2 ^ 32 \<Longrightarrow>
   block_layout D es rs (BlockBuilder_finish D b)"
  by (simp add: BlockBuilder_finish_bytes block_layout_def bb_inv_def)

lemma BlockBuilder_add_None_iff:
  "BlockBuilder_add D b key val = None \<longleftrightarrow>
   block_restart_interval (bb_opt b) < bb_restart_counter b \<or>
   bb_buffer b \<noteq> [] \<and> cmp (opt_cmp (bb_opt b)) (bb_last_key b) key \<noteq> Less"
proof -
  let ?l = "bb_last_key b"
  let ?n = "if length ?l < length key then length ?l else length key"
  have "shared_prefix ?l key ?n 0 \<le> length key"
    using shared_prefix_bounds [of 0 ?n ?l key] by (auto split: if_splits)
  then show ?thesis
    by (auto simp: BlockBuilder_add_def rassert_def run_simps Let_def)
qed

text \<open>The outcome of \<open>add\<close> when it does not panic, whatever the key.\<close>

lemma BlockBuilder_add_SomeD:
  assumes "BlockBuilder_add D b key val = Some b'"
  obtains s restarts where "s \<le> length key" "take s key = take s (bb_last_key b)"
    "b' = b\<lparr>bb_buffer := bb_buffer b @ entry_bytes D (s, key, val), bb_restarts := restarts,
       bb_last_key := key,
       bb_restart_counter := (if bb_restart_counter b < block_restart_interval (bb_opt b)
         then bb_restart_counter b else 0) + 1,
       bb_counter := bb_counter b + 1\<rparr>"
    "restarts = bb_restarts b @ (if bb_restart_counter b < block_restart_interval (bb_opt b) then []
       else [usize_as_u32 (length (bb_buffer b))])"
proof (cases "bb_restart_counter b < block_restart_interval (bb_opt b)")
  case True
  let ?l = "bb_last_key b"
  let ?n = "if length ?l < length key then length ?l else length key"
  define s where "s = shared_prefix ?l key ?n 0"
  have s: "s \<le> length ?l" "s \<le> length key"
    using shared_prefix_bounds [of 0 ?n ?l key] by (auto simp: s_def split: if_splits)
  have tk: "take s key = take s ?l" unfolding s_def by (rule shared_prefix_take) auto
  then have key: "take s ?l @ drop s key = key" using append_take_drop_id [of s key] by simp
  have "b' = b\<lparr>bb_buffer := bb_buffer b @ entry_bytes D (s, key, val), bb_restarts := bb_restarts b,
      bb_last_key := key, bb_restart_counter := bb_restart_counter b + 1, bb_counter := bb_counter b + 1\<rparr>"
    using assms True s key
    by (simp add: BlockBuilder_add_def rassert_def run_simps vec_resize_shrink entry_bytes_def entry_head_def
        split: if_splits flip: s_def)
  then show thesis using that [of s "bb_restarts b"] True s(2) tk by simp
next
  case False
  have "b\<lparr>bb_restarts := bb_restarts b @ [usize_as_u32 (length (bb_buffer b))],
      bb_buffer := bb_buffer b @ entry_bytes D (0, key, val), bb_last_key := key,
      bb_restart_counter := Suc 0, bb_counter := Suc (bb_counter b)\<rparr> = b'"
    using assms False
    by (simp add: BlockBuilder_add_def rassert_def run_simps vec_resize_shrink entry_bytes_def entry_head_def
        split: if_splits)
  then have "b' = b\<lparr>bb_buffer := bb_buffer b @ entry_bytes D (0, key, val),
      bb_restarts := bb_restarts b @ [usize_as_u32 (length (bb_buffer b))],
      bb_last_key := key, bb_restart_counter := 1, bb_counter := bb_counter b + 1\<rparr>"
    by (rule subst) simp
  with False show thesis by (intro that [of 0 "bb_restarts b @ [usize_as_u32 (length (bb_buffer b))]"]) simp_all
qed

text \<open>
  The type of a builder, with no reference to the entries added: the counters agree with the
  number of restart points, and the restart points ascend inside of the buffer as long as it has
  less than 4 GiB.
\<close>

definition BlockBuilder_wf :: "BlockBuilder \<Rightarrow> bool" where
  "BlockBuilder_wf b \<longleftrightarrow>
     0 < block_restart_interval (bb_opt b) \<and>
     bb_restart_counter b \<le> block_restart_interval (bb_opt b) \<and>
     bb_restarts b \<noteq> [] \<and> hd (bb_restarts b) = 0 \<and>
     bb_counter b = (length (bb_restarts b) - 1) * block_restart_interval (bb_opt b) + bb_restart_counter b \<and>
     (bb_buffer b = [] \<longleftrightarrow> bb_counter b = 0) \<and>
     (length (bb_buffer b) < 2 ^ 32 \<longrightarrow>
        sorted_wrt (<) (bb_restarts b) \<and>
        (\<forall>r \<in> set (tl (bb_restarts b)). unat r < length (bb_buffer b)))"

lemma BlockBuilder_wf_new: "0 < block_restart_interval opt \<Longrightarrow> BlockBuilder_wf (BlockBuilder_new opt)"
  by (simp add: BlockBuilder_wf_def BlockBuilder_new_def)

context integer_codec
begin

lemma BlockBuilder_size_estimate_exact:
  "length (BlockBuilder_finish D b) = BlockBuilder_size_estimate b"
proof -
  have "length (concat (map (encode_fixed32 D) (bb_restarts b))) = 4 * length (bb_restarts b)"
    by (rule length_concat_const) (simp add: length_encode_fixed32)
  then show ?thesis
    by (simp add: BlockBuilder_finish_def BlockBuilder_size_estimate_def length_encode_fixed32)
qed

lemma BlockBuilder_wf_add:
  assumes wf: "BlockBuilder_wf b" and add: "BlockBuilder_add D b key val = Some b'"
  shows "BlockBuilder_wf b' \<and> bb_opt b' = bb_opt b \<and> BlockBuilder_last_key b' = key \<and>
    BlockBuilder_entries b' = BlockBuilder_entries b + 1"
proof -
  let ?within = "bb_restart_counter b < block_restart_interval (bb_opt b)"
  from add obtain s restarts where b': "b' = b\<lparr>bb_buffer := bb_buffer b @ entry_bytes D (s, key, val),
      bb_restarts := restarts, bb_last_key := key,
      bb_restart_counter := (if ?within then bb_restart_counter b else 0) + 1, bb_counter := bb_counter b + 1\<rparr>"
    "restarts = bb_restarts b @ (if ?within then [] else [usize_as_u32 (length (bb_buffer b))])"
    by (rule BlockBuilder_add_SomeD)
  have new: "entry_bytes D (s, key, val) \<noteq> []"
    using length_encode_var_pos [of s] by (auto simp: entry_bytes_def entry_head_def)
  have counter: "bb_counter b' = (length restarts - 1) * block_restart_interval (bb_opt b) + bb_restart_counter b'"
    using wf b' by (cases "bb_restarts b") (auto simp: BlockBuilder_wf_def)
  have "sorted_wrt (<) restarts \<and> (\<forall>r \<in> set (tl restarts). unat r < length (bb_buffer b'))"
    if len: "length (bb_buffer b') < 2 ^ 32"
  proof -
    have lb: "length (bb_buffer b) < length (bb_buffer b')" "length (bb_buffer b) < 2 ^ 32"
      using new b'(1) len by auto
    then have old: "sorted_wrt (<) (bb_restarts b)" "\<forall>r \<in> set (tl (bb_restarts b)). unat r < length (bb_buffer b)"
      using wf by (simp_all add: BlockBuilder_wf_def)
    have first: "bb_restarts b = 0 # tl (bb_restarts b)"
      using wf by (cases "bb_restarts b") (simp_all add: BlockBuilder_wf_def)
    show ?thesis
    proof (cases ?within)
      case True
      with b'(2) old lb show ?thesis by fastforce
    next
      case False
      have at: "unat (usize_as_u32 (length (bb_buffer b))) = length (bb_buffer b)"
        using lb(2) u32_usize_roundtrip by (simp add: u32_as_usize_def)
      have "bb_buffer b \<noteq> []" using wf False by (auto simp: BlockBuilder_wf_def)
      then have "\<forall>r \<in> set (bb_restarts b). r < usize_as_u32 (length (bb_buffer b))"
        using old at by (subst first) (auto simp: word_less_nat_alt)
      moreover have "restarts = bb_restarts b @ [usize_as_u32 (length (bb_buffer b))]" "bb_restarts b \<noteq> []"
        using False b'(2) wf by (simp_all add: BlockBuilder_wf_def)
      ultimately show ?thesis using old at lb(1) by (auto simp: sorted_wrt_append)
    qed
  qed
  then show ?thesis
    using wf b' new counter
    by (auto simp: BlockBuilder_wf_def BlockBuilder_last_key_def BlockBuilder_entries_def)
qed

lemma BlockBuilder_wf_add_all:
  "BlockBuilder_wf b \<Longrightarrow> BlockBuilder_add_all D b kvs = Some b' \<Longrightarrow>
   BlockBuilder_wf b' \<and> bb_opt b' = bb_opt b \<and>
   BlockBuilder_entries b' = BlockBuilder_entries b + length kvs \<and>
   BlockBuilder_last_key b' = (if kvs = [] then BlockBuilder_last_key b else fst (last kvs))"
proof (induction kvs arbitrary: b)
  case (Cons e kvs)
  obtain k v where e: "e = (k, v)" by (cases e)
  with Cons.prems(2) obtain b1 where b1: "BlockBuilder_add D b k v = Some b1"
    "BlockBuilder_add_all D b1 kvs = Some b'" by (auto simp: bind_eq_Some_conv)
  from BlockBuilder_wf_add [OF Cons.prems(1) b1(1)] Cons.IH [OF _ b1(2)] show ?case by (auto simp: e)
qed simp

end

end
