(* ===== verification/SST_BlockHandle.thy ===== *)
theory SST_BlockHandle
  imports SST_Deps
begin

text \<open>
  \<open>src/blockhandle.rs\<close>: the pair of an offset and a size that points into a table file,
  encoded as two varints.
\<close>

record BlockHandle =
  bh_offset :: usize
  bh_size :: usize

definition BlockHandle_new :: "usize \<Rightarrow> usize \<Rightarrow> BlockHandle" where
  "BlockHandle_new off sz = \<lparr>bh_offset = off, bh_size = sz\<rparr>"

text \<open>The two \<open>unwrap\<close>s panic on a malformed varint.\<close>

definition BlockHandle_decode :: "deps \<Rightarrow> bytes \<Rightarrow> (BlockHandle \<times> usize) run" where
  "BlockHandle_decode D from =
     do {
       (off, offsize) \<leftarrow> decode_var D from;
       rest \<leftarrow> slice_from from offsize;
       (sz, szsize) \<leftarrow> decode_var D rest;
       n \<leftarrow> usize_add offsize szsize;
       Some (\<lparr>bh_offset = off, bh_size = sz\<rparr>, n)
     }"

text \<open>\<open>encode_to\<close> returns the bytes written and the destination it wrote to.\<close>

definition BlockHandle_encode_to :: "deps \<Rightarrow> BlockHandle \<Rightarrow> bytes \<Rightarrow> (usize \<times> bytes) run" where
  "BlockHandle_encode_to D self dst =
     do {
       rassert (required_space D (bh_offset self) + required_space D (bh_size self) \<le> length dst);
       let e1 = encode_var D (bh_offset self);
       let off = length e1;
       let dst1 = copy_into dst 0 e1;
       let e2 = encode_var D (bh_size self);
       Some (off + length e2, copy_into dst1 off e2)
     }"

text \<open>The bytes of a handle, without a destination.\<close>

definition handle_bytes :: "deps \<Rightarrow> BlockHandle \<Rightarrow> bytes" where
  "handle_bytes D h = encode_var D (bh_offset h) @ encode_var D (bh_size h)"

definition handle_ok :: "BlockHandle \<Rightarrow> bool" where
  "handle_ok h \<longleftrightarrow> bh_offset h < 2 ^ 64 \<and> bh_size h < 2 ^ 64"

lemma BlockHandle_new_simps [simp]:
  "bh_offset (BlockHandle_new off sz) = off" "bh_size (BlockHandle_new off sz) = sz"
  by (simp_all add: BlockHandle_new_def)

context integer_codec
begin

lemma length_handle_bytes:
  "length (handle_bytes D h) = required_space D (bh_offset h) + required_space D (bh_size h)"
  by (simp add: handle_bytes_def length_encode_var)

lemma decode_handle_bytes:
  "handle_ok h \<Longrightarrow>
   BlockHandle_decode D (handle_bytes D h @ rest) = Some (h, length (handle_bytes D h))"
  using length_encode_var_max [of "bh_offset h"] length_encode_var_max [of "bh_size h"]
  by (simp add: BlockHandle_decode_def handle_bytes_def handle_ok_def decode_encode_var
      slice_from_def usize_add_def)

lemma encode_to_eq:
  "BlockHandle_encode_to D h dst =
     (if length (handle_bytes D h) \<le> length dst
      then Some (length (handle_bytes D h),
             handle_bytes D h @ drop (length (handle_bytes D h)) dst)
      else None)"
  by (simp add: BlockHandle_encode_to_def rassert_def length_handle_bytes copy_into_def
      length_encode_var Let_def ac_simps)
    (simp add: handle_bytes_def length_encode_var ac_simps)

text \<open>Two varints below \<open>2 ^ 56\<close> fit the sixteen bytes the table builder reserves.\<close>

lemma handle_bytes_fit:
  "bh_offset h < 2 ^ 56 \<Longrightarrow> bh_size h < 2 ^ 56 \<Longrightarrow> length (handle_bytes D h) \<le> 16"
  using required_space_le [of 8 "bh_offset h"] required_space_le [of 8 "bh_size h"]
  by (simp add: length_handle_bytes)

end

section \<open>Properties\<close>

text \<open>Encoding a handle into a buffer succeeds exactly when the buffer is large enough; it
  keeps the buffer's length, and decoding the buffer, whatever follows the handle in it, gives
  back the handle and the number of bytes written.\<close>

lemma block_handle_round_trip:
  assumes "integer_codec D" "handle_ok h"
  shows "(case BlockHandle_encode_to D h dst of
      None \<Rightarrow> length dst < required_space D (bh_offset h) + required_space D (bh_size h)
    | Some (n, dst') \<Rightarrow> length dst' = length dst \<and> BlockHandle_decode D dst' = Some (h, n))"
  using integer_codec.encode_to_eq [OF assms(1), of h dst]
    integer_codec.decode_handle_bytes [OF assms, of "drop (length (handle_bytes D h)) dst"]
    integer_codec.length_handle_bytes [OF assms(1), of h]
  by (simp split: if_splits)

lemma ref_required_space: "required_space reference_deps n = length (leb_encode n)"
  by (simp add: reference_deps_def)

lemma leb_small: "n < 2 ^ 14 \<Longrightarrow> length (leb_encode n) \<le> 2"
  using leb_encode_length [of 2 n] by simp

end
