(* ===== verification/SST_FilterBlock.thy ===== *)
theory SST_FilterBlock
  imports SST_Filter
begin

text \<open>
  \<open>src/filter_block.rs\<close>: the builder and the reader of a filter block, which holds one
  filter for every 2 KiB of data. \<open>fbb_inv\<close> says which keys, recorded with the offset of
  their data block, the filters and the pending keys account for; the reader then accepts
  every recorded key at its block's offset.
\<close>

section \<open>The builder\<close>

definition FILTER_BASE_LOG2 :: nat where
  "FILTER_BASE_LOG2 = 11"

text \<open>A shift by 64 or more panics.\<close>

definition get_filter_index :: "usize \<Rightarrow> nat \<Rightarrow> u32 run" where
  "get_filter_index offset base_lg2 =
     do { rassert (base_lg2 < 64); Some (usize_as_u32 (offset div 2 ^ base_lg2)) }"

record FilterBlockBuilder =
  fbb_policy :: FilterPolicy
  fbb_filters :: bytes
  fbb_filter_offsets :: "usize list"
  fbb_key_offsets :: "usize list"
  fbb_keys :: bytes

definition FilterBlockBuilder_new :: "FilterPolicy \<Rightarrow> FilterBlockBuilder" where
  "FilterBlockBuilder_new fp =
     \<lparr>fbb_policy = fp, fbb_filters = [], fbb_filter_offsets = [], fbb_key_offsets = [],
      fbb_keys = []\<rparr>"

definition FilterBlockBuilder_size_estimate :: "FilterBlockBuilder \<Rightarrow> usize" where
  "FilterBlockBuilder_size_estimate self =
     length (fbb_filters self) + 4 * length (fbb_filter_offsets self) + 4 + 1"

definition FilterBlockBuilder_filter_name :: "FilterBlockBuilder \<Rightarrow> string" where
  "FilterBlockBuilder_filter_name self = policy_name (fbb_policy self)"

definition FilterBlockBuilder_add_key :: "FilterBlockBuilder \<Rightarrow> bytes \<Rightarrow> FilterBlockBuilder" where
  "FilterBlockBuilder_add_key self key =
     self\<lparr>fbb_key_offsets := fbb_key_offsets self @ [length (fbb_keys self)],
          fbb_keys := fbb_keys self @ key\<rparr>"

definition FilterBlockBuilder_generate_filter :: "FilterBlockBuilder \<Rightarrow> FilterBlockBuilder run" where
  "FilterBlockBuilder_generate_filter self =
     (let self = self\<lparr>fbb_filter_offsets := fbb_filter_offsets self @ [length (fbb_filters self)]\<rparr> in
      if fbb_keys self = [] then Some self
      else do {
        flt \<leftarrow> create_filter (fbb_policy self) (fbb_keys self) (fbb_key_offsets self);
        Some (self\<lparr>fbb_filters := fbb_filters self @ flt, fbb_keys := [], fbb_key_offsets := []\<rparr>)
      })"

partial_function (option) start_block_loop ::
  "u32 \<Rightarrow> FilterBlockBuilder \<Rightarrow> FilterBlockBuilder run" where
  "start_block_loop filter_ix self =
     (if usize_as_u32 (length (fbb_filter_offsets self)) < filter_ix then
        do { self \<leftarrow> FilterBlockBuilder_generate_filter self; start_block_loop filter_ix self }
      else Some self)"

declare start_block_loop.simps [code]

definition FilterBlockBuilder_start_block ::
  "FilterBlockBuilder \<Rightarrow> usize \<Rightarrow> FilterBlockBuilder run" where
  "FilterBlockBuilder_start_block self offset =
     do {
       filter_ix \<leftarrow> get_filter_index offset FILTER_BASE_LOG2;
       rassert (usize_as_u32 (length (fbb_filter_offsets self)) \<le> filter_ix);
       start_block_loop filter_ix self
     }"

text \<open>The loop that writes the offsets into the resized result, from \<open>ix\<close> on.\<close>

fun write_offsets :: "deps \<Rightarrow> usize list \<Rightarrow> bytes \<Rightarrow> usize \<Rightarrow> bytes \<times> usize" where
  "write_offsets D [] result ix = (result, ix)"
| "write_offsets D (off # offs) result ix =
     write_offsets D offs (copy_into result ix (encode_fixed32 D (usize_as_u32 off))) (ix + 4)"

definition FilterBlockBuilder_finish :: "deps \<Rightarrow> FilterBlockBuilder \<Rightarrow> bytes run" where
  "FilterBlockBuilder_finish D self =
     do {
       self \<leftarrow> (if fbb_keys self \<noteq> [] then FilterBlockBuilder_generate_filter self else Some self);
       let result = fbb_filters self;
       let offsets_offset = length result;
       let ix = length result;
       let result = vec_resize result (ix + 4 * length (fbb_filter_offsets self) + 5) 0;
       let (result, ix) = write_offsets D (fbb_filter_offsets self) result ix;
       let result = copy_into result ix (encode_fixed32 D (usize_as_u32 offsets_offset));
       let ix = ix + 4;
       Some (result[ix := of_nat FILTER_BASE_LOG2])
     }"

section \<open>The reader\<close>

record FilterBlockReader =
  fbr_policy :: FilterPolicy
  fbr_block :: bytes
  fbr_offsets_offset :: usize
  fbr_filter_base_lg2 :: nat

definition FilterBlockReader_new :: "deps \<Rightarrow> FilterPolicy \<Rightarrow> bytes \<Rightarrow> FilterBlockReader run" where
  "FilterBlockReader_new D pol data =
     do {
       rassert (5 \<le> length data);
       fbase \<leftarrow> vec_index data (length data - 1);
       word \<leftarrow> vec_slice data (length data - 5) (length data - 1);
       Some \<lparr>fbr_policy = pol, fbr_block = data,
             fbr_offsets_offset = u32_as_usize (decode_fixed32 D word),
             fbr_filter_base_lg2 = unat fbase\<rparr>
     }"

definition FilterBlockReader_num :: "FilterBlockReader \<Rightarrow> u32 run" where
  "FilterBlockReader_num self =
     do {
       n \<leftarrow> usize_sub (length (fbr_block self)) (fbr_offsets_offset self);
       n \<leftarrow> usize_sub n 5;
       Some (usize_as_u32 (n div 4))
     }"

definition FilterBlockReader_offset_of :: "deps \<Rightarrow> FilterBlockReader \<Rightarrow> u32 \<Rightarrow> usize run" where
  "FilterBlockReader_offset_of D self i =
     do {
       let offset_offset = fbr_offsets_offset self + 4 * u32_as_usize i;
       word \<leftarrow> vec_slice (fbr_block self) offset_offset (offset_offset + 4);
       Some (u32_as_usize (decode_fixed32 D word))
     }"

definition FilterBlockReader_key_may_match ::
  "deps \<Rightarrow> FilterBlockReader \<Rightarrow> usize \<Rightarrow> bytes \<Rightarrow> bool run" where
  "FilterBlockReader_key_may_match D self blk_offset key =
     do {
       ix \<leftarrow> get_filter_index blk_offset (fbr_filter_base_lg2 self);
       n \<leftarrow> FilterBlockReader_num self;
       if n < ix then Some True
       else do {
         filter_begin \<leftarrow> FilterBlockReader_offset_of D self ix;
         rassert (unat ix + 1 < 2 ^ 32);
         filter_end \<leftarrow> FilterBlockReader_offset_of D self (ix + 1);
         rassert (filter_begin < filter_end);
         rassert (filter_end \<le> fbr_offsets_offset self);
         flt \<leftarrow> vec_slice (fbr_block self) filter_begin filter_end;
         key_may_match (fbr_policy self) key flt
       }
     }"

section \<open>The layout of a filter block\<close>

definition filter_block_bytes :: "deps \<Rightarrow> bytes list \<Rightarrow> bytes" where
  "filter_block_bytes D fs =
     concat fs @ concat (map (\<lambda>off. encode_fixed32 D (usize_as_u32 off)) (offsets_from 0 fs)) @
     encode_fixed32 D (usize_as_u32 (length (concat fs))) @ [of_nat FILTER_BASE_LOG2]"

text \<open>What the reader makes of a filter block.\<close>

definition reader_of :: "deps \<Rightarrow> FilterPolicy \<Rightarrow> bytes list \<Rightarrow> FilterBlockReader" where
  "reader_of D P fs =
     \<lparr>fbr_policy = P, fbr_block = filter_block_bytes D fs,
      fbr_offsets_offset = length (concat fs), fbr_filter_base_lg2 = FILTER_BASE_LOG2\<rparr>"

lemma offsets_from_append:
  "offsets_from n (xs @ ys) = offsets_from n xs @ offsets_from (n + length (concat xs)) ys"
  by (induction xs arbitrary: n) (simp_all add: add.assoc)

lemma offsets_from_nth:
  "i < length xs \<Longrightarrow> offsets_from n xs ! i = n + length (concat (take i xs))"
proof (induction xs arbitrary: n i)
  case (Cons x xs)
  then show ?case by (cases i) simp_all
qed simp

text \<open>The offset list with the offset of the offset array as its last element.\<close>

lemma offsets_with_end:
  "offsets_from 0 fs @ [length (concat fs)] = offsets_from 0 (fs @ [[]])"
  by (simp add: offsets_from_append)

context integer_codec
begin

lemma write_offsets_eq:
  "length rest = 4 * length offs + m \<Longrightarrow>
   write_offsets D offs (pre @ rest) (length pre) =
     (pre @ concat (map (\<lambda>off. encode_fixed32 D (usize_as_u32 off)) offs) @
        drop (4 * length offs) rest,
      length pre + 4 * length offs)"
proof (induction offs arbitrary: rest pre)
  case (Cons off offs)
  let ?e = "encode_fixed32 D (usize_as_u32 off)"
  have "copy_into (pre @ rest) (length pre) ?e = (pre @ ?e) @ drop 4 rest"
    by (simp add: copy_into_def length_encode_fixed32)
  moreover have "write_offsets D offs ((pre @ ?e) @ drop 4 rest) (length (pre @ ?e)) =
      ((pre @ ?e) @ concat (map (\<lambda>off. encode_fixed32 D (usize_as_u32 off)) offs) @
         drop (4 * length offs) (drop 4 rest), length (pre @ ?e) + 4 * length offs)"
    using Cons.prems by (intro Cons.IH) simp
  ultimately show ?case
    by (simp add: length_encode_fixed32 add.commute)
qed simp

lemma finish_bytes:
  assumes "fbb_filters b = concat fs" "fbb_filter_offsets b = offsets_from 0 fs" "fbb_keys b = []"
  shows "FilterBlockBuilder_finish D b = Some (filter_block_bytes D fs)"
proof -
  let ?n = "length fs" and ?d = "concat fs"
  have resize: "vec_resize ?d (length ?d + 4 * ?n + 5) 0 = ?d @ replicate (4 * ?n + 5) 0"
    by (simp add: vec_resize_def)
  have written: "write_offsets D (offsets_from 0 fs) (?d @ replicate (4 * ?n + 5) 0) (length ?d) =
      (?d @ concat (map (\<lambda>off. encode_fixed32 D (usize_as_u32 off)) (offsets_from 0 fs)) @
         replicate 5 0, length ?d + 4 * ?n)"
    using write_offsets_eq [of "replicate (4 * ?n + 5) 0" "offsets_from 0 fs" 5 ?d] by simp
  have len: "length (concat (map (\<lambda>off. encode_fixed32 D (usize_as_u32 off)) (offsets_from 0 fs))) =
      4 * ?n"
    using length_concat_const [of "offsets_from 0 fs" "\<lambda>off. encode_fixed32 D (usize_as_u32 off)" 4]
    by (simp add: length_encode_fixed32)
  have five: "replicate 5 (0 :: u8) = replicate 4 0 @ [0]" by (simp add: eval_nat_numeral)
  show ?thesis
    unfolding FilterBlockBuilder_finish_def
    using assms len
    by (simp add: resize written five copy_into_def length_encode_fixed32 list_update_append
        filter_block_bytes_def Let_def)
qed

lemma filter_block_bytes_length:
  "length (filter_block_bytes D fs) = length (concat fs) + 4 * length fs + 5"
  using length_concat_const [of "offsets_from 0 fs" "\<lambda>off. encode_fixed32 D (usize_as_u32 off)" 4]
  by (simp add: length_encode_fixed32 filter_block_bytes_def)

lemma reader_new:
  assumes "length (filter_block_bytes D fs) < 2 ^ 32"
  shows "FilterBlockReader_new D P (filter_block_bytes D fs) = Some (reader_of D P fs)"
proof -
  let ?e = "encode_fixed32 D (usize_as_u32 (length (concat fs)))"
  define pre where "pre = concat fs @
    concat (map (\<lambda>off. encode_fixed32 D (usize_as_u32 off)) (offsets_from 0 fs))"
  have pre: "filter_block_bytes D fs = pre @ ?e @ [of_nat FILTER_BASE_LOG2]"
    by (simp add: filter_block_bytes_def pre_def)
  have len: "length (filter_block_bytes D fs) = length pre + 5"
    by (simp add: pre length_encode_fixed32)
  have "vec_slice (pre @ ?e @ [of_nat FILTER_BASE_LOG2]) (length pre) (length pre + 4) = Some ?e"
    by (rule slice_middle) (simp_all add: length_encode_fixed32)
  moreover have "length (concat fs) < 2 ^ 32" using assms filter_block_bytes_length [of fs] by simp
  ultimately show ?thesis
    using len
    by (simp add: FilterBlockReader_new_def reader_of_def pre run_simps nth_append
        length_encode_fixed32 decode_encode_fixed32 FILTER_BASE_LOG2_def)
qed

lemma reader_num:
  assumes "length (filter_block_bytes D fs) < 2 ^ 32"
  shows "FilterBlockReader_num (reader_of D P fs) = Some (usize_as_u32 (length fs))"
  using assms filter_block_bytes_length [of fs]
  by (simp add: FilterBlockReader_num_def reader_of_def run_simps)

lemma reader_offset_of:
  assumes "length (filter_block_bytes D fs) < 2 ^ 32" "i \<le> length fs"
  shows "FilterBlockReader_offset_of D (reader_of D P fs) (usize_as_u32 i) =
    Some (length (concat (take i fs)))"
proof -
  let ?f = "\<lambda>off. encode_fixed32 D (usize_as_u32 off)"
  have len: "length (filter_block_bytes D fs) = length (concat fs) + 4 * length fs + 5"
    by (rule filter_block_bytes_length)
  have i: "i < 2 ^ 32" using assms len by simp
  let ?offs = "offsets_from 0 fs @ [length (concat fs)]"
  have bytes: "filter_block_bytes D fs =
      concat fs @ concat (map ?f ?offs) @ [of_nat FILTER_BASE_LOG2]"
    by (simp add: filter_block_bytes_def)
  have nth: "?offs ! i = length (concat (take i fs))"
    using assms(2) by (cases "i = length fs") (simp_all add: nth_append offsets_from_nth)
  have "take 4 (drop (4 * i) (concat (map ?f ?offs))) = ?f (?offs ! i)"
    using assms(2) by (intro concat_const_nth) (simp_all add: length_encode_fixed32)
  moreover have "length (concat (map ?f ?offs)) = 4 * length ?offs"
    by (rule length_concat_const) (simp add: length_encode_fixed32)
  ultimately have "take 4 (drop (length (concat fs) + 4 * i) (filter_block_bytes D fs)) =
      ?f (length (concat (take i fs)))"
    unfolding bytes nth [symmetric] using assms(2) by simp
  moreover have "length (concat (take i fs)) < 2 ^ 32"
    using assms len concat_append [of "take i fs" "drop i fs"]
    by (metis add_lessD1 append_take_drop_id length_append)
  ultimately show ?thesis
    using i len assms(2)
    by (simp add: FilterBlockReader_offset_of_def reader_of_def run_simps vec_slice_def
        decode_encode_fixed32)
qed

lemma reader_lookup:
  assumes len: "length (filter_block_bytes D fs) < 2 ^ 32" and i: "i < length fs"
    and off: "blk_offset div 2048 = i"
  shows "FilterBlockReader_key_may_match D (reader_of D P fs) blk_offset key =
    (if fs ! i = [] then None else key_may_match P key (fs ! i))"
proof -
  let ?r = "reader_of D P fs" and ?b = "length (concat (take i fs))"
    and ?e = "length (concat (take (Suc i) fs))"
  have fslen: "length fs < 2 ^ 32" using len filter_block_bytes_length [of fs] by simp
  have Suc: "?e = ?b + length (fs ! i)" using i by (simp add: take_Suc_conv_app_nth)
  have split: "concat fs = concat (take i fs) @ fs ! i @ concat (drop (Suc i) fs)"
    using concat_map_split [OF i, of id] by (simp add: list.map_id)
  then have e: "?e \<le> length (concat fs)" using Suc by simp
  have sl: "vec_slice (filter_block_bytes D fs) ?b (?b + length (fs ! i)) = Some (fs ! i)"
    using split slice_middle [of ?b "concat (take i fs)"]
    by (simp add: filter_block_bytes_def)
  have fields: "fbr_policy ?r = P" "fbr_block ?r = filter_block_bytes D fs"
    "fbr_offsets_offset ?r = length (concat fs)"
    by (simp_all add: reader_of_def)
  have "get_filter_index blk_offset (fbr_filter_base_lg2 ?r) = Some (usize_as_u32 i)"
    using off by (simp add: get_filter_index_def reader_of_def FILTER_BASE_LOG2_def)
  moreover have "\<not> usize_as_u32 (length fs) < usize_as_u32 i"
    using i fslen by (simp add: word_less_nat_alt unat_usize_as_u32)
  moreover have "unat (usize_as_u32 i) + 1 < 2 ^ 32" "usize_as_u32 i + 1 = usize_as_u32 (Suc i)"
    using i fslen by (simp_all add: unat_usize_as_u32) (simp add: usize_as_u32_def add.commute)
  moreover have "?b < ?e \<longleftrightarrow> fs ! i \<noteq> []" using Suc by simp
  ultimately show ?thesis
    using reader_offset_of [OF len, of i] reader_offset_of [OF len, of "Suc i"] i e sl Suc
    by (simp add: FilterBlockReader_key_may_match_def reader_num [OF len] fields)
qed

end

section \<open>The keys a builder accounts for\<close>

text \<open>
  \<open>recs\<close> lists the keys added so far, each with the offset of its data block; the keys of one
  filter are those whose blocks start in its 2 KiB. \<open>groups\<close> are the keys of the filters generated
  so far and \<open>pend\<close> the keys of the next one; \<open>cur\<close> is the offset of the current data block.
\<close>

definition filter_group :: "(usize \<times> bytes) list \<Rightarrow> nat \<Rightarrow> bytes list" where
  "filter_group recs i = map snd (filter (\<lambda>r. fst r div 2048 = i) recs)"

definition filter_of :: "FilterPolicy \<Rightarrow> bytes list \<Rightarrow> bytes" where
  "filter_of P ks = (if ks = [] then [] else the (create_filter P (concat ks) (offsets_from 0 ks)))"

text \<open>All filters of a table whose data blocks end at \<open>n\<close>.\<close>

definition filters_of :: "FilterPolicy \<Rightarrow> (usize \<times> bytes) list \<Rightarrow> usize \<Rightarrow> bytes list" where
  "filters_of P recs n =
     map (\<lambda>i. filter_of P (filter_group recs i))
       [0..<n div 2048 + (if filter_group recs (n div 2048) = [] then 0 else 1)]"

lemma filter_group_simps [simp]:
  "filter_group [] i = []"
  "filter_group (recs @ recs') i = filter_group recs i @ filter_group recs' i"
  "filter_group [(off, k)] i = (if off div 2048 = i then [k] else [])"
  by (simp_all add: filter_group_def)

lemma set_filter_group: "k \<in> set (filter_group recs i) \<longleftrightarrow> (\<exists>off. (off, k) \<in> set recs \<and> off div 2048 = i)"
  by (force simp: filter_group_def)

lemma filter_group_count:
  "length (concat (map (filter_group recs) [0..<n])) = length (filter (\<lambda>r. fst r div 2048 < n) recs)"
proof (induction n)
  case (Suc n)
  have "length (filter (\<lambda>r. fst r div 2048 < Suc n) rs) =
      length (filter (\<lambda>r. fst r div 2048 < n) rs) + length (filter (\<lambda>r. fst r div 2048 = n) rs)"
    for rs :: "(usize \<times> bytes) list"
    by (induction rs) auto
  then show ?case using Suc by (simp add: filter_group_def)
qed simp

definition fbb_state ::
  "FilterPolicy \<Rightarrow> FilterBlockBuilder \<Rightarrow> bytes list \<Rightarrow> bytes list list \<Rightarrow> bytes list \<Rightarrow> bool" where
  "fbb_state P b fs groups pend \<longleftrightarrow>
     fbb_policy b = P \<and> fbb_filters b = concat fs \<and> fbb_filter_offsets b = offsets_from 0 fs \<and>
     fbb_keys b = concat pend \<and> fbb_key_offsets b = offsets_from 0 pend \<and>
     length groups = length fs \<and> [] \<notin> set pend \<and> (\<forall>f \<in> set fs. length f < 2 ^ 29) \<and>
     (\<forall>i < length fs. groups ! i \<noteq> [] \<longrightarrow>
        create_filter P (concat (groups ! i)) (offsets_from 0 (groups ! i)) = Some (fs ! i)) \<and>
     (\<forall>i < length fs. groups ! i = [] \<longrightarrow> fs ! i = [])"

definition recorded ::
  "bytes list \<Rightarrow> bytes list list \<Rightarrow> bytes list \<Rightarrow> (usize \<times> bytes) list \<Rightarrow> bool" where
  "recorded fs groups pend recs \<longleftrightarrow>
     (\<forall>r \<in> set recs. fst r div 2048 \<le> length fs) \<and>
     groups = map (filter_group recs) [0..<length fs] \<and> pend = filter_group recs (length fs)"

lemma recorded_pending:
  assumes "recorded fs groups pend recs"
  shows "set pend \<subseteq> snd ` set recs" "length pend \<le> length recs"
  using assms by (auto simp: recorded_def filter_group_def)

text \<open>Once every key is in a filter, each is in the one of its offset.\<close>

lemma recorded_all:
  assumes "recorded fs groups [] recs"
  shows "(off, k) \<in> set recs \<Longrightarrow> off div 2048 < length fs \<and> k \<in> set (groups ! (off div 2048))"
    and "length (concat groups) = length recs"
proof -
  have below: "fst r div 2048 < length fs" if r: "r \<in> set recs" for r
  proof -
    have "filter_group recs (length fs) = []" using assms by (simp add: recorded_def)
    then have "fst r div 2048 \<noteq> length fs" using r by (auto simp: filter_group_def filter_empty_conv)
    moreover have "fst r div 2048 \<le> length fs" using assms r by (simp add: recorded_def)
    ultimately show ?thesis by simp
  qed
  show "off div 2048 < length fs \<and> k \<in> set (groups ! (off div 2048))" if "(off, k) \<in> set recs"
    using below [OF that] that assms by (auto simp: recorded_def set_filter_group)
  have "filter (\<lambda>r. fst r div 2048 < length fs) recs = recs" using below by (simp add: filter_id_conv)
  then show "length (concat groups) = length recs"
    using assms by (simp add: recorded_def filter_group_count del: length_concat)
qed

definition fbb_inv ::
  "FilterPolicy \<Rightarrow> FilterBlockBuilder \<Rightarrow> usize \<Rightarrow> (usize \<times> bytes) list \<Rightarrow> bool" where
  "fbb_inv P b cur recs \<longleftrightarrow>
     (\<exists>fs groups pend. fbb_state P b fs groups pend \<and> recorded fs groups pend recs \<and>
        cur div 2048 = length fs)"

text \<open>The policy creates a filter of less than 512 MiB, without a panic, for every list of at
  most \<open>n\<close> of the keys.\<close>

definition policy_creates :: "FilterPolicy \<Rightarrow> bytes set \<Rightarrow> nat \<Rightarrow> bool" where
  "policy_creates P keys n \<longleftrightarrow>
     (\<forall>ks. set ks \<subseteq> keys \<longrightarrow> length ks \<le> n \<longrightarrow>
        (\<exists>f. create_filter P (concat ks) (offsets_from 0 ks) = Some f \<and> length f < 2 ^ 29))"

lemma policy_creates_mono:
  "policy_creates P keys n \<Longrightarrow> keys' \<subseteq> keys \<Longrightarrow> n' \<le> n \<Longrightarrow> policy_creates P keys' n'"
  unfolding policy_creates_def by (meson order_trans)

lemma bloom_creates:
  assumes "\<forall>k \<in> keys. length k < 2 ^ 32" "n * unat bits < 2 ^ 31"
  shows "policy_creates (BloomPolicy_new D bits) keys n"
  unfolding policy_creates_def
proof (intro allI impI)
  fix ks assume ks: "set ks \<subseteq> keys" "length ks \<le> n"
  then have "length ks * unat bits < 2 ^ 31" using assms(2) by (meson le_less_trans mult_le_mono1)
  from bloom_create_total [OF this, of D] ks assms(1)
  show "\<exists>f. create_filter (BloomPolicy_new D bits) (concat ks) (offsets_from 0 ks) = Some f \<and>
      length f < 2 ^ 29"
    by force
qed

lemma no_filter_creates: "policy_creates NoFilterPolicy keys n"
  by (simp add: policy_creates_def NoFilterPolicy_def)

text \<open>A policy whose filters take at most \<open>c\<close> bytes for each key and \<open>c\<close> more.\<close>

definition filter_growth :: "FilterPolicy \<Rightarrow> nat \<Rightarrow> bool" where
  "filter_growth P c \<longleftrightarrow>
     (\<forall>ks f. create_filter P (concat ks) (offsets_from 0 ks) = Some f \<longrightarrow> length f \<le> c * (length ks + 1))"

lemma bloom_growth: "filter_growth (BloomPolicy_new D bits) (unat bits + 9)"
  unfolding filter_growth_def
proof (intro allI impI)
  fix ks f assume "create_filter (BloomPolicy_new D bits) (concat ks) (offsets_from 0 ks) = Some f"
  then have f: "length f = bloom_size (BloomPolicy_new_unwrapped bits) (length ks) + 1"
    by (auto simp: BloomPolicy_new_def create_filter_eq dest: bloom_add_keys_length split: if_splits)
  have "bloom_size (BloomPolicy_new_unwrapped bits) (length ks) \<le> length ks * unat bits + 8"
    by (auto simp: bloom_size_def BloomPolicy_new_unwrapped_def Let_def)
  with f show "length f \<le> (unat bits + 9) * (length ks + 1)"
    by (simp add: algebra_simps)
qed

lemma concat_growth:
  assumes "filter_growth P c" "length groups = length fs"
    and "\<forall>i < length fs. groups ! i \<noteq> [] \<longrightarrow>
      create_filter P (concat (groups ! i)) (offsets_from 0 (groups ! i)) = Some (fs ! i)"
    and "\<forall>i < length fs. groups ! i = [] \<longrightarrow> fs ! i = []"
  shows "length (concat fs) \<le> c * (length (concat groups) + length fs)"
  using assms(2-4)
proof (induction groups fs rule: list_induct2)
  case (Cons g groups f fs)
  have f: "length f \<le> c * (length g + 1)"
  proof (cases "g = []")
    case True
    then show ?thesis using Cons.prems(2) by (auto dest: spec [of _ 0])
  next
    case False
    then have "create_filter P (concat g) (offsets_from 0 g) = Some f"
      using Cons.prems(1) by (auto dest: spec [of _ 0])
    then show ?thesis using assms(1) by (simp add: filter_growth_def)
  qed
  have "length (concat fs) \<le> c * (length (concat groups) + length fs)"
    using Cons.prems by (intro Cons.IH) (auto dest: spec [of _ "Suc _"])
  with f show ?case by (simp add: algebra_simps)
qed simp

lemma fbb_inv_new: "fbb_inv P (FilterBlockBuilder_new P) 0 []"
  by (auto simp: fbb_inv_def fbb_state_def recorded_def FilterBlockBuilder_new_def
      intro!: exI [of _ "[] :: bytes list"] exI [of _ "[] :: bytes list list"])

lemma fbb_inv_add_key:
  assumes "fbb_inv P b cur recs" "k \<noteq> []"
  shows "fbb_inv P (FilterBlockBuilder_add_key b k) cur (recs @ [(cur, k)])"
proof -
  obtain fs groups pend where st: "fbb_state P b fs groups pend" "recorded fs groups pend recs"
    "cur div 2048 = length fs"
    using assms(1) by (auto simp: fbb_inv_def)
  have "fbb_state P (FilterBlockBuilder_add_key b k) fs groups (pend @ [k])"
    using st(1) assms(2) by (auto simp: fbb_state_def FilterBlockBuilder_add_key_def offsets_from_append)
  moreover have "recorded fs groups (pend @ [k]) (recs @ [(cur, k)])"
    using st(2,3) by (auto simp: recorded_def)
  ultimately show ?thesis using st(3) by (auto simp: fbb_inv_def)
qed

lemma generate_filter_state:
  assumes st: "fbb_state P b fs groups pend"
    and create: "\<exists>f. create_filter P (concat pend) (offsets_from 0 pend) = Some f \<and> length f < 2 ^ 29"
  shows "\<exists>b' f. FilterBlockBuilder_generate_filter b = Some b' \<and>
    fbb_state P b' (fs @ [f]) (groups @ [pend]) []"
proof (cases "pend = []")
  case True
  then show ?thesis
    using st
    by (auto simp: FilterBlockBuilder_generate_filter_def fbb_state_def offsets_from_append nth_append
        intro!: exI [of _ "[] :: bytes"])
next
  case False
  obtain f where f: "create_filter P (concat pend) (offsets_from 0 pend) = Some f" "length f < 2 ^ 29"
    using create by blast
  have "concat pend \<noteq> []" using st False by (cases pend) (auto simp: fbb_state_def)
  with st f show ?thesis
    by (auto simp: FilterBlockBuilder_generate_filter_def fbb_state_def offsets_from_append nth_append
        Let_def intro!: exI [of _ f])
qed

lemma recorded_generate:
  assumes "recorded fs groups pend recs" "length groups = length fs"
  shows "recorded (fs @ [f]) (groups @ [pend]) [] recs"
  using assms by (fastforce simp: recorded_def filter_group_def filter_empty_conv)

lemma start_block_loop_state:
  assumes creates: "policy_creates P (snd ` set recs) (length recs)" and ix: "ix < 2 ^ 32"
  shows "fbb_state P b fs groups pend \<Longrightarrow> recorded fs groups pend recs \<Longrightarrow> length fs \<le> ix \<Longrightarrow>
    \<exists>b' fs' groups' pend'. start_block_loop (usize_as_u32 ix) b = Some b' \<and>
      fbb_state P b' fs' groups' pend' \<and> recorded fs' groups' pend' recs \<and> length fs' = ix"
proof (induction "ix - length fs" arbitrary: b fs groups pend)
  case 0
  then have "\<not> usize_as_u32 (length (fbb_filter_offsets b)) < usize_as_u32 ix"
    by (simp add: fbb_state_def)
  then show ?case using 0 by (subst start_block_loop.simps) auto
next
  case (Suc n)
  then have less: "length fs < ix" by simp
  then have guard: "usize_as_u32 (length (fbb_filter_offsets b)) < usize_as_u32 ix"
    using Suc.prems(1) ix by (simp add: fbb_state_def word_less_nat_alt unat_usize_as_u32)
  have "\<exists>f. create_filter P (concat pend) (offsets_from 0 pend) = Some f \<and> length f < 2 ^ 29"
    using creates recorded_pending [OF Suc.prems(2)] by (simp add: policy_creates_def)
  from generate_filter_state [OF Suc.prems(1) this] obtain b1 f where
    b1: "FilterBlockBuilder_generate_filter b = Some b1"
      "fbb_state P b1 (fs @ [f]) (groups @ [pend]) []" by blast
  have "recorded (fs @ [f]) (groups @ [pend]) [] recs"
    using Suc.prems by (intro recorded_generate) (simp_all add: fbb_state_def)
  with Suc.hyps(1) [OF _ b1(2)] Suc.hyps(2) less b1(1) guard show ?case
    by (subst start_block_loop.simps) simp
qed

lemma fbb_inv_start_block:
  assumes inv: "fbb_inv P b cur recs" and off: "cur \<le> off" "off < 2 ^ 43"
    and creates: "policy_creates P (snd ` set recs) (length recs)"
  shows "\<exists>b'. FilterBlockBuilder_start_block b off = Some b' \<and> fbb_inv P b' off recs"
proof -
  obtain fs groups pend where st: "fbb_state P b fs groups pend" "recorded fs groups pend recs"
    "cur div 2048 = length fs"
    using inv by (auto simp: fbb_inv_def)
  let ?ix = "off div 2048"
  have le: "length fs \<le> ?ix" "?ix < 2 ^ 32"
    using off st(3) by (simp_all add: div_le_mono flip: st(3))
  then have "usize_as_u32 (length (fbb_filter_offsets b)) \<le> usize_as_u32 ?ix"
    using st(1) by (simp add: fbb_state_def word_le_nat_alt unat_usize_as_u32)
  moreover have "get_filter_index off FILTER_BASE_LOG2 = Some (usize_as_u32 ?ix)"
    by (simp add: get_filter_index_def FILTER_BASE_LOG2_def)
  ultimately show ?thesis
    using start_block_loop_state [OF creates le(2) st(1,2) le(1)]
    by (simp add: FilterBlockBuilder_start_block_def fbb_inv_def) (metis (no_types))
qed

lemma state_filters:
  assumes "fbb_state P b fs groups []" "recorded fs groups [] recs"
    and "length fs = n div 2048 + (if filter_group recs (n div 2048) = [] then 0 else 1)"
  shows "fs = filters_of P recs n"
proof (rule nth_equalityI)
  show "length fs = length (filters_of P recs n)" using assms(3) by (simp add: filters_of_def)
next
  fix i assume i: "i < length fs"
  then have "groups ! i = filter_group recs i" using assms(2) by (simp add: recorded_def)
  moreover have "groups ! i \<noteq> [] \<longrightarrow>
      create_filter P (concat (groups ! i)) (offsets_from 0 (groups ! i)) = Some (fs ! i)"
    "groups ! i = [] \<longrightarrow> fs ! i = []"
    using assms(1) i by (simp_all add: fbb_state_def)
  ultimately have "fs ! i = filter_of P (filter_group recs i)" by (auto simp: filter_of_def)
  then show "fs ! i = filters_of P recs n ! i" using i unfolding assms(3) by (simp add: filters_of_def)
qed

context integer_codec
begin

lemma fbb_inv_finish:
  assumes inv: "fbb_inv P b cur recs"
    and creates: "policy_creates P (snd ` set recs) (length recs)"
  shows "\<exists>fs groups b1. FilterBlockBuilder_finish D b = Some (filter_block_bytes D fs) \<and>
    fbb_state P b1 fs groups [] \<and> recorded fs groups [] recs \<and> length fs \<le> cur div 2048 + 1 \<and>
    fs = filters_of P recs cur \<and>
    (\<forall>c. filter_growth P c \<longrightarrow> length (concat fs) \<le> c * (length recs + length fs))"
proof -
  obtain fs groups pend where st: "fbb_state P b fs groups pend" "recorded fs groups pend recs"
    "cur div 2048 = length fs"
    using inv by (auto simp: fbb_inv_def)
  have "\<exists>b1 fs1 groups1. (if fbb_keys b \<noteq> [] then FilterBlockBuilder_generate_filter b else Some b) = Some b1 \<and>
      fbb_state P b1 fs1 groups1 [] \<and> recorded fs1 groups1 [] recs \<and>
      length fs1 = length fs + (if pend = [] then 0 else 1)"
  proof (cases "fbb_keys b = []")
    case True
    then have "pend = []" using st(1) by (cases pend) (auto simp: fbb_state_def)
    with st have "fbb_state P b fs groups []" "recorded fs groups [] recs" by simp_all
    with \<open>pend = []\<close> show ?thesis using True by (intro exI [of _ b] exI [of _ fs] exI [of _ groups]) simp
  next
    case False
    have "\<exists>f. create_filter P (concat pend) (offsets_from 0 pend) = Some f \<and> length f < 2 ^ 29"
      using creates recorded_pending [OF st(2)] by (simp add: policy_creates_def)
    from generate_filter_state [OF st(1) this] obtain b1 f where
      b1: "FilterBlockBuilder_generate_filter b = Some b1"
        "fbb_state P b1 (fs @ [f]) (groups @ [pend]) []" by blast
    moreover have "recorded (fs @ [f]) (groups @ [pend]) [] recs"
      using st by (intro recorded_generate) (simp_all add: fbb_state_def)
    moreover have "pend \<noteq> []" using False st(1) by (auto simp: fbb_state_def)
    ultimately show ?thesis using False
      by (intro exI [of _ b1] exI [of _ "fs @ [f]"] exI [of _ "groups @ [pend]"]) simp
  qed
  then obtain b1 fs1 groups1 where
    b1: "(if fbb_keys b \<noteq> [] then FilterBlockBuilder_generate_filter b else Some b) = Some b1"
      "fbb_state P b1 fs1 groups1 []" "recorded fs1 groups1 [] recs"
      "length fs1 = length fs + (if pend = [] then 0 else 1)" by blast
  have keys: "fbb_keys b1 = []" "fbb_filters b1 = concat fs1" "fbb_filter_offsets b1 = offsets_from 0 fs1"
    using b1(2) by (simp_all add: fbb_state_def)
  have "FilterBlockBuilder_finish D b = FilterBlockBuilder_finish D b1"
    using b1(1) keys(1) by (simp add: FilterBlockBuilder_finish_def)
  then have fin: "FilterBlockBuilder_finish D b = Some (filter_block_bytes D fs1)"
    using finish_bytes [OF keys(2,3,1)] by simp
  have "length groups1 = length fs1" "length (concat groups1) = length recs"
    using b1(2) recorded_all(2) [OF b1(3)] by (simp_all add: fbb_state_def)
  then have "\<forall>c. filter_growth P c \<longrightarrow> length (concat fs1) \<le> c * (length recs + length fs1)"
    using b1(2) concat_growth [of P _ groups1 fs1] by (simp add: fbb_state_def)
  moreover have "fs1 = filters_of P recs cur"
    using b1(4) st(2,3) by (intro state_filters [OF b1(2,3)]) (simp add: recorded_def)
  ultimately show ?thesis
    using fin b1(2-4) st(3) by (intro exI [of _ fs1] exI [of _ groups1] exI [of _ b1]) simp
qed

end

section \<open>No false negatives of a filter block\<close>

definition accepts :: "deps \<Rightarrow> FilterBlockReader \<Rightarrow> (usize \<times> bytes) list \<Rightarrow> bool" where
  "accepts D r recs \<longleftrightarrow>
     (\<forall>(off, k) \<in> set recs. FilterBlockReader_key_may_match D r off k = Some True)"

locale filter_codec = integer_codec D + nonempty_filter_policy P for D :: deps and P :: FilterPolicy
begin

lemma reader_accepts_state:
  assumes st: "fbb_state P b fs groups []" and rec: "recorded fs groups [] recs"
    and len: "length (filter_block_bytes D fs) < 2 ^ 29"
  shows "accepts D (reader_of D P fs) recs"
  unfolding accepts_def
proof (clarify)
  fix off k assume "(off, k) \<in> set recs"
  then have i: "off div 2048 < length fs" and k: "k \<in> set (groups ! (off div 2048))"
    using recorded_all(1) [OF rec] by simp_all
  let ?i = "off div 2048"
  have f: "create_filter P (concat (groups ! ?i)) (offsets_from 0 (groups ! ?i)) = Some (fs ! ?i)"
    using st i k by (auto simp: fbb_state_def)
  then have nonempty: "fs ! ?i \<noteq> []" by (rule create_nonempty)
  have "length (fs ! ?i) \<le> length (concat fs)"
    using concat_map_split [OF i, of id] by (simp add: list.map_id)
  then have "length (fs ! ?i) < 2 ^ 29" using len filter_block_bytes_length [of fs] by simp
  then have "key_may_match P k (fs ! ?i) = Some True" by (rule no_false_negative [OF f _ k])
  with reader_lookup [OF _ i refl] nonempty len
  show "FilterBlockReader_key_may_match D (reader_of D P fs) off k = Some True" by simp
qed

lemma fbb_inv_accepts:
  assumes inv: "fbb_inv P b cur recs"
    and creates: "policy_creates P (snd ` set recs) (length recs)"
  shows "\<exists>fs. FilterBlockBuilder_finish D b = Some (filter_block_bytes D fs) \<and>
    (length (filter_block_bytes D fs) < 2 ^ 29 \<longrightarrow>
       FilterBlockReader_new D P (filter_block_bytes D fs) = Some (reader_of D P fs) \<and>
       accepts D (reader_of D P fs) recs)"
proof -
  from fbb_inv_finish [OF inv creates] obtain fs groups b1 where
    fs: "FilterBlockBuilder_finish D b = Some (filter_block_bytes D fs)"
      "fbb_state P b1 fs groups []" "recorded fs groups [] recs" by blast
  then show ?thesis using reader_new [of fs] reader_accepts_state [OF fs(2,3)] by auto
qed

end

interpretation ref_filter: filter_codec reference_deps "BloomPolicy_new reference_deps bits" for bits
  by unfold_locales

section \<open>Properties\<close>

text \<open>A client's run: data blocks in the order of their offsets, each with its keys.\<close>

fun filter_block_feed ::
  "FilterBlockBuilder \<Rightarrow> (usize \<times> bytes list) list \<Rightarrow> FilterBlockBuilder run" where
  "filter_block_feed b [] = Some b"
| "filter_block_feed b ((off, ks) # blocks) =
     do {
       b \<leftarrow> FilterBlockBuilder_start_block b off;
       filter_block_feed (fold (\<lambda>k b. FilterBlockBuilder_add_key b k) ks b) blocks
     }"

definition feed_records :: "(usize \<times> bytes list) list \<Rightarrow> (usize \<times> bytes) list" where
  "feed_records blocks = concat (map (\<lambda>(off, ks). map (Pair off) ks) blocks)"

lemma feed_records_simps [simp]:
  "feed_records [] = []"
  "feed_records ((off, ks) # blocks) = map (Pair off) ks @ feed_records blocks"
  by (simp_all add: feed_records_def)

lemma fbb_inv_add_keys:
  "fbb_inv P b cur recs \<Longrightarrow> [] \<notin> set ks \<Longrightarrow>
   fbb_inv P (fold (\<lambda>k b. FilterBlockBuilder_add_key b k) ks b) cur (recs @ map (Pair cur) ks)"
proof (induction ks arbitrary: b recs)
  case (Cons k ks)
  from fbb_inv_add_key [OF Cons.prems(1), of k] Cons.prems(2)
  have "fbb_inv P (FilterBlockBuilder_add_key b k) cur (recs @ [(cur, k)])" by auto
  from Cons.IH [OF this] Cons.prems(2) show ?case by simp
qed simp

lemma filter_block_feed_inv:
  assumes "fbb_inv P b cur recs" "sorted (cur # map fst blocks)"
    and "\<forall>(off, ks) \<in> set blocks. off < 2 ^ 43 \<and> [] \<notin> set ks"
    and "policy_creates P (snd ` set (recs @ feed_records blocks)) (length (recs @ feed_records blocks))"
  shows "\<exists>b' cur'. filter_block_feed b blocks = Some b' \<and>
    fbb_inv P b' cur' (recs @ feed_records blocks)"
  using assms
proof (induction blocks arbitrary: b cur recs)
  case (Cons blk blocks)
  obtain off ks where blk: "blk = (off, ks)" by (cases blk)
  have "policy_creates P (snd ` set recs) (length recs)"
    by (rule policy_creates_mono [OF Cons.prems(4)]) auto
  from fbb_inv_start_block [OF Cons.prems(1) _ _ this, of off] Cons.prems(2,3) blk
  obtain b1 where b1: "FilterBlockBuilder_start_block b off = Some b1" "fbb_inv P b1 off recs"
    by auto
  from fbb_inv_add_keys [OF b1(2), of ks] Cons.prems(3) blk
  have "fbb_inv P (fold (\<lambda>k b. FilterBlockBuilder_add_key b k) ks b1) off (recs @ map (Pair off) ks)"
    by auto
  from Cons.IH [OF this] Cons.prems blk b1(1) show ?case by auto
qed auto

text \<open>C25: A filter block built with the Bloom policy from data blocks at ascending offsets is built
  without a panic, and its reader accepts every key at the offset of the key's data block: a
  table lookup never skips a block that holds the key.\<close>

theorem filter_block_no_false_negatives:
  assumes "integer_codec D" "sorted (map fst blocks)"
    and "\<forall>(off, ks) \<in> set blocks. off < 2 ^ 43 \<and> (\<forall>k \<in> set ks. k \<noteq> [] \<and> length k < 2 ^ 32)"
    and "length (feed_records blocks) * unat bits < 2 ^ 31"
  shows "\<exists>b data.
    filter_block_feed (FilterBlockBuilder_new (BloomPolicy_new D bits)) blocks = Some b \<and>
    FilterBlockBuilder_finish D b = Some data \<and>
    (length data < 2 ^ 29 \<longrightarrow>
       (\<exists>r. FilterBlockReader_new D (BloomPolicy_new D bits) data = Some r \<and>
          (\<forall>(off, ks) \<in> set blocks. \<forall>k \<in> set ks.
             FilterBlockReader_key_may_match D r off k = Some True)))"
proof -
  let ?P = "BloomPolicy_new D bits" and ?recs = "feed_records blocks"
  have creates: "policy_creates ?P (snd ` set ?recs) (length ?recs)"
    using assms(3,4) by (intro bloom_creates) (auto simp: feed_records_def)
  obtain b cur where b: "filter_block_feed (FilterBlockBuilder_new ?P) blocks = Some b"
    "fbb_inv ?P b cur ?recs"
    using filter_block_feed_inv [OF fbb_inv_new, of blocks ?P] assms(2,3) creates by fastforce
  have "filter_codec D ?P"
    using assms(1) bloom.nonempty_filter_policy_axioms by (simp add: filter_codec_def)
  from filter_codec.fbb_inv_accepts [OF this b(2) creates]
  show ?thesis
    using b(1) by (fastforce simp: accepts_def feed_records_def)
qed

theorem filter_block_no_false_negatives_witness:
  "\<exists>b data.
    filter_block_feed (FilterBlockBuilder_new (BloomPolicy_new reference_deps 10))
      [(0, [[1], [1, 2]]), (5000, [[9]])] = Some b \<and>
    FilterBlockBuilder_finish reference_deps b = Some data"
  using filter_block_no_false_negatives
    [OF ref_deps.integer_codec_axioms, of "[(0, [[1], [1, 2]]), (5000, [[9]])]" 10]
  by auto

text \<open>In a filter block within its size limits, a lookup at an offset that has a filter is
  the policy's answer on that filter, but panics when the filter is empty, as all filters of
  the policy without a filter are: the reader asserts that a filter has at least one byte.\<close>

lemma filter_block_lookup:
  assumes "integer_codec D" "length (filter_block_bytes D fs) < 2 ^ 32"
    and "blk_offset div 2048 < length fs"
  shows "(FilterBlockReader_new D P (filter_block_bytes D fs) \<bind>
      (\<lambda>r. FilterBlockReader_key_may_match D r blk_offset key)) =
    (if fs ! (blk_offset div 2048) = [] then None
     else key_may_match P key (fs ! (blk_offset div 2048)))"
  using integer_codec.reader_new [OF assms(1,2)]
    integer_codec.reader_lookup [OF assms(1,2,3) refl]
  by simp

text \<open>The filter block that the policy without a filter leads to.\<close>

lemma no_filter_block:
  "(filter_block_feed (FilterBlockBuilder_new NoFilterPolicy) [(0, [[1]])] \<bind>
     FilterBlockBuilder_finish reference_deps) = Some (filter_block_bytes reference_deps [[]])"
proof -
  let ?b = "FilterBlockBuilder_add_key (FilterBlockBuilder_new NoFilterPolicy) [1]"
  have "filter_block_feed (FilterBlockBuilder_new NoFilterPolicy) [(0, [[1]])] = Some ?b"
    by (simp add: FilterBlockBuilder_start_block_def get_filter_index_def FILTER_BASE_LOG2_def
        FilterBlockBuilder_new_def usize_as_u32_def start_block_loop.simps)
  moreover have "FilterBlockBuilder_finish reference_deps ?b =
      FilterBlockBuilder_finish reference_deps
        (?b\<lparr>fbb_filter_offsets := [0], fbb_keys := [], fbb_key_offsets := []\<rparr>)"
    by (simp add: FilterBlockBuilder_finish_def FilterBlockBuilder_generate_filter_def
        FilterBlockBuilder_add_key_def FilterBlockBuilder_new_def NoFilterPolicy_def Let_def)
  ultimately show ?thesis
    using integer_codec.finish_bytes [OF ref_deps.integer_codec_axioms, of
        "?b\<lparr>fbb_filter_offsets := [0], fbb_keys := [], fbb_key_offsets := []\<rparr>" "[[]]"]
    by (simp add: FilterBlockBuilder_add_key_def FilterBlockBuilder_new_def)
qed

end
