(* ===== verification/SST_Error.thy ===== *)
theory SST_Error
  imports SST_Prelude
begin

text \<open>
  The error type of the crate, \<open>src/error.rs\<close>: status codes, the constructor that prefixes
  the message with the code's name, and the conversions from I/O, lock and Snappy errors.
\<close>

section \<open>Status\<close>

datatype StatusCode =
    OK
  | AlreadyExists
  | Corruption
  | CompressionError
  | IOError
  | InvalidArgument
  | InvalidData
  | LockError
  | NotFound
  | NotSupported
  | PermissionDenied
  | Unknown

record Status =
  code :: StatusCode
  err_msg :: string

text \<open>The derived \<open>Debug\<close> formatting of a status code is its constructor's name.\<close>

fun StatusCode_debug :: "StatusCode \<Rightarrow> string" where
  "StatusCode_debug OK = ''OK''"
| "StatusCode_debug AlreadyExists = ''AlreadyExists''"
| "StatusCode_debug Corruption = ''Corruption''"
| "StatusCode_debug CompressionError = ''CompressionError''"
| "StatusCode_debug IOError = ''IOError''"
| "StatusCode_debug InvalidArgument = ''InvalidArgument''"
| "StatusCode_debug InvalidData = ''InvalidData''"
| "StatusCode_debug LockError = ''LockError''"
| "StatusCode_debug NotFound = ''NotFound''"
| "StatusCode_debug NotSupported = ''NotSupported''"
| "StatusCode_debug PermissionDenied = ''PermissionDenied''"
| "StatusCode_debug Unknown = ''Unknown''"

definition Status_default :: Status where
  "Status_default = \<lparr>code = OK, err_msg = []\<rparr>"

definition Status_new :: "StatusCode \<Rightarrow> string \<Rightarrow> Status" where
  "Status_new c msg =
     (if msg = [] then \<lparr>code = c, err_msg = StatusCode_debug c\<rparr>
      else \<lparr>code = c, err_msg = StatusCode_debug c @ '': '' @ msg\<rparr>)"

text \<open>\<open>std::io::Error\<close>, reduced to its kind and its message; the kinds that the conversion
  does not name are one constructor.\<close>

datatype ErrorKind = KNotFound | KInvalidData | KInvalidInput | KPermissionDenied | KOther

record io_error =
  kind :: ErrorKind
  io_msg :: string

definition Status_from_io :: "io_error \<Rightarrow> Status" where
  "Status_from_io e =
     (let c = (case kind e of
                 KNotFound \<Rightarrow> NotFound
               | KInvalidData \<Rightarrow> Corruption
               | KInvalidInput \<Rightarrow> InvalidArgument
               | KPermissionDenied \<Rightarrow> PermissionDenied
               | _ \<Rightarrow> IOError)
      in Status_new c (io_msg e))"

definition Status_from_poison :: Status where
  "Status_from_poison = Status_new LockError ''lock poisoned''"

text \<open>A Snappy error is the string it prints.\<close>

definition Status_from_snap :: "string \<Rightarrow> Status" where
  "Status_from_snap msg = \<lparr>code = CompressionError, err_msg = msg\<rparr>"

definition err :: "StatusCode \<Rightarrow> string \<Rightarrow> (Status + 'a) run" where
  "err c msg = Some (Inl (Status_new c msg))"

lemma code_Status_new [simp]: "code (Status_new c msg) = c"
  by (simp add: Status_new_def)

lemma try_bind_err [simp]: "try_bind (err c msg) f = err c msg"
  by (simp add: err_def)

lemma err_neq_ok [simp]: "err c msg \<noteq> ok x" "ok x \<noteq> err c msg" "err c msg \<noteq> None"
  by (simp_all add: err_def ok_def)

lemma StatusCode_debug_inject: "StatusCode_debug c = StatusCode_debug d \<longleftrightarrow> c = d"
  by (cases c; cases d) simp_all

section \<open>Displaying a status\<close>

text \<open>
  \<open>fmt\<close> of \<open>Display\<close> calls \<open>to_string\<close>, which formats the value into an empty string with
  \<open>fmt\<close> of \<open>Display\<close> again.
\<close>

partial_function (option) Status_fmt :: "Status \<Rightarrow> string \<Rightarrow> string run" where
  "Status_fmt self fmt = do { s \<leftarrow> Status_fmt self []; Some (fmt @ s) }"

declare Status_fmt.simps [code]

definition Status_description :: "Status \<Rightarrow> string" where
  "Status_description self = err_msg self"

lemma Status_fmt_undefined: "Status_fmt s fmt = Some y \<Longrightarrow> False"
  by (erule Status_fmt.raw_induct [where P = "\<lambda>_ _ _. False", rotated])
    (auto simp: Option.bind_eq_Some_conv)

text \<open>C40: Formatting a status with \<open>Display\<close> never returns: the implementation calls itself
  through \<open>to_string\<close> without end.\<close>

theorem status_display_diverges:
  "Status_fmt s fmt = None"
  using Status_fmt_undefined by (cases "Status_fmt s fmt") auto

text \<open>A constructed status keeps its code, and its message names the code.\<close>

lemma status_new_message:
  "code (Status_new c msg) = c \<and>
   err_msg (Status_new c msg) = StatusCode_debug c @ (if msg = [] then [] else '': '' @ msg) \<and>
   (code (Status_from_io e) = code (Status_from_io e') \<longleftrightarrow> kind e = kind e')"
  by (cases "kind e"; cases "kind e'") (simp_all add: Status_new_def Status_from_io_def)

end
