(* ===== verification/SST_Types.thy ===== *)
theory SST_Types
  imports SST_Error SST_Cmp
begin

text \<open>
  \<open>src/types.rs\<close>: random access to a file and its implementation on a byte vector, the
  iterator trait \<open>SSIterator\<close> with its default methods, and the masking of checksums.

  The trait's contract is the locale \<open>forward_iterator\<close>, which \<open>ssiterator\<close> extends by
  seeking and stepping back. The relation \<open>at_pos es p it\<close> says that
  \<open>it\<close> iterates over the entries \<open>es\<close> and stands at position \<open>p\<close>, where \<open>None\<close> is
  the position before the first entry.
\<close>

section \<open>Random access\<close>

text \<open>\<open>read_at(off, dst)\<close> returns how many bytes it read and the buffer it wrote to.\<close>

type_synonym random_access = "usize \<Rightarrow> bytes \<Rightarrow> (Status + usize \<times> bytes) run"

definition BufferBackedFile_read_at :: "bytes \<Rightarrow> random_access" where
  "BufferBackedFile_read_at self off dst =
     (if length self < off then ok (0, dst)
      else
        let remaining = length self - off;
            to_read = (if remaining < length dst then remaining else length dst)
        in do {
          src \<leftarrow> vec_slice self off (off + to_read);
          ok (to_read, copy_into dst 0 src)
        })"

text \<open>The contract: a read inside of the file fills the whole buffer.\<close>

locale random_access_file =
  fixes read_at :: random_access and data :: bytes
  assumes read_inside:
    "off + length dst \<le> length data \<Longrightarrow>
     read_at off dst = ok (length dst, take (length dst) (drop off data))"

lemma BufferBackedFile_read_at_eq:
  "off \<le> length self \<Longrightarrow>
   BufferBackedFile_read_at self off dst =
     (let n = min (length dst) (length self - off)
      in ok (n, take n (drop off self) @ drop n dst))"
  by (auto simp: BufferBackedFile_read_at_def vec_slice_def copy_into_def ok_def Let_def min_def)

interpretation buffer_file: random_access_file "BufferBackedFile_read_at data" data for data
  by unfold_locales (simp add: BufferBackedFile_read_at_eq Let_def min_absorb1)

section \<open>The iterator trait\<close>

text \<open>
  The methods of an iterator type \<open>'it\<close> are arguments of the default methods. The out
  parameters of \<open>current\<close> are passed in and returned.
\<close>

type_synonym 'it advance_fn = "'it \<Rightarrow> (bool \<times> 'it) run"
type_synonym 'it current_fn = "'it \<Rightarrow> bytes \<Rightarrow> bytes \<Rightarrow> (bool \<times> bytes \<times> bytes) run"

definition SSIterator_next ::
  "'it advance_fn \<Rightarrow> 'it current_fn \<Rightarrow> 'it \<Rightarrow> ((bytes \<times> bytes) option \<times> 'it) run" where
  "SSIterator_next advance current it =
     do {
       (b, it') \<leftarrow> advance it;
       if \<not> b then Some (None, it')
       else do {
         (c, key, val) \<leftarrow> current it' [] [];
         Some (if c then Some (key, val) else None, it')
       }
     }"

definition SSIterator_seek_to_first ::
  "'it advance_fn \<Rightarrow> ('it \<Rightarrow> 'it) \<Rightarrow> 'it \<Rightarrow> 'it run" where
  "SSIterator_seek_to_first advance reset it = do { (_, it') \<leftarrow> advance (reset it); Some it' }"

definition current_key_val :: "'it current_fn \<Rightarrow> 'it \<Rightarrow> (bytes \<times> bytes) option run" where
  "current_key_val current it =
     do { (c, k, v) \<leftarrow> current it [] []; Some (if c then Some (k, v) else None) }"

text \<open>The trait itself: the methods of an iterator type.\<close>

record 'it SSIterator =
  it_advance :: "'it advance_fn"
  it_current :: "'it current_fn"
  it_current_key :: "'it \<Rightarrow> bytes option"
  it_seek :: "'it \<Rightarrow> bytes \<Rightarrow> 'it run"
  it_reset :: "'it \<Rightarrow> 'it"
  it_valid :: "'it \<Rightarrow> bool"
  it_prev :: "'it \<Rightarrow> (bool \<times> 'it) run"

text \<open>
  A box of an iterator is an iterator that forwards each method to its content, and any iterator is
  one of the standard library by its \<open>next\<close>.
\<close>

definition Box_SSIterator :: "'it SSIterator \<Rightarrow> 'it SSIterator" where
  "Box_SSIterator T =
     \<lparr>it_advance = (\<lambda>self. it_advance T self),
      it_current = (\<lambda>self key val. it_current T self key val),
      it_current_key = (\<lambda>self. it_current_key T self),
      it_seek = (\<lambda>self key. it_seek T self key),
      it_reset = (\<lambda>self. it_reset T self),
      it_valid = (\<lambda>self. it_valid T self),
      it_prev = (\<lambda>self. it_prev T self)\<rparr>"

definition dyn_Iterator_next :: "'it SSIterator \<Rightarrow> 'it \<Rightarrow> ((bytes \<times> bytes) option \<times> 'it) run" where
  "dyn_Iterator_next T self = SSIterator_next (it_advance T) (it_current T) self"

lemma Box_SSIterator_eq: "Box_SSIterator T = T"
  by (simp add: Box_SSIterator_def)

text \<open>The loop of a client, \<open>while let Some((k, v)) = it.next()\<close>, with what it sees.\<close>

partial_function (option) drain ::
  "'it advance_fn \<Rightarrow> 'it current_fn \<Rightarrow> 'it \<Rightarrow> ((bytes \<times> bytes) list \<times> 'it) run" where
  "drain advance current it =
     do {
       (r, it') \<leftarrow> SSIterator_next advance current it;
       case r of
         None \<Rightarrow> Some ([], it')
       | Some kv \<Rightarrow> do { (kvs, it'') \<leftarrow> drain advance current it'; Some (kv # kvs, it'') }
     }"

declare drain.simps [code]

section \<open>The contract of an iterator\<close>

text \<open>The position of the first entry whose key is not below \<open>k\<close>, if there is one.\<close>

definition seek_index :: "Cmp \<Rightarrow> bytes \<Rightarrow> (bytes \<times> 'v) list \<Rightarrow> nat" where
  "seek_index C k es = length (takeWhile (\<lambda>e. cmp C (fst e) k = Less) es)"

definition seek_pos :: "Cmp \<Rightarrow> bytes \<Rightarrow> (bytes \<times> 'v) list \<Rightarrow> nat option" where
  "seek_pos C k es = (let i = seek_index C k es in if i < length es then Some i else None)"

lemma find_seek_pos:
  "find (\<lambda>e. cmp C (fst e) k \<noteq> Less) es = map_option (\<lambda>i. es ! i) (seek_pos C k es)"
proof -
  have "find (\<lambda>e. cmp C (fst e) k \<noteq> Less) es =
      (if seek_index C k es < length es then Some (es ! seek_index C k es) else None)"
    unfolding seek_index_def by (induction es) auto
  then show ?thesis by (simp add: seek_pos_def Let_def)
qed

context comparator
begin

lemma seek_pos_stored:
  assumes "ascending C (map fst es)" "i < length es"
  shows "seek_pos C (fst (es ! i)) es = Some i"
proof -
  have "takeWhile (\<lambda>e. cmp C (fst e) (fst (es ! i)) = Less) es = take i es"
  proof (rule takeWhile_eq_take_P_nth)
    fix j assume "j < i" "j < length es"
    then show "cmp C (fst (es ! j)) (fst (es ! i)) = Less"
      using assms sorted_wrt_nth_less [of _ "map fst es" j i] by (simp add: ascending_def)
  qed (simp add: cmp_refl)
  then show ?thesis using assms(2) by (simp add: seek_pos_def seek_index_def)
qed

end

fun next_pos :: "nat option \<Rightarrow> nat" where
  "next_pos None = 0"
| "next_pos (Some i) = Suc i"

locale forward_iterator =
  fixes advance :: "'it advance_fn"
    and current :: "'it current_fn"
    and reset :: "'it \<Rightarrow> 'it"
    and valid :: "'it \<Rightarrow> bool"
    and at_pos :: "(bytes \<times> bytes) list \<Rightarrow> nat option \<Rightarrow> 'it \<Rightarrow> bool"
  assumes advance_inside: "at_pos es p it \<Longrightarrow> next_pos p < length es \<Longrightarrow>
      \<exists>it'. advance it = Some (True, it') \<and> at_pos es (Some (next_pos p)) it'"
    and advance_end: "at_pos es p it \<Longrightarrow> length es \<le> next_pos p \<Longrightarrow>
      \<exists>it'. advance it = Some (False, it') \<and> at_pos es None it'"
    and current_at: "at_pos es (Some i) it \<Longrightarrow>
      current it k v = Some (True, fst (es ! i), snd (es ! i))"
    and current_none: "at_pos es None it \<Longrightarrow> current it k v = Some (False, k, v)"
    and at_bounds: "at_pos es (Some i) it \<Longrightarrow> i < length es"
    and valid_iff: "at_pos es p it \<Longrightarrow> valid it \<longleftrightarrow> p \<noteq> None"
    and at_reset: "at_pos es p it \<Longrightarrow> at_pos es None (reset it)"
begin

lemma next_inside:
  assumes "at_pos es p it" "next_pos p < length es"
  shows "\<exists>it'. SSIterator_next advance current it = Some (Some (es ! next_pos p), it') \<and>
    at_pos es (Some (next_pos p)) it'"
  using advance_inside [OF assms] by (auto simp: SSIterator_next_def current_at)

lemma next_end:
  assumes "at_pos es p it" "length es \<le> next_pos p"
  shows "\<exists>it'. SSIterator_next advance current it = Some (None, it') \<and> at_pos es None it'"
  using advance_end [OF assms] by (auto simp: SSIterator_next_def)

lemma drain_from:
  "at_pos es p it \<Longrightarrow>
   \<exists>it'. drain advance current it = Some (drop (next_pos p) es, it') \<and> at_pos es None it'"
proof (induction "length es - next_pos p" arbitrary: p it)
  case 0
  then show ?case
    using next_end [OF 0(2)] by (auto simp: drain.simps [of advance current it])
next
  case (Suc n)
  then have less: "next_pos p < length es" by simp
  from next_inside [OF Suc.prems this] obtain it1 where
    it1: "SSIterator_next advance current it = Some (Some (es ! next_pos p), it1)"
      "at_pos es (Some (next_pos p)) it1" by blast
  have "n = length es - next_pos (Some (next_pos p))" using Suc.hyps(2) by simp
  from Suc.hyps(1) [OF this it1(2)] show ?case
    using it1(1) less
    by (auto simp: drain.simps [of advance current it] Cons_nth_drop_Suc)
qed

text \<open>When the loop ends, \<open>advance\<close> has just run off the last entry.\<close>

lemma drain_last:
  "at_pos es p it \<Longrightarrow> next_pos p < length es \<Longrightarrow>
   \<exists>last it'. at_pos es (Some (length es - 1)) last \<and> advance last = Some (False, it') \<and>
     drain advance current it = Some (drop (next_pos p) es, it')"
proof (induction "length es - next_pos p" arbitrary: p it)
  case (Suc n)
  from next_inside [OF Suc.prems] obtain it1 where
    it1: "SSIterator_next advance current it = Some (Some (es ! next_pos p), it1)"
      "at_pos es (Some (next_pos p)) it1" by blast
  have n: "n = length es - next_pos (Some (next_pos p))" using Suc.hyps(2) by simp
  show ?case
  proof (cases "Suc (next_pos p) < length es")
    case True
    then obtain last it' where "at_pos es (Some (length es - 1)) last" "advance last = Some (False, it')"
      "drain advance current it1 = Some (drop (Suc (next_pos p)) es, it')"
      using Suc.hyps(1) [OF n it1(2)] by auto
    then show ?thesis
      using it1(1) Suc.prems(2)
      by (auto simp: drain.simps [of advance current it] Cons_nth_drop_Suc [symmetric])
  next
    case False
    then have last: "length es - 1 = next_pos p" using Suc.prems(2) by simp
    obtain it2 where it2: "advance it1 = Some (False, it2)" using advance_end [OF it1(2)] False by auto
    then have "drain advance current it1 = Some ([], it2)"
      by (simp add: drain.simps [of advance current it1] SSIterator_next_def)
    then have "drain advance current it = Some (drop (next_pos p) es, it2)"
      using it1(1) Suc.prems(2) False
      by (simp add: drain.simps [of advance current it] Cons_nth_drop_Suc [symmetric])
    with it1(2) it2 last show ?thesis by auto
  qed
qed simp

lemma drain_all:
  "at_pos es None it \<Longrightarrow> \<exists>it'. drain advance current it = Some (es, it') \<and> at_pos es None it'"
  using drain_from [of es None it] by simp

lemma seek_to_first_at:
  assumes "at_pos es p it" "es \<noteq> []"
  shows "\<exists>it'. SSIterator_seek_to_first advance reset it = Some it' \<and> at_pos es (Some 0) it'"
  using advance_inside [OF at_reset [OF assms(1)]] assms(2)
  by (auto simp: SSIterator_seek_to_first_def)

lemma current_key_val_at: "at_pos es (Some i) it \<Longrightarrow> current_key_val current it = Some (Some (es ! i))"
  by (simp add: current_key_val_def current_at)

lemma current_key_val_none: "at_pos es None it \<Longrightarrow> current_key_val current it = Some None"
  by (simp add: current_key_val_def current_none)

end

text \<open>An iterator that also seeks to a key and steps back.\<close>

locale ssiterator = forward_iterator advance current reset valid at_pos
  for advance :: "'it advance_fn" and current :: "'it current_fn" and reset :: "'it \<Rightarrow> 'it"
    and valid :: "'it \<Rightarrow> bool" and at_pos :: "(bytes \<times> bytes) list \<Rightarrow> nat option \<Rightarrow> 'it \<Rightarrow> bool" +
  fixes seek :: "'it \<Rightarrow> bytes \<Rightarrow> 'it run"
    and prev :: "'it \<Rightarrow> (bool \<times> 'it) run"
    and C :: Cmp
  assumes seek_at: "at_pos es p it \<Longrightarrow> \<exists>it'. seek it k = Some it' \<and> at_pos es (seek_pos C k es) it'"
    and prev_inside: "at_pos es (Some (Suc i)) it \<Longrightarrow>
      \<exists>it'. prev it = Some (True, it') \<and> at_pos es (Some i) it'"
    and prev_first: "at_pos es (Some 0) it \<Longrightarrow> \<exists>it'. prev it = Some (False, it') \<and> at_pos es None it'"
begin

lemma seek_current:
  assumes "at_pos es p it"
  shows "\<exists>it'. seek it k = Some it' \<and>
    current_key_val current it' = Some (find (\<lambda>e. cmp C (fst e) k \<noteq> Less) es)"
proof -
  obtain it' where it': "seek it k = Some it'" "at_pos es (seek_pos C k es) it'"
    using seek_at [OF assms] by blast
  then show ?thesis
    using current_key_val_at current_key_val_none
    by (cases "seek_pos C k es") (auto simp: find_seek_pos)
qed

end

text \<open>
  An iterator of which only less is known: it finds the stored keys, and it is not valid after
  it has stepped back from the first entry.
\<close>

locale stored_seek_iterator = forward_iterator advance current reset valid at_pos
  for advance :: "'it advance_fn" and current :: "'it current_fn" and reset :: "'it \<Rightarrow> 'it"
    and valid :: "'it \<Rightarrow> bool" and at_pos :: "(bytes \<times> bytes) list \<Rightarrow> nat option \<Rightarrow> 'it \<Rightarrow> bool" +
  fixes current_key :: "'it \<Rightarrow> bytes option"
    and seek :: "'it \<Rightarrow> bytes \<Rightarrow> 'it run"
    and prev :: "'it \<Rightarrow> (bool \<times> 'it) run"
  assumes current_key_at: "at_pos es (Some i) it \<Longrightarrow> current_key it = Some (fst (es ! i))"
    and seek_stored: "at_pos es p it \<Longrightarrow> i < length es \<Longrightarrow>
      \<exists>it'. seek it (fst (es ! i)) = Some it' \<and> at_pos es (Some i) it'"
    and prev_to: "at_pos es (Some (Suc i)) it \<Longrightarrow>
      \<exists>it'. prev it = Some (True, it') \<and> at_pos es (Some i) it'"
    and prev_out: "at_pos es (Some 0) it \<Longrightarrow> \<exists>it'. prev it = Some (False, it') \<and> \<not> valid it'"

section \<open>Checksum masking\<close>

definition MASK_DELTA :: u32 where
  "MASK_DELTA = 0xa282ead8"

definition mask_crc :: "u32 \<Rightarrow> u32" where
  "mask_crc c = (drop_bit 15 c OR push_bit 17 c) + MASK_DELTA"

definition unmask_crc :: "u32 \<Rightarrow> u32" where
  "unmask_crc mc = (let rot = mc - MASK_DELTA in drop_bit 17 rot OR push_bit 15 rot)"

lemma rotate_back:
  "drop_bit 17 (drop_bit 15 c OR push_bit 17 c) OR push_bit 15 (drop_bit 15 c OR push_bit 17 c) = (c :: u32)"
proof (rule bit_word_eqI)
  fix n assume n: "n < LENGTH(32)"
  then show "bit (drop_bit 17 (drop_bit 15 c OR push_bit 17 c) OR
      push_bit 15 (drop_bit 15 c OR push_bit 17 c)) n = bit c n"
    by (cases "n < 15") (auto simp: bit_simps dest: bit_imp_le_length)
qed

lemma rotate_forth:
  "drop_bit 15 (drop_bit 17 c OR push_bit 15 c) OR push_bit 17 (drop_bit 17 c OR push_bit 15 c) = (c :: u32)"
proof (rule bit_word_eqI)
  fix n assume n: "n < LENGTH(32)"
  then show "bit (drop_bit 15 (drop_bit 17 c OR push_bit 15 c) OR
      push_bit 17 (drop_bit 17 c OR push_bit 15 c)) n = bit c n"
    by (cases "n < 17") (auto simp: bit_simps dest: bit_imp_le_length)
qed

lemma unmask_mask [simp]: "unmask_crc (mask_crc c) = c"
  by (simp only: unmask_crc_def mask_crc_def Let_def add_diff_cancel_right' rotate_back)

lemma mask_unmask [simp]: "mask_crc (unmask_crc c) = c"
  by (simp only: unmask_crc_def mask_crc_def Let_def rotate_forth diff_add_cancel)

section \<open>Properties\<close>

text \<open>Masking a checksum and unmasking it are inverse to each other on all 32-bit words.\<close>

lemma mask_crc_bijective:
  "unmask_crc (mask_crc c) = c \<and> mask_crc (unmask_crc c) = c"
  by simp

text \<open>Reading a byte vector as a file never panics or fails: at every offset, also past the
  end, it copies as many bytes as the file has left and the buffer holds, and leaves the rest of
  the buffer alone.\<close>

lemma buffer_file_read:
  "BufferBackedFile_read_at self off dst =
     (let n = min (length dst) (length self - off)
      in ok (n, take n (drop off self) @ drop n dst))"
  by (cases "off \<le> length self")
    (simp_all add: BufferBackedFile_read_at_eq, simp add: BufferBackedFile_read_at_def)

end
