(* ===== verification/SST_TableBuilder.thy ===== *)
theory SST_TableBuilder
  imports SST_BlockBuilder SST_BlockHandle SST_FilterBlock SST_Types
begin

text \<open>
  \<open>src/table_builder.rs\<close>: the footer and the table builder. The destination \<open>Dst: Write\<close> is a
  parameter: a record of its operations, whose contract for a destination that accepts
  everything is the locale \<open>append_writer\<close>, interpreted on a byte vector. A method of the
  builder that returns a \<open>Result\<close> returns it together with the builder's state, because the
  state after an error is visible to the caller.
\<close>

section \<open>The destination\<close>

record 'w Write =
  write_fn :: "'w \<Rightarrow> bytes \<Rightarrow> ((io_error + usize) \<times> 'w) run"
  write_fixedint :: "'w \<Rightarrow> u32 \<Rightarrow> ((io_error + usize) \<times> 'w) run"
  flush_fn :: "'w \<Rightarrow> ((io_error + unit) \<times> 'w) run"

locale append_writer =
  fixes D :: deps and W :: "'w Write" and out :: "'w \<Rightarrow> bytes"
  assumes write_appends: "\<exists>w'. write_fn W w bs = Some (Inr (length bs), w') \<and> out w' = out w @ bs"
    and write_fixedint_appends: "\<exists>n w'. write_fixedint W w v = Some (Inr n, w') \<and>
      out w' = out w @ encode_fixed32 D v"
    and flush_keeps: "\<exists>w'. flush_fn W w = Some (Inr (), w') \<and> out w' = out w"

definition vec_write :: "deps \<Rightarrow> bytes Write" where
  "vec_write D =
     \<lparr>write_fn = (\<lambda>w bs. Some (Inr (length bs), w @ bs)),
      write_fixedint = (\<lambda>w v. Some (Inr 4, w @ encode_fixed32 D v)),
      flush_fn = (\<lambda>w. Some (Inr (), w))\<rparr>"

interpretation vec_writer: append_writer D "vec_write D" "\<lambda>w. w" for D
  by unfold_locales (simp_all add: vec_write_def)

section \<open>The footer\<close>

definition FOOTER_LENGTH :: usize where "FOOTER_LENGTH = 40"
definition FULL_FOOTER_LENGTH :: usize where "FULL_FOOTER_LENGTH = FOOTER_LENGTH + 8"
definition MAGIC_FOOTER_ENCODED :: bytes where
  "MAGIC_FOOTER_ENCODED = [0x57, 0xfb, 0x80, 0x8b, 0x24, 0x75, 0x47, 0xdb]"
definition TABLE_BLOCK_COMPRESS_LEN :: usize where "TABLE_BLOCK_COMPRESS_LEN = 1"
definition TABLE_BLOCK_CKSUM_LEN :: usize where "TABLE_BLOCK_CKSUM_LEN = 4"

record Footer =
  ft_meta_index :: BlockHandle
  ft_index :: BlockHandle

definition Footer_new :: "BlockHandle \<Rightarrow> BlockHandle \<Rightarrow> Footer" where
  "Footer_new metaix index = \<lparr>ft_meta_index = metaix, ft_index = index\<rparr>"

definition Footer_decode :: "deps \<Rightarrow> bytes \<Rightarrow> Footer run" where
  "Footer_decode D from =
     do {
       rassert (FULL_FOOTER_LENGTH \<le> length from);
       tail \<leftarrow> slice_from from FOOTER_LENGTH;
       rassert (tail = MAGIC_FOOTER_ENCODED);
       (meta, metalen) \<leftarrow> BlockHandle_decode D from;
       rest \<leftarrow> slice_from from metalen;
       (ix, _) \<leftarrow> BlockHandle_decode D rest;
       Some \<lparr>ft_meta_index = meta, ft_index = ix\<rparr>
     }"

definition Footer_encode :: "deps \<Rightarrow> Footer \<Rightarrow> bytes \<Rightarrow> bytes run" where
  "Footer_encode D self to =
     do {
       rassert (FOOTER_LENGTH + 8 \<le> length to);
       (s1, to) \<leftarrow> BlockHandle_encode_to D (ft_meta_index self) to;
       rest \<leftarrow> slice_from to s1;
       (s2, rest) \<leftarrow> BlockHandle_encode_to D (ft_index self) rest;
       let to = take s1 to @ rest;
       let to = foldl (\<lambda>to i. to[i := 0]) to [s1 + s2..<FOOTER_LENGTH];
       Some (foldl (\<lambda>to i. to[i := MAGIC_FOOTER_ENCODED ! (i - FOOTER_LENGTH)]) to
         [FOOTER_LENGTH..<FULL_FOOTER_LENGTH])
     }"

section \<open>The builder\<close>

record 'w TableBuilder =
  tb_opt :: Options
  tb_dst :: 'w
  tb_offset :: usize
  tb_num_entries :: usize
  tb_prev_block_last_key :: bytes
  tb_data_block :: "BlockBuilder option"
  tb_index_block :: "BlockBuilder option"
  tb_filter_block :: "FilterBlockBuilder option"

type_synonym ('w, 'a) tb_result = "((Status + 'a) \<times> 'w TableBuilder) run"

definition TableBuilder_new :: "Options \<Rightarrow> 'w \<Rightarrow> 'w TableBuilder" where
  "TableBuilder_new opt dst =
     \<lparr>tb_opt = opt, tb_dst = dst, tb_offset = 0, tb_num_entries = 0, tb_prev_block_last_key = [],
      tb_data_block = Some (BlockBuilder_new opt),
      tb_index_block = Some (BlockBuilder_new opt),
      tb_filter_block = Some (FilterBlockBuilder_new (opt_filter_policy opt))\<rparr>"

definition TableBuilder_new_no_filter :: "Options \<Rightarrow> 'w \<Rightarrow> 'w TableBuilder" where
  "TableBuilder_new_no_filter opt dst = TableBuilder_new (opt\<lparr>opt_filter_policy := NoFilterPolicy\<rparr>) dst"

definition TableBuilder_entries :: "'w TableBuilder \<Rightarrow> usize" where
  "TableBuilder_entries self = tb_num_entries self"

definition TableBuilder_size_estimate :: "'w TableBuilder \<Rightarrow> usize" where
  "TableBuilder_size_estimate self =
     (case tb_data_block self of Some b \<Rightarrow> BlockBuilder_size_estimate b | None \<Rightarrow> 0) +
     (case tb_index_block self of Some b \<Rightarrow> BlockBuilder_size_estimate b | None \<Rightarrow> 0) +
     (case tb_filter_block self of Some b \<Rightarrow> FilterBlockBuilder_size_estimate b | None \<Rightarrow> 0) +
     tb_offset self + FULL_FOOTER_LENGTH"

text \<open>The \<open>?\<close> operator on the result of a method, and a call of a method of the destination,
  whose I/O error it converts.\<close>

definition tb_try ::
  "('w, 'a) tb_result \<Rightarrow> ('a \<Rightarrow> 'w TableBuilder \<Rightarrow> ('w, 'b) tb_result) \<Rightarrow> ('w, 'b) tb_result" where
  "tb_try m f =
     (case m of
        None \<Rightarrow> None
      | Some (Inl e, self) \<Rightarrow> Some (Inl e, self)
      | Some (Inr x, self) \<Rightarrow> f x self)"

definition dst_call ::
  "('w \<Rightarrow> ((io_error + 'a) \<times> 'w) run) \<Rightarrow> 'w TableBuilder \<Rightarrow> ('w, 'a) tb_result" where
  "dst_call f self =
     do {
       (r, dst) \<leftarrow> f (tb_dst self);
       Some (case r of Inl e \<Rightarrow> Inl (Status_from_io e) | Inr x \<Rightarrow> Inr x, self\<lparr>tb_dst := dst\<rparr>)
     }"

text \<open>The data that is stored for a block: its contents or their compression.\<close>

definition pack :: "deps \<Rightarrow> CompressionType \<Rightarrow> bytes \<Rightarrow> Status + bytes" where
  "pack D ctype block =
     (if ctype = CompressionSnappy then
        (case snap_compress D block of Inl e \<Rightarrow> Inl (Status_from_snap e) | Inr data \<Rightarrow> Inr data)
      else Inr block)"

definition TableBuilder_write_block ::
  "deps \<Rightarrow> 'w Write \<Rightarrow> 'w TableBuilder \<Rightarrow> bytes \<Rightarrow> CompressionType \<Rightarrow> ('w, BlockHandle) tb_result" where
  "TableBuilder_write_block D W self block ctype =
     (case pack D ctype block of
        Inl e \<Rightarrow> Some (Inl e, self)
      | Inr data \<Rightarrow>
          let tag = replicate TABLE_BLOCK_COMPRESS_LEN (CompressionType_as_u8 ctype);
              digest = crc32_iscsi D (data @ tag)
          in tb_try (dst_call (\<lambda>w. write_fn W w data) self) (\<lambda>_ self.
             tb_try (dst_call (\<lambda>w. write_fn W w tag) self) (\<lambda>_ self.
             tb_try (dst_call (\<lambda>w. write_fixedint W w (mask_crc digest)) self) (\<lambda>_ self.
               do {
                 let handle = BlockHandle_new (tb_offset self) (length data);
                 n \<leftarrow> usize_add (length data) (TABLE_BLOCK_COMPRESS_LEN + TABLE_BLOCK_CKSUM_LEN);
                 offset \<leftarrow> usize_add (tb_offset self) n;
                 Some (Inr handle, self\<lparr>tb_offset := offset\<rparr>)
               }))))"

text \<open>The encoding of a handle in the sixteen bytes reserved for it, and its slice.\<close>

definition encode_handle :: "deps \<Rightarrow> BlockHandle \<Rightarrow> bytes run" where
  "encode_handle D handle =
     do {
       (enc_len, handle_enc) \<leftarrow> BlockHandle_encode_to D handle (replicate 16 0);
       vec_slice handle_enc 0 enc_len
     }"

definition TableBuilder_write_data_block ::
  "deps \<Rightarrow> 'w Write \<Rightarrow> 'w TableBuilder \<Rightarrow> bytes \<Rightarrow> ('w, unit) tb_result" where
  "TableBuilder_write_data_block D W self next_key =
     do {
       block \<leftarrow> tb_data_block self;
       let self = self\<lparr>tb_data_block := None\<rparr>;
       sep \<leftarrow> find_shortest_sep (opt_cmp (tb_opt self)) (BlockBuilder_last_key block) next_key;
       let self = self\<lparr>tb_prev_block_last_key := BlockBuilder_last_key block\<rparr>;
       let contents = BlockBuilder_finish D block;
       let ctype = compression_type (tb_opt self);
       tb_try (TableBuilder_write_block D W self contents ctype) (\<lambda>handle self.
         do {
           enc \<leftarrow> encode_handle D handle;
           index_block \<leftarrow> tb_index_block self;
           index_block \<leftarrow> BlockBuilder_add D index_block sep enc;
           let self = self\<lparr>tb_index_block := Some index_block,
                           tb_data_block := Some (BlockBuilder_new (tb_opt self))\<rparr>;
           case tb_filter_block self of
             None \<Rightarrow> Some (Inr (), self)
           | Some fblock \<Rightarrow>
               do {
                 fblock \<leftarrow> FilterBlockBuilder_start_block fblock (tb_offset self);
                 Some (Inr (), self\<lparr>tb_filter_block := Some fblock\<rparr>)
               }
         })
     }"

text \<open>The part of \<open>add\<close> after the data block was written, if it was full.\<close>

definition TableBuilder_add_entry ::
  "deps \<Rightarrow> 'w TableBuilder \<Rightarrow> bytes \<Rightarrow> bytes \<Rightarrow> ('w, unit) tb_result" where
  "TableBuilder_add_entry D self key val =
     do {
       dblock \<leftarrow> tb_data_block self;
       let self = self\<lparr>tb_filter_block :=
         map_option (\<lambda>fblock. FilterBlockBuilder_add_key fblock key) (tb_filter_block self)\<rparr>;
       n \<leftarrow> usize_add (tb_num_entries self) 1;
       dblock \<leftarrow> BlockBuilder_add D dblock key val;
       Some (Inr (), self\<lparr>tb_num_entries := n, tb_data_block := Some dblock\<rparr>)
     }"

definition TableBuilder_add ::
  "deps \<Rightarrow> 'w Write \<Rightarrow> 'w TableBuilder \<Rightarrow> bytes \<Rightarrow> bytes \<Rightarrow> ('w, unit) tb_result" where
  "TableBuilder_add D W self key val =
     do {
       dblock \<leftarrow> tb_data_block self;
       rassert (tb_prev_block_last_key self \<noteq> [] \<longrightarrow>
         cmp (opt_cmp (tb_opt self)) (tb_prev_block_last_key self) key = Less);
       tb_try
         (if BlockBuilder_size_estimate dblock > block_size (tb_opt self)
          then TableBuilder_write_data_block D W self key
          else Some (Inr (), self))
         (\<lambda>_ self. TableBuilder_add_entry D self key val)
     }"

text \<open>The bytes of a string literal or formatted string of ASCII characters.\<close>

definition as_bytes :: "string \<Rightarrow> bytes" where
  "as_bytes s = map of_char s"

definition filter_block_name :: "string \<Rightarrow> bytes" where
  "filter_block_name name = as_bytes (''filter.'' @ name)"

text \<open>The part of \<open>finish\<close> that writes the filter block and enters it into the metaindex block.\<close>

definition TableBuilder_finish_filter ::
  "deps \<Rightarrow> 'w Write \<Rightarrow> 'w TableBuilder \<Rightarrow> ('w, BlockBuilder) tb_result" where
  "TableBuilder_finish_filter D W self =
     (let meta_ix_block = BlockBuilder_new (tb_opt self) in
      case tb_filter_block self of
        None \<Rightarrow> Some (Inr meta_ix_block, self)
      | Some fblock \<Rightarrow>
          do {
            let self = self\<lparr>tb_filter_block := None\<rparr>;
            let filter_key = filter_block_name (FilterBlockBuilder_filter_name fblock);
            fblock_data \<leftarrow> FilterBlockBuilder_finish D fblock;
            tb_try (TableBuilder_write_block D W self fblock_data CompressionNone) (\<lambda>handle self.
              do {
                enc \<leftarrow> encode_handle D handle;
                meta_ix_block \<leftarrow> BlockBuilder_add D meta_ix_block filter_key enc;
                Some (Inr meta_ix_block, self)
              })
          })"

definition TableBuilder_finish_footer ::
  "deps \<Rightarrow> 'w Write \<Rightarrow> 'w TableBuilder \<Rightarrow> BlockHandle \<Rightarrow> BlockHandle \<Rightarrow> ('w, usize) tb_result" where
  "TableBuilder_finish_footer D W self meta_ix_handle ix_handle =
     do {
       let footer = Footer_new meta_ix_handle ix_handle;
       buf \<leftarrow> Footer_encode D footer (replicate FULL_FOOTER_LENGTH 0);
       tb_try (dst_call (\<lambda>w. write_fn W w buf) self) (\<lambda>n self.
         do {
           offset \<leftarrow> usize_add (tb_offset self) n;
           let self = self\<lparr>tb_offset := offset\<rparr>;
           tb_try (dst_call (flush_fn W) self) (\<lambda>_ self. Some (Inr (tb_offset self), self))
         })
     }"

definition TableBuilder_finish ::
  "deps \<Rightarrow> 'w Write \<Rightarrow> 'w TableBuilder \<Rightarrow> ('w, usize) tb_result" where
  "TableBuilder_finish D W self =
     do {
       dblock \<leftarrow> tb_data_block self;
       let ctype = compression_type (tb_opt self);
       tb_try
         (if BlockBuilder_entries dblock > 0
          then TableBuilder_write_data_block D W self
                 (find_short_succ (opt_cmp (tb_opt self)) (BlockBuilder_last_key dblock))
          else Some (Inr (), self))
         (\<lambda>_ self.
       tb_try (TableBuilder_finish_filter D W self) (\<lambda>meta_ix_block self.
       tb_try (TableBuilder_write_block D W self (BlockBuilder_finish D meta_ix_block) ctype)
         (\<lambda>meta_ix_handle self.
           do {
             index_block \<leftarrow> tb_index_block self;
             let self = self\<lparr>tb_index_block := None\<rparr>;
             tb_try (TableBuilder_write_block D W self (BlockBuilder_finish D index_block) ctype)
               (\<lambda>ix_handle self. TableBuilder_finish_footer D W self meta_ix_handle ix_handle)
           })))
     }"

section \<open>The footer's bytes\<close>

definition footer_bytes :: "deps \<Rightarrow> Footer \<Rightarrow> bytes" where
  "footer_bytes D ft =
     (let hs = handle_bytes D (ft_meta_index ft) @ handle_bytes D (ft_index ft)
      in hs @ replicate (40 - length hs) 0 @ MAGIC_FOOTER_ENCODED)"

definition footer_ok :: "Footer \<Rightarrow> bool" where
  "footer_ok ft \<longleftrightarrow> handle_ok (ft_meta_index ft) \<and> handle_ok (ft_index ft)"

lemmas footer_consts = FOOTER_LENGTH_def FULL_FOOTER_LENGTH_def

lemma length_MAGIC [simp]: "length MAGIC_FOOTER_ENCODED = 8"
  by (simp add: MAGIC_FOOTER_ENCODED_def)

context integer_codec
begin

lemma handle_bytes_max: "handle_ok h \<Longrightarrow> length (handle_bytes D h) \<le> 20"
  using length_encode_var_max [of "bh_offset h"] length_encode_var_max [of "bh_size h"]
  by (simp add: handle_bytes_def handle_ok_def)

lemma footer_bytes_length: "footer_ok ft \<Longrightarrow> length (footer_bytes D ft) = 48"
  using handle_bytes_max [of "ft_meta_index ft"] handle_bytes_max [of "ft_index ft"]
  by (simp add: footer_bytes_def footer_ok_def Let_def)

lemma Footer_encode_eq:
  assumes ft: "footer_ok ft" and len: "length to = 48"
  shows "Footer_encode D ft to = Some (footer_bytes D ft)"
proof -
  let ?m = "handle_bytes D (ft_meta_index ft)" and ?i = "handle_bytes D (ft_index ft)"
  have m: "length ?m \<le> 20" and i: "length ?i \<le> 20"
    using ft handle_bytes_max by (simp_all add: footer_ok_def)
  let ?rest = "drop (length ?m) to"
  let ?to = "?m @ ?i @ drop (length ?m + length ?i) to"
  have 1: "BlockHandle_encode_to D (ft_meta_index ft) to = Some (length ?m, ?m @ ?rest)"
    using m len by (simp add: encode_to_eq)
  have 2: "BlockHandle_encode_to D (ft_index ft) ?rest = Some (length ?i, ?i @ drop (length ?i) ?rest)"
    using m i len by (simp add: encode_to_eq)
  have zeros: "foldl (\<lambda>to i. to[i := 0]) ?to [length ?m + length ?i..<FOOTER_LENGTH] =
      ?m @ ?i @ replicate (40 - (length ?m + length ?i)) 0 @ drop 40 to"
    using m i len foldl_update_range [of "length ?m + length ?i" 40 ?to "\<lambda>_. 0"]
    by (simp add: footer_consts map_replicate_const)
  let ?to2 = "?m @ ?i @ replicate (40 - (length ?m + length ?i)) 0 @ drop 40 to"
  have magic: "foldl (\<lambda>to i. to[i := MAGIC_FOOTER_ENCODED ! (i - FOOTER_LENGTH)]) ?to2
      [FOOTER_LENGTH..<FULL_FOOTER_LENGTH] =
      take 40 ?to2 @ map (\<lambda>i. MAGIC_FOOTER_ENCODED ! (i - 40)) [40..<48]"
    using m i len foldl_update_range [of 40 48 ?to2 "\<lambda>i. MAGIC_FOOTER_ENCODED ! (i - 40)"]
    by (simp add: footer_consts)
  have "map (\<lambda>i. MAGIC_FOOTER_ENCODED ! (i - 40)) [40..<48] = MAGIC_FOOTER_ENCODED"
    by (simp add: MAGIC_FOOTER_ENCODED_def upt_rec)
  moreover have "slice_from (?m @ ?rest) (length ?m) = Some ?rest" by (simp add: slice_from_def)
  ultimately show ?thesis
    using m i len 1 2 zeros magic
    by (simp add: Footer_encode_def footer_bytes_def footer_consts Let_def add.commute)
qed

lemma Footer_decode_eq:
  assumes ft: "footer_ok ft"
  shows "Footer_decode D (footer_bytes D ft) = Some ft"
proof -
  let ?m = "handle_bytes D (ft_meta_index ft)" and ?i = "handle_bytes D (ft_index ft)"
  let ?pad = "replicate (40 - length (?m @ ?i)) 0 @ MAGIC_FOOTER_ENCODED"
  have m: "length ?m \<le> 20" and i: "length ?i \<le> 20"
    using ft handle_bytes_max by (simp_all add: footer_ok_def)
  have bytes: "footer_bytes D ft = ?m @ ?i @ ?pad" by (simp add: footer_bytes_def Let_def)
  have len: "length (footer_bytes D ft) = 48" by (rule footer_bytes_length [OF ft])
  have "slice_from (footer_bytes D ft) 40 = Some MAGIC_FOOTER_ENCODED"
    using m i by (simp add: slice_from_def len) (simp add: bytes)
  moreover have "slice_from (footer_bytes D ft) (length ?m) = Some (?i @ ?pad)"
    by (simp add: bytes slice_from_def)
  moreover have "BlockHandle_decode D (footer_bytes D ft) = Some (ft_meta_index ft, length ?m)"
    using ft decode_handle_bytes [of "ft_meta_index ft" "?i @ ?pad"] by (simp add: bytes footer_ok_def)
  moreover have "BlockHandle_decode D (?i @ ?pad) = Some (ft_index ft, length ?i)"
    using ft decode_handle_bytes [of "ft_index ft" ?pad] by (simp add: footer_ok_def)
  ultimately show ?thesis
    using len by (simp add: Footer_decode_def footer_consts)
qed

end

section \<open>Stored blocks\<close>

text \<open>A block in a file: its packed contents, the compression type and the masked checksum.\<close>

definition sealed :: "deps \<Rightarrow> CompressionType \<Rightarrow> bytes \<Rightarrow> bytes" where
  "sealed D ctype data =
     data @ [CompressionType_as_u8 ctype] @
     encode_fixed32 D (mask_crc (crc32_iscsi D (data @ [CompressionType_as_u8 ctype])))"

definition stored :: "deps \<Rightarrow> bytes \<Rightarrow> BlockHandle \<Rightarrow> bytes \<Rightarrow> bool" where
  "stored D file h contents \<longleftrightarrow>
     (\<exists>ctype data pre rest. pack D ctype contents = Inr data \<and> file = pre @ sealed D ctype data @ rest \<and>
        h = BlockHandle_new (length pre) (length data))"

lemma stored_append: "stored D file h contents \<Longrightarrow> stored D (file @ more_bytes) h contents"
  unfolding stored_def by force

lemma stored_offset: "stored D file h contents \<Longrightarrow> bh_offset h < length file"
  by (auto simp: stored_def sealed_def)

lemma stored_end:
  "integer_codec D \<Longrightarrow> stored D file h contents \<Longrightarrow> bh_offset h + bh_size h + 5 \<le> length file"
  by (auto simp: stored_def sealed_def integer_codec.length_encode_fixed32)

lemma stored_last:
  "pack D ctype contents = Inr data \<Longrightarrow>
   stored D (file @ sealed D ctype data) (BlockHandle_new (length file) (length data)) contents"
  unfolding stored_def by force

lemma tb_try_simps [simp]:
  "tb_try None f = None"
  "tb_try (Some (Inl e, self)) f = Some (Inl e, self)"
  "tb_try (Some (Inr x, self)) f = f x self"
  by (simp_all add: tb_try_def)

locale table_writer = append_writer D W out + integer_codec D
  for D :: deps and W :: "'w Write" and out :: "'w \<Rightarrow> bytes"
begin

lemma length_sealed [simp]: "length (sealed D ctype data) = length data + 5"
  by (simp add: sealed_def length_encode_fixed32)

lemma write_call:
  "\<exists>w'. dst_call (\<lambda>w. write_fn W w bs) self = Some (Inr (length bs), self\<lparr>tb_dst := w'\<rparr>) \<and>
     out w' = out (tb_dst self) @ bs"
  using write_appends [of "tb_dst self" bs] by (auto simp: dst_call_def)

lemma write_fixedint_call:
  "\<exists>n w'. dst_call (\<lambda>w. write_fixedint W w v) self = Some (Inr n, self\<lparr>tb_dst := w'\<rparr>) \<and>
     out w' = out (tb_dst self) @ encode_fixed32 D v"
  using write_fixedint_appends [of "tb_dst self" v] by (auto simp: dst_call_def)

lemma flush_call:
  "\<exists>w'. dst_call (flush_fn W) self = Some (Inr (), self\<lparr>tb_dst := w'\<rparr>) \<and> out w' = out (tb_dst self)"
  using flush_keeps [of "tb_dst self"] by (auto simp: dst_call_def)

lemma write_block_eq:
  assumes data: "pack D ctype block = Inr data"
    and bound: "tb_offset self + length data + 5 < 2 ^ 64"
  shows "\<exists>w'. TableBuilder_write_block D W self block ctype =
      Some (Inr (BlockHandle_new (tb_offset self) (length data)),
        self\<lparr>tb_dst := w', tb_offset := tb_offset self + length data + 5\<rparr>) \<and>
    out w' = out (tb_dst self) @ sealed D ctype data"
proof -
  let ?tag = "[CompressionType_as_u8 ctype]"
  let ?c = "mask_crc (crc32_iscsi D (data @ ?tag))"
  obtain w1 where w1: "dst_call (\<lambda>w. write_fn W w data) self = Some (Inr (length data), self\<lparr>tb_dst := w1\<rparr>)"
    "out w1 = out (tb_dst self) @ data" using write_call [of data self] by blast
  obtain w2 where w2: "dst_call (\<lambda>w. write_fn W w ?tag) (self\<lparr>tb_dst := w1\<rparr>) =
      Some (Inr (length ?tag), self\<lparr>tb_dst := w2\<rparr>)"
    "out w2 = out w1 @ ?tag" using write_call [of ?tag "self\<lparr>tb_dst := w1\<rparr>"] by auto
  obtain n w3 where w3: "dst_call (\<lambda>w. write_fixedint W w ?c) (self\<lparr>tb_dst := w2\<rparr>) =
      Some (Inr n, self\<lparr>tb_dst := w3\<rparr>)"
    "out w3 = out w2 @ encode_fixed32 D ?c" using write_fixedint_call [of ?c "self\<lparr>tb_dst := w2\<rparr>"] by auto
  have "TableBuilder_write_block D W self block ctype =
      Some (Inr (BlockHandle_new (tb_offset self) (length data)),
        self\<lparr>tb_dst := w3, tb_offset := tb_offset self + length data + 5\<rparr>)"
    using data w1(1) w2(1) w3(1) bound
    by (simp add: TableBuilder_write_block_def TABLE_BLOCK_COMPRESS_LEN_def TABLE_BLOCK_CKSUM_LEN_def
        run_simps Let_def add.assoc)
  moreover have "out w3 = out (tb_dst self) @ sealed D ctype data"
    using w1(2) w2(2) w3(2) by (simp add: sealed_def)
  ultimately show ?thesis by blast
qed

lemma encode_handle_eq:
  assumes "length (handle_bytes D h) \<le> 16"
  shows "encode_handle D h = Some (handle_bytes D h)"
  using assms by (simp add: encode_handle_def encode_to_eq vec_slice_def)

end

interpretation vec_table: table_writer reference_deps "vec_write reference_deps" "\<lambda>w. w"
  by unfold_locales

end
