(* ===== verification/SST_TableFormat.thy ===== *)
theory SST_TableFormat
  imports SST_TableBuilder
begin

text \<open>
  The format of a table file, as a specification: data blocks with their separators and
  entries, an index block that maps each separator to its block's handle, a filter block, a
  metaindex block with the filter block's handle, and the footer. The builder establishes
  \<open>table_file\<close>, the reader relies on it, and neither knows the other's definitions.
\<close>

section \<open>Data blocks\<close>

record data_block =
  db_handle :: BlockHandle
  db_sep :: bytes
  db_entries :: "(bytes \<times> bytes) list"

abbreviation db_keys :: "data_block \<Rightarrow> bytes set" where
  "db_keys b \<equiv> fst ` set (db_entries b)"

definition holds_entries :: "deps \<Rightarrow> bytes \<Rightarrow> (bytes \<times> bytes) list \<Rightarrow> bool" where
  "holds_entries D contents kvs \<longleftrightarrow> (\<exists>es rs. block_layout D es rs contents \<and> map snd es = kvs)"

definition data_ok :: "deps \<Rightarrow> bytes \<Rightarrow> data_block \<Rightarrow> bool" where
  "data_ok D file b \<longleftrightarrow>
     db_entries b \<noteq> [] \<and> handle_ok (db_handle b) \<and>
     (\<exists>contents. stored D file (db_handle b) contents \<and> holds_entries D contents (db_entries b))"

text \<open>
  A separator is above every key of its block. It was made for the last key of the block and a
  key \<open>x\<close> above it that is not above any key of the blocks that follow.
\<close>

definition sep_before :: "Cmp \<Rightarrow> data_block \<Rightarrow> bytes \<Rightarrow> bool" where
  "sep_before C b k \<longleftrightarrow>
     (\<exists>x. cmp C (fst (last (db_entries b))) x = Less \<and>
        find_shortest_sep C (fst (last (db_entries b))) x = Some (db_sep b) \<and> cmp C x k \<noteq> Greater)"

text \<open>The separator of a block that is followed by a block with first key \<open>k\<close>.\<close>

definition sep_made :: "Cmp \<Rightarrow> data_block \<Rightarrow> bytes \<Rightarrow> bool" where
  "sep_made C b k \<longleftrightarrow> find_shortest_sep C (fst (last (db_entries b))) k = Some (db_sep b)"

definition seps_made :: "Cmp \<Rightarrow> data_block list \<Rightarrow> bool" where
  "seps_made C blocks \<longleftrightarrow>
     (\<forall>i. Suc i < length blocks \<longrightarrow> sep_made C (blocks ! i) (fst (hd (db_entries (blocks ! Suc i)))))"

lemma seps_made_snoc:
  "seps_made C (blocks @ [b]) \<longleftrightarrow>
   seps_made C blocks \<and> (blocks \<noteq> [] \<longrightarrow> sep_made C (last blocks) (fst (hd (db_entries b))))"
proof -
  have "last blocks = blocks ! i" if "Suc i = length blocks" for i
    using that by (metis diff_Suc_1 last_conv_nth length_0_conv nat.distinct(1))
  then show ?thesis
    by (cases blocks rule: rev_cases)
      (auto simp: seps_made_def nth_append less_Suc_eq split: if_splits)
qed

definition separated :: "Cmp \<Rightarrow> data_block list \<Rightarrow> bool" where
  "separated C blocks \<longleftrightarrow>
     (\<forall>b \<in> set blocks. \<forall>k \<in> db_keys b. cmp C k (db_sep b) = Less) \<and>
     sorted_wrt (\<lambda>b b'. \<forall>k \<in> db_keys b'. sep_before C b k) blocks"

context comparator
begin

lemma sep_before_upto:
  assumes "sep_before C b k"
  shows "cmp C (db_sep b) k \<noteq> Greater"
proof -
  obtain x where "cmp C (fst (last (db_entries b))) x = Less"
    "find_shortest_sep C (fst (last (db_entries b))) x = Some (db_sep b)" "cmp C x k \<noteq> Greater"
    using assms by (auto simp: sep_before_def)
  then show ?thesis using cmp_trans [OF sep_upto] by blast
qed

lemma sep_before_mono:
  assumes "sep_before C b k" "cmp C k k' \<noteq> Greater"
  shows "sep_before C b k'"
proof -
  obtain x where x: "cmp C (fst (last (db_entries b))) x = Less"
    "find_shortest_sep C (fst (last (db_entries b))) x = Some (db_sep b)" "cmp C x k \<noteq> Greater"
    using assms by (auto simp: sep_before_def)
  from cmp_trans [OF x(3) assms(2)] x(1,2) show ?thesis by (auto simp: sep_before_def)
qed

end

definition all_entries :: "data_block list \<Rightarrow> (bytes \<times> bytes) list" where
  "all_entries blocks = concat (map db_entries blocks)"

definition index_entries :: "deps \<Rightarrow> data_block list \<Rightarrow> (bytes \<times> bytes) list" where
  "index_entries D blocks = map (\<lambda>b. (db_sep b, handle_bytes D (db_handle b))) blocks"

text \<open>The blocks lie one after the other, each followed by its type byte and checksum.\<close>

definition block_end :: "data_block \<Rightarrow> nat" where
  "block_end b = bh_offset (db_handle b) + bh_size (db_handle b) + 5"

definition laid_out :: "nat \<Rightarrow> data_block list \<Rightarrow> bool" where
  "laid_out n blocks \<longleftrightarrow>
     (\<forall>b \<in> set blocks. block_end b \<le> n) \<and>
     sorted_wrt (\<lambda>b b'. block_end b \<le> bh_offset (db_handle b')) blocks"

lemma laid_out_Nil [simp]: "laid_out n []"
  by (simp add: laid_out_def)

lemma laid_out_snoc:
  assumes "laid_out m blocks" "m \<le> bh_offset (db_handle b)" "block_end b \<le> n"
  shows "laid_out n (blocks @ [b])"
proof -
  have "m \<le> n" using assms(2,3) by (simp add: block_end_def)
  then show ?thesis using assms by (auto simp: laid_out_def sorted_wrt_append)
qed

lemma laid_out_mono: "laid_out m blocks \<Longrightarrow> m \<le> n \<Longrightarrow> laid_out n blocks"
  by (auto simp: laid_out_def)

lemma laid_out_offsets:
  assumes "laid_out n blocks"
  shows "sorted_wrt (<) (map (\<lambda>b. bh_offset (db_handle b)) blocks)"
proof -
  have "sorted_wrt (\<lambda>b b'. block_end b \<le> bh_offset (db_handle b')) blocks"
    using assms by (simp add: laid_out_def)
  then show ?thesis
    unfolding sorted_wrt_map by (rule sorted_wrt_mono_rel [rotated]) (simp add: block_end_def)
qed

lemma laid_out_distinct: "laid_out n blocks \<Longrightarrow> distinct (map (\<lambda>b. bh_offset (db_handle b)) blocks)"
  using laid_out_offsets strict_sorted_iff by blast

lemma laid_out_end: "laid_out n blocks \<Longrightarrow> b \<in> set blocks \<Longrightarrow> bh_offset (db_handle b) \<le> n"
  by (force simp: laid_out_def block_end_def)

text \<open>A search with a weaker condition stops at an earlier offset.\<close>

lemma laid_out_find_mono:
  assumes "laid_out n blocks" "n \<le> m" "\<And>b. P' b \<Longrightarrow> P b"
  shows "(case find P blocks of Some b \<Rightarrow> bh_offset (db_handle b) | None \<Rightarrow> m) \<le>
    (case find P' blocks of Some b \<Rightarrow> bh_offset (db_handle b) | None \<Rightarrow> m)"
  using assms(1)
proof (induction blocks)
  case (Cons b bs)
  then have "laid_out n bs" "\<forall>b' \<in> set bs. bh_offset (db_handle b) \<le> bh_offset (db_handle b')"
    by (auto simp: laid_out_def block_end_def)
  moreover have "bh_offset (db_handle b) \<le> m" using laid_out_end [OF Cons.prems, of b] assms(2) by simp
  ultimately show ?case
    using Cons.IH assms(3) [of b] by (auto split: option.split simp: find_Some_iff)
qed simp

text \<open>The keys with the offset of their block, as the filter block records them.\<close>

definition table_records :: "data_block list \<Rightarrow> (usize \<times> bytes) list" where
  "table_records blocks =
     concat (map (\<lambda>b. map (\<lambda>e. (bh_offset (db_handle b), fst e)) (db_entries b)) blocks)"

lemma block_lists_simps [simp]:
  "all_entries [] = []" "all_entries (bs @ [b]) = all_entries bs @ db_entries b"
  "index_entries D [] = []"
  "index_entries D (bs @ [b]) = index_entries D bs @ [(db_sep b, handle_bytes D (db_handle b))]"
  "table_records [] = []"
  "table_records (bs @ [b]) =
     table_records bs @ map (\<lambda>e. (bh_offset (db_handle b), fst e)) (db_entries b)"
  by (simp_all add: all_entries_def index_entries_def table_records_def)

lemma table_records_keys: "map snd (table_records blocks) = map fst (all_entries blocks)"
  by (induction blocks) (simp_all add: table_records_def all_entries_def comp_def)

lemma data_ok_append: "data_ok D file b \<Longrightarrow> data_ok D (file @ more_bytes) b"
  unfolding data_ok_def by (blast intro: stored_append)

lemma separated_snoc:
  "separated C (blocks @ [b]) \<longleftrightarrow>
   separated C blocks \<and> (\<forall>k \<in> db_keys b. cmp C k (db_sep b) = Less) \<and>
   (\<forall>b' \<in> set blocks. \<forall>k \<in> db_keys b. sep_before C b' k)"
  by (auto simp: separated_def sorted_wrt_append)

section \<open>The file\<close>

text \<open>A filter of each 2 KiB range, created from the keys of the blocks that start in it.\<close>

definition filters_for :: "FilterPolicy \<Rightarrow> bytes list \<Rightarrow> (usize \<times> bytes) list \<Rightarrow> bool" where
  "filters_for P fs recs \<longleftrightarrow>
     (\<exists>groups b. fbb_state P b fs groups [] \<and> recorded fs groups [] recs)"

definition data_blocks :: "deps \<Rightarrow> Cmp \<Rightarrow> bytes \<Rightarrow> data_block list \<Rightarrow> bool" where
  "data_blocks D C file blocks \<longleftrightarrow>
     (\<forall>b \<in> set blocks. data_ok D file b) \<and> separated C blocks \<and> seps_made C blocks \<and>
     ascending C (map fst (all_entries blocks)) \<and>
     [] \<notin> fst ` set (all_entries blocks) \<and> [] \<notin> db_sep ` set blocks \<and>
     laid_out (length file) blocks"

text \<open>What follows the data blocks, which end at \<open>n\<close>.\<close>

definition table_tail :: "deps \<Rightarrow> Options \<Rightarrow> nat \<Rightarrow> bytes \<Rightarrow> data_block list \<Rightarrow> Footer \<Rightarrow> bool" where
  "table_tail D opt n file blocks ft \<longleftrightarrow>
     laid_out n blocks \<and> n \<le> bh_offset (ft_index ft) \<and> n \<le> bh_offset (ft_meta_index ft) \<and>
     (\<exists>fh fs index meta body pre rest.
        file = body @ footer_bytes D ft \<and> footer_ok ft \<and> n \<le> length body \<and>
        stored D file (ft_index ft) index \<and> holds_entries D index (index_entries D blocks) \<and>
        stored D file (ft_meta_index ft) meta \<and>
        holds_entries D meta
          [(filter_block_name (policy_name (opt_filter_policy opt)), handle_bytes D fh)] \<and>
        file = pre @ filter_block_bytes D fs @ rest \<and> n \<le> length pre \<and>
        fh = BlockHandle_new (length pre) (length (filter_block_bytes D fs)) \<and> handle_ok fh \<and>
        filters_for (opt_filter_policy opt) fs (table_records blocks) \<and>
        fs = filters_of (opt_filter_policy opt) (table_records blocks) n)"

definition table_file :: "deps \<Rightarrow> Options \<Rightarrow> bytes \<Rightarrow> data_block list \<Rightarrow> bool" where
  "table_file D opt file blocks \<longleftrightarrow>
     data_blocks D (opt_cmp opt) file blocks \<and> (\<exists>n ft. table_tail D opt n file blocks ft)"

text \<open>The rest of a file does not depend on the bytes of its data blocks.\<close>

lemma append_change:
  assumes "file = xs @ ys" "n \<le> length xs" "drop n file' = drop n file" "length file' = length file"
  shows "\<exists>xs'. file' = xs' @ ys \<and> length xs' = length xs"
proof -
  have "drop (length xs) file' = drop (length xs - n) (drop n file')" using assms(2) by simp
  also have "\<dots> = ys" using assms(1,2) unfolding assms(3) by simp
  finally have "file' = take (length xs) file' @ ys"
    by (metis append_take_drop_id)
  moreover have "length (take (length xs) file') = length xs" using assms(1,4) by simp
  ultimately show ?thesis by blast
qed

lemma stored_change:
  assumes "stored D file h contents" "n \<le> bh_offset h" "drop n file' = drop n file" "length file' = length file"
  shows "stored D file' h contents"
proof -
  obtain ctype data pre rest where s: "pack D ctype contents = Inr data"
    "file = pre @ sealed D ctype data @ rest" "h = BlockHandle_new (length pre) (length data)"
    using assms(1) by (auto simp: stored_def)
  from append_change [OF s(2) _ assms(3,4)] assms(2) s(3) obtain pre' where
    "file' = pre' @ sealed D ctype data @ rest" "length pre' = length pre" by auto
  with s(1,3) show ?thesis unfolding stored_def by metis
qed

lemma table_tail_change:
  assumes tail: "table_tail D opt n file blocks ft" and change: "drop n file' = drop n file" "length file' = length file"
  shows "table_tail D opt n file' blocks ft"
proof -
  obtain fh fs index meta body pre rest where t: "laid_out n blocks"
    "n \<le> bh_offset (ft_index ft)" "n \<le> bh_offset (ft_meta_index ft)"
    "file = body @ footer_bytes D ft" "footer_ok ft" "n \<le> length body"
    "stored D file (ft_index ft) index" "holds_entries D index (index_entries D blocks)"
    "stored D file (ft_meta_index ft) meta"
    "holds_entries D meta [(filter_block_name (policy_name (opt_filter_policy opt)), handle_bytes D fh)]"
    "file = pre @ filter_block_bytes D fs @ rest" "n \<le> length pre"
    "fh = BlockHandle_new (length pre) (length (filter_block_bytes D fs))" "handle_ok fh"
    "filters_for (opt_filter_policy opt) fs (table_records blocks)"
    "fs = filters_of (opt_filter_policy opt) (table_records blocks) n"
    using tail unfolding table_tail_def by (elim conjE exE)
  obtain body' where body': "file' = body' @ footer_bytes D ft" "length body' = length body"
    using append_change [OF t(4,6) change] by blast
  obtain pre' where pre': "file' = pre' @ filter_block_bytes D fs @ rest" "length pre' = length pre"
    using append_change [OF t(11,12) change] by blast
  note stored' = stored_change [OF t(7,2) change] stored_change [OF t(9,3) change]
  have rest': "n \<le> length body'" "n \<le> length pre'"
    "fh = BlockHandle_new (length pre') (length (filter_block_bytes D fs))"
    using t(6,12,13) body'(2) pre'(2) by simp_all
  show ?thesis
    unfolding table_tail_def
    by (rule conjI [OF t(1) conjI [OF t(2) conjI [OF t(3)]]], rule exI [of _ fh], rule exI [of _ fs], rule exI [of _ index], rule exI [of _ meta], rule exI [of _ body'],
        rule exI [of _ pre'], rule exI [of _ rest], intro conjI) (fact t stored' rest' body'(1) pre'(1))+
qed

text \<open>The index block is itself ascending.\<close>

lemma separated_ascending:
  assumes "comparator C" "separated C blocks" "\<forall>b \<in> set blocks. db_entries b \<noteq> []"
  shows "ascending C (map db_sep blocks)"
  unfolding ascending_def sorted_wrt_map
proof -
  have step: "cmp C (db_sep b) (db_sep b') = Less"
    if "b' \<in> set blocks" "\<forall>k \<in> db_keys b'. sep_before C b k" for b b'
  proof -
    have "db_entries b' \<noteq> []" using that(1) assms(3) by blast
    then obtain k where k: "k \<in> db_keys b'" by (cases "db_entries b'") auto
    then have "cmp C k (db_sep b') = Less" using assms(2) that(1) by (auto simp: separated_def)
    moreover from that(2) k have "sep_before C b k" by blast
    then have "cmp C (db_sep b) k \<noteq> Greater" by (rule comparator.sep_before_upto [OF assms(1)])
    ultimately show ?thesis by (blast intro: comparator.cmp_le_less_trans [OF assms(1)])
  qed
  have "sorted_wrt (\<lambda>b b'. \<forall>k \<in> db_keys b'. sep_before C b k) blocks"
    using assms(2) by (simp add: separated_def)
  then show "sorted_wrt (\<lambda>b b'. cmp C (db_sep b) (db_sep b') = Less) blocks"
    by (rule sorted_wrt_mono_rel [rotated]) (rule step)
qed

end
