(* ===== verification/SST_Reference.thy ===== *)
theory SST_Reference
  imports SST_TableFormat "HOL-Library.Sublist"
begin

text \<open>
  The table format as a function: the bytes of a block, the way entries are cut into data blocks
  and the bytes of the whole file, each computed from the entries and the options alone. The
  builders of \<open>src/block_builder.rs\<close> and \<open>src/table_builder.rs\<close> compute the same bytes one
  entry at a time, with state; here the block builder is proved to.
\<close>

section \<open>A block\<close>

text \<open>Every \<open>n\<close>th entry stores its whole key, the others leave out what they share with the key before.\<close>

definition ref_shared :: "nat \<Rightarrow> (bytes \<times> bytes) list \<Rightarrow> nat \<Rightarrow> nat" where
  "ref_shared n kvs i =
     (if i mod n = 0 then 0 else length (longest_common_prefix (fst (kvs ! (i - 1))) (fst (kvs ! i))))"

definition ref_entries :: "nat \<Rightarrow> (bytes \<times> bytes) list \<Rightarrow> entry list" where
  "ref_entries n kvs = map (\<lambda>i. (ref_shared n kvs i, kvs ! i)) [0..<length kvs]"

definition ref_restarts :: "nat \<Rightarrow> nat \<Rightarrow> nat list" where
  "ref_restarts n len = 0 # filter (\<lambda>i. i mod n = 0) [1..<len]"

definition ref_block :: "deps \<Rightarrow> Options \<Rightarrow> (bytes \<times> bytes) list \<Rightarrow> bytes" where
  "ref_block D opt kvs =
     block_bytes D (ref_entries (block_restart_interval opt) kvs)
       (ref_restarts (block_restart_interval opt) (length kvs))"

lemma ref_entries_Nil [simp]: "ref_entries n [] = []"
  by (simp add: ref_entries_def)

lemma length_ref_entries [simp]: "length (ref_entries n kvs) = length kvs"
  by (simp add: ref_entries_def)

lemma ref_entries_snoc:
  "ref_entries n (kvs @ [e]) = ref_entries n kvs @ [(ref_shared n (kvs @ [e]) (length kvs), e)]"
  by (auto simp: ref_entries_def ref_shared_def nth_append)

lemma ref_restarts_Suc:
  "ref_restarts n (Suc len) = ref_restarts n len @ (if 0 < len \<and> len mod n = 0 then [len] else [])"
  by (cases len) (simp_all add: ref_restarts_def)

lemma ref_restarts_le: "r \<in> set (ref_restarts n len) \<Longrightarrow> r \<le> len"
  by (auto simp: ref_restarts_def)

text \<open>What \<open>add\<close> finds as the shared prefix is the longest common one.\<close>

lemma longest_common_prefix_length:
  "take p l = take p k \<Longrightarrow> p \<le> length l \<Longrightarrow> p \<le> length k \<Longrightarrow>
   p = length l \<or> p = length k \<or> l ! p \<noteq> k ! p \<Longrightarrow> length (longest_common_prefix l k) = p"
proof (induction l k arbitrary: p rule: longest_common_prefix.induct)
  case (1 x xs y ys)
  then show ?case by (cases p) auto
qed auto

lemma shared_prefix_longest:
  "shared_prefix l k (if length l < length k then length l else length k) 0 =
   length (longest_common_prefix l k)"
proof -
  let ?n = "if length l < length k then length l else length k"
  let ?p = "shared_prefix l k ?n 0"
  have "?p \<le> ?n" "take ?p k = take ?p l" "?p = ?n \<or> l ! ?p \<noteq> k ! ?p"
    using shared_prefix_bounds [of 0 ?n l k] shared_prefix_take [of ?n l k 0]
      shared_prefix_maximal [of 0 ?n l k] by (simp_all split: if_splits)
  then show ?thesis by (intro longest_common_prefix_length [symmetric]) (auto split: if_splits)
qed

section \<open>The block builder computes the reference block\<close>

text \<open>The whole state of a block builder that was given these entries.\<close>

definition bb_ref :: "deps \<Rightarrow> Options \<Rightarrow> BlockBuilder \<Rightarrow> (bytes \<times> bytes) list \<Rightarrow> bool" where
  "bb_ref D opt b kvs \<longleftrightarrow>
     (let n = block_restart_interval opt; es = ref_entries n kvs in
      b = \<lparr>bb_opt = opt, bb_buffer = encoded D es,
           bb_restarts = map (\<lambda>r. usize_as_u32 (ent_off D es r)) (ref_restarts n (length kvs)),
           bb_last_key = (if kvs = [] then [] else fst (last kvs)),
           bb_restart_counter = (if kvs = [] then 0 else (length kvs - 1) mod n + 1),
           bb_counter = length kvs\<rparr>)"

lemma bb_ref_new: "bb_ref D opt (BlockBuilder_new opt) []"
  by (simp add: bb_ref_def BlockBuilder_new_def ref_restarts_def layout_simps usize_as_u32_def)

lemma restart_counter:
  fixes n m :: nat
  assumes "0 < n" "0 < m"
  shows "(m - 1) mod n + 1 = (if m mod n = 0 then n else m mod n)"
  using assms by (cases m) (auto simp: mod_Suc)

lemma take_longest_common_prefix:
  "take (length (longest_common_prefix l k)) l = longest_common_prefix l k"
  "take (length (longest_common_prefix l k)) k = longest_common_prefix l k"
  "length (longest_common_prefix l k) \<le> length l" "length (longest_common_prefix l k) \<le> length k"
  using longest_common_prefix_prefix1 [of l k] longest_common_prefix_prefix2 [of l k]
  by (metis append_eq_conv_conj prefix_def, metis append_eq_conv_conj prefix_def,
      simp add: prefix_length_le, simp add: prefix_length_le)

text \<open>Both ways \<open>add\<close> can go: within the interval, and at a restart point.\<close>

definition bb_push :: "deps \<Rightarrow> BlockBuilder \<Rightarrow> nat \<Rightarrow> bytes \<Rightarrow> bytes \<Rightarrow> BlockBuilder" where
  "bb_push D b s k v =
     b\<lparr>bb_buffer := bb_buffer b @ entry_bytes D (s, k, v), bb_last_key := k,
       bb_restart_counter := bb_restart_counter b + 1, bb_counter := bb_counter b + 1\<rparr>"

lemma BlockBuilder_add_outcome:
  assumes add: "BlockBuilder_add D b k v = Some b'"
  shows "bb_restart_counter b < block_restart_interval (bb_opt b) \<Longrightarrow>
      b' = bb_push D b (length (longest_common_prefix (bb_last_key b) k)) k v"
    and "\<not> bb_restart_counter b < block_restart_interval (bb_opt b) \<Longrightarrow>
      b' = bb_push D (b\<lparr>bb_restarts := bb_restarts b @ [usize_as_u32 (length (bb_buffer b))],
        bb_restart_counter := 0\<rparr>) 0 k v"
proof -
  let ?l = "bb_last_key b"
  let ?s = "length (longest_common_prefix ?l k)"
  have guard: "bb_restart_counter b \<le> block_restart_interval (bb_opt b)"
    "bb_buffer b = [] \<or> cmp (opt_cmp (bb_opt b)) ?l k = Less"
    using add by (auto simp: BlockBuilder_add_def rassert_def split: if_splits)
  have s: "?s \<le> length ?l" "?s \<le> length k" "take ?s ?l @ drop ?s k = k"
    using take_longest_common_prefix [of ?l k] append_take_drop_id [of ?s k] by simp_all
  show "b' = bb_push D b ?s k v" if "bb_restart_counter b < block_restart_interval (bb_opt b)"
    using add that guard s
    by (simp add: BlockBuilder_add_def shared_prefix_longest Let_def run_simps vec_resize_shrink
        entry_bytes_def entry_head_def bb_push_def del: if_split)
  show "b' = bb_push D (b\<lparr>bb_restarts := bb_restarts b @ [usize_as_u32 (length (bb_buffer b))],
        bb_restart_counter := 0\<rparr>) 0 k v" if "\<not> bb_restart_counter b < block_restart_interval (bb_opt b)"
    using add that guard
    by (simp add: BlockBuilder_add_def run_simps vec_resize_shrink entry_bytes_def entry_head_def bb_push_def)
qed

lemma bb_ref_add:
  assumes b: "bb_ref D opt b kvs" and n: "0 < block_restart_interval opt"
    and add: "BlockBuilder_add D b k v = Some b'"
  shows "bb_ref D opt b' (kvs @ [(k, v)])"
proof -
  let ?n = "block_restart_interval opt" and ?m = "length kvs"
  let ?es = "ref_entries ?n kvs"
  have offs: "map (\<lambda>r. usize_as_u32 (ent_off D (?es @ [e]) r)) (ref_restarts ?n ?m) =
      map (\<lambda>r. usize_as_u32 (ent_off D ?es r)) (ref_restarts ?n ?m)" for e
    using ref_restarts_le [of _ ?n ?m] by (simp add: ent_off_append)
  have len: "ent_off D (?es @ [e]) ?m = length (encoded D ?es)" for e
    using ent_off_end [of D ?es] ent_off_append [of ?m ?es] by simp
  show ?thesis
  proof (cases "?m = 0 \<or> ?m mod ?n \<noteq> 0")
    case True
    then have c: "bb_restart_counter b = ?m mod ?n" "?m mod ?n < ?n" "bb_opt b = opt"
      using b n restart_counter [OF n, of ?m] by (auto simp: bb_ref_def Let_def)
    have "length (longest_common_prefix (bb_last_key b) k) = ref_shared ?n (kvs @ [(k, v)]) ?m"
      using True b by (auto simp: bb_ref_def Let_def ref_shared_def nth_append last_conv_nth)
    with BlockBuilder_add_outcome(1) [OF add] c
    have "b' = bb_push D b (ref_shared ?n (kvs @ [(k, v)]) ?m) k v" by simp
    then show ?thesis
      using b c(1) True by (auto simp: bb_push_def bb_ref_def Let_def ref_entries_snoc ref_restarts_Suc layout_simps offs)
  next
    case False
    then have c: "bb_restart_counter b = ?n" "bb_opt b = opt" "ref_shared ?n (kvs @ [(k, v)]) ?m = 0"
      using b n restart_counter [OF n, of ?m] by (auto simp: bb_ref_def Let_def ref_shared_def)
    then have "b' = bb_push D (b\<lparr>bb_restarts := bb_restarts b @ [usize_as_u32 (length (bb_buffer b))],
        bb_restart_counter := 0\<rparr>) (ref_shared ?n (kvs @ [(k, v)]) ?m) k v"
      using BlockBuilder_add_outcome(2) [OF add] by simp
    then show ?thesis
      using b False
      by (auto simp: bb_push_def bb_ref_def Let_def ref_entries_snoc ref_restarts_Suc layout_simps offs len)
  qed
qed

lemma bb_ref_add_all:
  "bb_ref D opt b kvs \<Longrightarrow> 0 < block_restart_interval opt \<Longrightarrow> BlockBuilder_add_all D b kvs' = Some b' \<Longrightarrow>
   bb_ref D opt b' (kvs @ kvs')"
proof (induction kvs' arbitrary: b kvs)
  case (Cons e kvs')
  then obtain k v b1 where e: "e = (k, v)" "BlockBuilder_add D b k v = Some b1" "BlockBuilder_add_all D b1 kvs' = Some b'"
    by (cases e) (auto split: Option.bind_splits)
  from Cons.IH [OF bb_ref_add [OF Cons.prems(1,2) e(2)] Cons.prems(2) e(3)] e(1) show ?case by simp
qed simp

lemma bb_ref_finish: "bb_ref D opt b kvs \<Longrightarrow> BlockBuilder_finish D b = ref_block D opt kvs"
  by (simp add: bb_ref_def Let_def BlockBuilder_finish_def ref_block_def block_bytes_def comp_def)

lemma bb_ref_size:
  "integer_codec D \<Longrightarrow> bb_ref D opt b kvs \<Longrightarrow> BlockBuilder_size_estimate b = length (ref_block D opt kvs)"
  by (simp add: bb_ref_def Let_def BlockBuilder_size_estimate_def ref_block_def integer_codec.block_bytes_length)

text \<open>A block with an entry is larger than the smallest block size, and the empty block is not.\<close>

lemma ref_block_Nil: "integer_codec D \<Longrightarrow> length (ref_block D opt []) = 8"
  by (simp add: ref_block_def integer_codec.block_bytes_length ref_restarts_def layout_simps)

lemma ref_block_size:
  assumes D: "integer_codec D" and ne: "kvs \<noteq> []"
  shows "8 < length (ref_block D opt kvs)"
proof -
  obtain e es where es: "ref_entries (block_restart_interval opt) kvs = e # es"
    using ne by (cases "ref_entries (block_restart_interval opt) kvs") (auto simp: ref_entries_def)
  have "0 < length (entry_bytes D e)"
    using integer_codec.entry_head_nonempty [OF D, of e] by (simp add: entry_bytes_def)
  then show ?thesis
    by (simp add: ref_block_def integer_codec.block_bytes_length [OF D] es layout_simps ref_restarts_def)
qed

text \<open>C20: A block builder that is given ascending entries computes their block: every entry at a multiple of the
  restart interval is stored whole and is a restart point, every other one leaves out the longest prefix it
  shares with the key before it.\<close>

theorem block_builder_reference:
  assumes "0 < block_restart_interval opt" "ascending (opt_cmp opt) (map fst kvs)"
  shows "BlockBuilder_add_all D (BlockBuilder_new opt) kvs \<bind> (\<lambda>b. Some (BlockBuilder_finish D b)) =
    Some (ref_block D opt kvs)"
proof -
  from BlockBuilder_add_all_inv [OF bb_inv_new, of opt kvs D] assms obtain b where
    "BlockBuilder_add_all D (BlockBuilder_new opt) kvs = Some b" by (auto simp: BlockBuilder_new_def)
  with bb_ref_finish [OF bb_ref_add_all [OF bb_ref_new assms(1) this]] show ?thesis by simp
qed

theorem block_builder_reference_witness:
  "BlockBuilder_add_all reference_deps (BlockBuilder_new ((Options_default reference_deps)\<lparr>block_restart_interval := 2\<rparr>))
     [([1, 2, 3], [9]), ([1, 2, 4], [8]), ([1, 2, 5], [7])] \<bind> (\<lambda>b. Some (BlockBuilder_finish reference_deps b)) =
   Some [0, 3, 1, 1, 2, 3, 9, 2, 1, 1, 4, 8, 0, 3, 1, 1, 2, 5, 7, 0, 0, 0, 0, 12, 0, 0, 0, 2, 0, 0, 0]"
  by (subst block_builder_reference)
    (simp_all add: Options_default_def ascending_def DefaultCmp_def ref_block_def ref_entries_def ref_shared_def
      ref_restarts_def block_bytes_def layout_simps entry_bytes_def entry_head_def reference_deps_def
      leb_encode.simps le32_encode_def usize_as_u32_def ent_off_def upt_rec)

section \<open>Cutting the entries into data blocks\<close>

text \<open>A data block ends before the first entry that finds it larger than the block size.\<close>

fun ref_cut ::
  "deps \<Rightarrow> Options \<Rightarrow> (bytes \<times> bytes) list \<Rightarrow> (bytes \<times> bytes) list \<Rightarrow> (bytes \<times> bytes) list list" where
  "ref_cut D opt cur [] = (if cur = [] then [] else [cur])"
| "ref_cut D opt cur (e # kvs) =
     (if block_size opt < length (ref_block D opt cur) then cur # ref_cut D opt [e] kvs
      else ref_cut D opt (cur @ [e]) kvs)"

lemma ref_cut_concat: "concat (ref_cut D opt cur kvs) = cur @ kvs"
  by (induction D opt cur kvs rule: ref_cut.induct) auto

section \<open>The file\<close>

text \<open>The stored data of a block and the bytes of all data blocks.\<close>

definition ref_pack :: "deps \<Rightarrow> CompressionType \<Rightarrow> bytes \<Rightarrow> bytes" where
  "ref_pack D ctype contents = (case pack D ctype contents of Inl e \<Rightarrow> [] | Inr data \<Rightarrow> data)"

definition ref_stored :: "deps \<Rightarrow> Options \<Rightarrow> (bytes \<times> bytes) list \<Rightarrow> bytes" where
  "ref_stored D opt kvs = ref_pack D (compression_type opt) (ref_block D opt kvs)"

definition ref_data :: "deps \<Rightarrow> Options \<Rightarrow> (bytes \<times> bytes) list list \<Rightarrow> bytes" where
  "ref_data D opt groups = concat (map (\<lambda>g. sealed D (compression_type opt) (ref_stored D opt g)) groups)"

text \<open>
  Each data block with its handle and the separator to the next block; the separator of the last
  block is made for a key past its last one.
\<close>

fun ref_blocks :: "deps \<Rightarrow> Options \<Rightarrow> usize \<Rightarrow> (bytes \<times> bytes) list list \<Rightarrow> data_block list" where
  "ref_blocks D opt off [] = []"
| "ref_blocks D opt off (g # gs) =
     (let C = opt_cmp opt; k = fst (last g);
          next_key = (case gs of [] \<Rightarrow> find_short_succ C k | g' # _ \<Rightarrow> fst (hd g'));
          size = length (ref_stored D opt g)
      in \<lparr>db_handle = BlockHandle_new off size, db_sep = the (find_shortest_sep C k next_key),
          db_entries = g\<rparr> # ref_blocks D opt (off + size + 5) gs)"

text \<open>The filter block, the metaindex block with its handle, the index block and the footer.\<close>

definition ref_filter :: "deps \<Rightarrow> Options \<Rightarrow> (bytes \<times> bytes) list list \<Rightarrow> bytes" where
  "ref_filter D opt groups =
     filter_block_bytes D (filters_of (opt_filter_policy opt) (table_records (ref_blocks D opt 0 groups))
       (length (ref_data D opt groups)))"

definition ref_meta :: "deps \<Rightarrow> Options \<Rightarrow> (bytes \<times> bytes) list list \<Rightarrow> bytes" where
  "ref_meta D opt groups =
     ref_stored D opt [(filter_block_name (policy_name (opt_filter_policy opt)),
       handle_bytes D (BlockHandle_new (length (ref_data D opt groups)) (length (ref_filter D opt groups))))]"

definition ref_index :: "deps \<Rightarrow> Options \<Rightarrow> (bytes \<times> bytes) list list \<Rightarrow> bytes" where
  "ref_index D opt groups = ref_stored D opt (index_entries D (ref_blocks D opt 0 groups))"

definition ref_footer :: "deps \<Rightarrow> Options \<Rightarrow> (bytes \<times> bytes) list list \<Rightarrow> Footer" where
  "ref_footer D opt groups =
     (let meta_off = length (ref_data D opt groups) + length (ref_filter D opt groups) + 5;
          index_off = meta_off + length (ref_meta D opt groups) + 5
      in Footer_new (BlockHandle_new meta_off (length (ref_meta D opt groups)))
           (BlockHandle_new index_off (length (ref_index D opt groups))))"

definition ref_file_of :: "deps \<Rightarrow> Options \<Rightarrow> (bytes \<times> bytes) list list \<Rightarrow> bytes" where
  "ref_file_of D opt groups =
     ref_data D opt groups @ sealed D CompressionNone (ref_filter D opt groups) @
     sealed D (compression_type opt) (ref_meta D opt groups) @
     sealed D (compression_type opt) (ref_index D opt groups) @ footer_bytes D (ref_footer D opt groups)"

definition ref_file :: "deps \<Rightarrow> Options \<Rightarrow> (bytes \<times> bytes) list \<Rightarrow> bytes" where
  "ref_file D opt kvs = ref_file_of D opt (ref_cut D opt [] kvs)"

text \<open>The data blocks of the table of the entries.\<close>

definition table_blocks :: "deps \<Rightarrow> Options \<Rightarrow> (bytes \<times> bytes) list \<Rightarrow> data_block list" where
  "table_blocks D opt kvs = ref_blocks D opt 0 (ref_cut D opt [] kvs)"

lemma ref_blocks_entries [simp]: "map db_entries (ref_blocks D opt off groups) = groups"
  by (induction groups arbitrary: off) (simp_all add: Let_def)

lemma table_blocks_entries [simp]: "map db_entries (table_blocks D opt kvs) = ref_cut D opt [] kvs"
  by (simp add: table_blocks_def)

text \<open>Handles of data blocks written one after the other, from \<open>off\<close> on.\<close>

fun handles_from :: "deps \<Rightarrow> Options \<Rightarrow> usize \<Rightarrow> data_block list \<Rightarrow> bool" where
  "handles_from D opt off [] = True"
| "handles_from D opt off (b # bs) =
     (db_handle b = BlockHandle_new off (length (ref_stored D opt (db_entries b))) \<and>
      handles_from D opt (off + length (ref_stored D opt (db_entries b)) + 5) bs)"

lemma ref_data_simps [simp]:
  "ref_data D opt [] = []"
  "ref_data D opt (gs @ [g]) = ref_data D opt gs @ sealed D (compression_type opt) (ref_stored D opt g)"
  by (simp_all add: ref_data_def)

lemma handles_from_snoc:
  assumes "integer_codec D"
  shows "handles_from D opt off (bs @ [b]) \<longleftrightarrow> handles_from D opt off bs \<and>
    db_handle b = BlockHandle_new (off + length (ref_data D opt (map db_entries bs)))
      (length (ref_stored D opt (db_entries b)))"
  by (induction bs arbitrary: off)
    (auto simp: ref_data_def sealed_def integer_codec.length_encode_fixed32 [OF assms] add.assoc)

text \<open>Blocks whose handles and separators were made this way are the reference blocks.\<close>

lemma ref_blocksI:
  assumes "handles_from D opt off blocks" "seps_made (opt_cmp opt) blocks"
    and "blocks \<noteq> [] \<Longrightarrow> sep_made (opt_cmp opt) (last blocks)
      (find_short_succ (opt_cmp opt) (fst (last (db_entries (last blocks)))))"
  shows "ref_blocks D opt off (map db_entries blocks) = blocks"
  using assms
proof (induction blocks arbitrary: off)
  case (Cons b bs)
  have "seps_made (opt_cmp opt) bs"
    using Cons.prems(2) by (auto simp: seps_made_def dest: spec [of _ "Suc _"])
  with Cons have rest: "ref_blocks D opt (off + length (ref_stored D opt (db_entries b)) + 5) (map db_entries bs) = bs"
    by (intro Cons.IH) auto
  have "bs \<noteq> [] \<Longrightarrow> sep_made (opt_cmp opt) b (fst (hd (db_entries (hd bs))))"
    using Cons.prems(2) by (cases bs) (auto simp: seps_made_def dest: spec [of _ 0])
  with Cons.prems(3) have "find_shortest_sep (opt_cmp opt) (fst (last (db_entries b)))
      (case map db_entries bs of [] \<Rightarrow> find_short_succ (opt_cmp opt) (fst (last (db_entries b)))
       | g' # _ \<Rightarrow> fst (hd g')) = Some (db_sep b)"
    by (cases bs) (auto simp: sep_made_def)
  then show ?case using Cons.prems(1) rest by (simp add: Let_def)
qed simp

end
