(* ===== verification/SST_Block.thy ===== *)
theory SST_Block
  imports SST_BlockFormat SST_Options SST_Types
begin

text \<open>
  \<open>src/block.rs\<close>: a block and its iterator. The iterator is a record with the fields of
  \<open>BlockIter\<close>, each method a state transformer that may panic. \<open>bi_at\<close> is the abstraction
  relation: which entry of a well-formed block the iterator stands at.
\<close>

section \<open>Blocks\<close>

record Block =
  blk_contents :: bytes
  blk_opt :: Options

record BlockIter =
  bi_block :: bytes
  bi_opt :: Options
  bi_restarts_off :: usize
  bi_offset :: usize
  bi_current_entry_offset :: usize
  bi_current_restart_ix :: usize
  bi_key :: bytes
  bi_val_offset :: usize

definition Block_contents :: "Block \<Rightarrow> bytes" where
  "Block_contents self = blk_contents self"

definition Block_new :: "Options \<Rightarrow> bytes \<Rightarrow> Block run" where
  "Block_new opt contents =
     do { rassert (length contents > 4); Some \<lparr>blk_contents = contents, blk_opt = opt\<rparr> }"

definition Block_iter :: "deps \<Rightarrow> Block \<Rightarrow> BlockIter run" where
  "Block_iter D self =
     do {
       n \<leftarrow> usize_sub (length (blk_contents self)) 4;
       tail \<leftarrow> slice_from (blk_contents self) n;
       let restarts = decode_fixed32 D tail;
       restart_offset \<leftarrow> usize_sub n (4 * u32_as_usize restarts);
       Some \<lparr>bi_block = blk_contents self, bi_opt = blk_opt self,
             bi_restarts_off = restart_offset, bi_offset = 0, bi_current_entry_offset = 0,
             bi_current_restart_ix = 0, bi_key = [], bi_val_offset = 0\<rparr>
     }"

section \<open>The methods of the iterator\<close>

definition number_restarts :: "deps \<Rightarrow> BlockIter \<Rightarrow> usize run" where
  "number_restarts D self =
     do {
       n \<leftarrow> usize_sub (length (bi_block self)) 4;
       tail \<leftarrow> slice_from (bi_block self) n;
       Some (u32_as_usize (decode_fixed32 D tail))
     }"

definition get_restart_point :: "deps \<Rightarrow> BlockIter \<Rightarrow> usize \<Rightarrow> usize run" where
  "get_restart_point D self ix =
     do {
       let restart = bi_restarts_off self + 4 * ix;
       word \<leftarrow> vec_slice (bi_block self) restart (restart + 4);
       Some (u32_as_usize (decode_fixed32 D word))
     }"

text \<open>Returns \<open>(shared, non_shared, valsize, head_len)\<close> and the advanced iterator.\<close>

definition parse_entry_and_advance ::
  "deps \<Rightarrow> BlockIter \<Rightarrow> ((usize \<times> usize \<times> usize \<times> usize) \<times> BlockIter) run" where
  "parse_entry_and_advance D self =
     do {
       rest1 \<leftarrow> slice_from (bi_block self) (bi_offset self);
       (shared, sharedlen) \<leftarrow> decode_var D rest1;
       let i = sharedlen;
       off2 \<leftarrow> usize_add (bi_offset self) i;
       rest2 \<leftarrow> slice_from (bi_block self) off2;
       (non_shared, non_sharedlen) \<leftarrow> decode_var D rest2;
       let i = i + non_sharedlen;
       off3 \<leftarrow> usize_add (bi_offset self) i;
       rest3 \<leftarrow> slice_from (bi_block self) off3;
       (valsize, valsizelen) \<leftarrow> decode_var D rest3;
       let i = i + valsizelen;
       off4 \<leftarrow> usize_add (bi_offset self) i;
       val_offset \<leftarrow> usize_add off4 non_shared;
       offset \<leftarrow> usize_add val_offset valsize;
       Some ((shared, non_shared, valsize, i), self\<lparr>bi_val_offset := val_offset, bi_offset := offset\<rparr>)
     }"

definition assemble_key :: "BlockIter \<Rightarrow> usize \<Rightarrow> usize \<Rightarrow> usize \<Rightarrow> BlockIter run" where
  "assemble_key self off shared non_shared =
     do {
       upto \<leftarrow> usize_add off non_shared;
       piece \<leftarrow> vec_slice (bi_block self) off upto;
       Some (self\<lparr>bi_key := vec_truncate (bi_key self) shared @ piece\<rparr>)
     }"

definition BlockIter_valid :: "BlockIter \<Rightarrow> bool" where
  "BlockIter_valid self \<longleftrightarrow>
     bi_key self \<noteq> [] \<and> bi_val_offset self > 0 \<and> bi_val_offset self \<le> bi_restarts_off self"

definition seek_to_restart_point :: "deps \<Rightarrow> BlockIter \<Rightarrow> usize \<Rightarrow> BlockIter run" where
  "seek_to_restart_point D self ix =
     do {
       off \<leftarrow> get_restart_point D self ix;
       let self = self\<lparr>bi_offset := off, bi_current_entry_offset := off,
                       bi_current_restart_ix := ix\<rparr>;
       ((shared, non_shared, _, head_len), self) \<leftarrow> parse_entry_and_advance D self;
       rassert (shared = 0);
       koff \<leftarrow> usize_add off head_len;
       self \<leftarrow> assemble_key self koff shared non_shared;
       rassert (BlockIter_valid self);
       Some self
     }"

definition BlockIter_reset :: "BlockIter \<Rightarrow> BlockIter" where
  "BlockIter_reset self =
     self\<lparr>bi_offset := 0, bi_val_offset := 0, bi_current_restart_ix := 0, bi_key := []\<rparr>"

text \<open>The loop of \<open>advance\<close> that moves \<open>current_restart_ix\<close> forward.\<close>

function adjust_restart_ix :: "deps \<Rightarrow> BlockIter \<Rightarrow> usize \<Rightarrow> usize \<Rightarrow> usize run" where
  "adjust_restart_ix D self num_restarts ix =
     (if ix + 1 < num_restarts then
        do {
          r \<leftarrow> get_restart_point D self (ix + 1);
          if r < bi_current_entry_offset self
          then adjust_restart_ix D self num_restarts (ix + 1)
          else Some ix
        }
      else Some ix)"
  by pat_completeness auto
termination
  by (relation "measure (\<lambda>(D, it, n, ix). n - ix)") auto

declare adjust_restart_ix.simps [simp del]

definition BlockIter_advance :: "deps \<Rightarrow> BlockIter advance_fn" where
  "BlockIter_advance D self =
     (if bi_restarts_off self \<le> bi_offset self then Some (False, BlockIter_reset self)
      else do {
        let self = self\<lparr>bi_current_entry_offset := bi_offset self\<rparr>;
        let current_off = bi_current_entry_offset self;
        ((shared, non_shared, _, entry_head_len), self) \<leftarrow> parse_entry_and_advance D self;
        koff \<leftarrow> usize_add current_off entry_head_len;
        self \<leftarrow> assemble_key self koff shared non_shared;
        num_restarts \<leftarrow> number_restarts D self;
        ix \<leftarrow> adjust_restart_ix D self num_restarts (bi_current_restart_ix self);
        Some (True, self\<lparr>bi_current_restart_ix := ix\<rparr>)
      })"

definition BlockIter_current :: "BlockIter current_fn" where
  "BlockIter_current self key val =
     (if BlockIter_valid self then
        do {
          v \<leftarrow> vec_slice (bi_block self) (bi_val_offset self) (bi_offset self);
          Some (True, bi_key self, v)
        }
      else Some (False, key, val))"

definition BlockIter_current_key :: "BlockIter \<Rightarrow> bytes option" where
  "BlockIter_current_key self = (if BlockIter_valid self then Some (bi_key self) else None)"

definition BlockIter_next :: "deps \<Rightarrow> BlockIter \<Rightarrow> ((bytes \<times> bytes) option \<times> BlockIter) run" where
  "BlockIter_next D = SSIterator_next (BlockIter_advance D) BlockIter_current"

text \<open>The loop of \<open>prev\<close> that looks for a restart point before the original entry.\<close>

function prev_restart :: "deps \<Rightarrow> BlockIter \<Rightarrow> usize \<Rightarrow> usize \<Rightarrow> BlockIter run" where
  "prev_restart D self orig_offset ix =
     do {
       r \<leftarrow> get_restart_point D self ix;
       if orig_offset \<le> r then
         if ix = 0 then
           do {
             n \<leftarrow> number_restarts D self;
             Some (self\<lparr>bi_offset := bi_restarts_off self, bi_current_restart_ix := n\<rparr>)
           }
         else prev_restart D self orig_offset (ix - 1)
       else Some (self\<lparr>bi_current_restart_ix := ix\<rparr>)
     }"
  by pat_completeness auto
termination
  by (relation "measure (\<lambda>(D, it, orig, ix). ix)") auto

declare prev_restart.simps [simp del]

text \<open>The loops below may not end on a corrupt block.\<close>

partial_function (option) prev_loop :: "deps \<Rightarrow> usize \<Rightarrow> BlockIter \<Rightarrow> (bool \<times> BlockIter) run" where
  "prev_loop D orig_offset self =
     do {
       (result, self) \<leftarrow> BlockIter_advance D self;
       if orig_offset \<le> bi_offset self then Some (result, self)
       else prev_loop D orig_offset self
     }"

declare prev_loop.simps [code]

definition BlockIter_prev :: "deps \<Rightarrow> BlockIter \<Rightarrow> (bool \<times> BlockIter) run" where
  "BlockIter_prev D self =
     (let orig_offset = bi_current_entry_offset self in
      if orig_offset = 0 then Some (False, BlockIter_reset self)
      else do {
        self \<leftarrow> prev_restart D self orig_offset (bi_current_restart_ix self);
        off \<leftarrow> get_restart_point D self (bi_current_restart_ix self);
        let self = self\<lparr>bi_offset := off\<rparr>;
        rassert (bi_offset self < orig_offset);
        prev_loop D orig_offset self
      })"

text \<open>The binary search over the restart points, and the linear search from there on.\<close>

function seek_binary :: "deps \<Rightarrow> bytes \<Rightarrow> BlockIter \<Rightarrow> usize \<Rightarrow> usize \<Rightarrow> (BlockIter \<times> usize \<times> usize) run" where
  "seek_binary D to self left right =
     (if left < right then
        let middle = (left + right + 1) div 2 in
        do {
          self \<leftarrow> seek_to_restart_point D self middle;
          if cmp (opt_cmp (bi_opt self)) (bi_key self) to = Less
          then seek_binary D to self middle right
          else seek_binary D to self left (middle - 1)
        }
      else Some (self, left, right))"
  by pat_completeness auto
termination
  by (relation "measure (\<lambda>(D, to, it, l, r). r - l)") auto

declare seek_binary.simps [simp del]

partial_function (option) seek_linear :: "deps \<Rightarrow> bytes \<Rightarrow> BlockIter \<Rightarrow> BlockIter run" where
  "seek_linear D to self =
     do {
       (r, self) \<leftarrow> BlockIter_next D self;
       case r of
         None \<Rightarrow> Some self
       | Some (k, _) \<Rightarrow>
           if cmp (opt_cmp (bi_opt self)) k to \<ge> Equal then Some self else seek_linear D to self
     }"

declare seek_linear.simps [code]

definition BlockIter_seek :: "deps \<Rightarrow> BlockIter \<Rightarrow> bytes \<Rightarrow> BlockIter run" where
  "BlockIter_seek D self to =
     do {
       let self = BlockIter_reset self;
       n \<leftarrow> number_restarts D self;
       let right = (if n = 0 then 0 else n - 1);
       (self, left, right) \<leftarrow> seek_binary D to self 0 right;
       rassert (left = right);
       let self = self\<lparr>bi_current_restart_ix := left\<rparr>;
       off \<leftarrow> get_restart_point D self left;
       let self = self\<lparr>bi_offset := off\<rparr>;
       seek_linear D to self
     }"

partial_function (option) last_loop :: "deps \<Rightarrow> BlockIter \<Rightarrow> BlockIter run" where
  "last_loop D self =
     (if bi_offset self < bi_restarts_off self then
        do { (_, self) \<leftarrow> BlockIter_advance D self; last_loop D self }
      else Some self)"

declare last_loop.simps [code]

definition BlockIter_seek_to_last :: "deps \<Rightarrow> BlockIter \<Rightarrow> BlockIter run" where
  "BlockIter_seek_to_last D self =
     do {
       n \<leftarrow> number_restarts D self;
       self \<leftarrow> (if n > 0 then seek_to_restart_point D self (n - 1) else Some (BlockIter_reset self));
       self \<leftarrow> last_loop D self;
       rassert (BlockIter_valid self);
       Some self
     }"

section \<open>The abstraction\<close>

definition bi_view :: "deps \<Rightarrow> entry list \<Rightarrow> nat list \<Rightarrow> BlockIter \<Rightarrow> bool" where
  "bi_view D es rs it \<longleftrightarrow>
     block_layout D es rs (bi_block it) \<and> bi_restarts_off it = length (encoded D es) \<and>
     (\<forall>e \<in> set es. ent_key e \<noteq> [])"

fun bi_at :: "deps \<Rightarrow> entry list \<Rightarrow> nat list \<Rightarrow> nat option \<Rightarrow> BlockIter \<Rightarrow> bool" where
  "bi_at D es rs None it \<longleftrightarrow>
     bi_view D es rs it \<and> bi_offset it = 0 \<and> bi_val_offset it = 0 \<and>
     bi_current_restart_ix it = 0 \<and> bi_key it = []"
| "bi_at D es rs (Some i) it \<longleftrightarrow>
     bi_view D es rs it \<and> i < length es \<and>
     bi_offset it = ent_off D es (Suc i) \<and> bi_current_entry_offset it = ent_off D es i \<and>
     bi_key it = ent_key (es ! i) \<and>
     bi_val_offset it = ent_off D es (Suc i) - length (ent_val (es ! i)) \<and>
     bi_current_restart_ix it < length rs \<and> rs ! bi_current_restart_ix it \<le> i"

text \<open>The iterator is about to parse entry \<open>j\<close>, or stands at the end of the entries.\<close>

definition bi_ready :: "deps \<Rightarrow> entry list \<Rightarrow> nat list \<Rightarrow> nat \<Rightarrow> BlockIter \<Rightarrow> bool" where
  "bi_ready D es rs j it \<longleftrightarrow>
     bi_view D es rs it \<and> bi_offset it = ent_off D es j \<and> j \<le> length es \<and>
     (j < length es \<longrightarrow>
        take (ent_shared (es ! j)) (bi_key it) = take (ent_shared (es ! j)) (ent_key (es ! j)) \<and>
        bi_current_restart_ix it < length rs \<and> rs ! bi_current_restart_ix it \<le> j)"

lemma bi_view_cong:
  "bi_block it' = bi_block it \<Longrightarrow> bi_restarts_off it' = bi_restarts_off it \<Longrightarrow>
   bi_view D es rs it' = bi_view D es rs it"
  by (simp add: bi_view_def)

lemma bi_view_fields [simp]:
  "bi_view D es rs (it\<lparr>bi_offset := a\<rparr>) = bi_view D es rs it"
  "bi_view D es rs (it\<lparr>bi_current_entry_offset := a\<rparr>) = bi_view D es rs it"
  "bi_view D es rs (it\<lparr>bi_current_restart_ix := a\<rparr>) = bi_view D es rs it"
  "bi_view D es rs (it\<lparr>bi_key := k\<rparr>) = bi_view D es rs it"
  "bi_view D es rs (it\<lparr>bi_val_offset := a\<rparr>) = bi_view D es rs it"
  by (simp_all add: bi_view_def)

lemma bi_at_view: "bi_at D es rs p it \<Longrightarrow> bi_view D es rs it"
  by (cases p) simp_all

lemma bi_at_reset: "bi_at D es rs p it \<Longrightarrow> bi_at D es rs None (BlockIter_reset it)"
  using bi_at_view [of D es rs p it] by (simp add: BlockIter_reset_def)

section \<open>Parsing an entry\<close>

context integer_codec
begin

lemma view_key_bound:
  assumes "bi_view D es rs it" "i < length es"
  shows "ent_shared (es ! i) \<le> length (ent_key (es ! i))"
    and "length (ent_key (es ! i)) < 2 ^ 32" and "length (ent_val (es ! i)) < 2 ^ 32"
    and "ent_off D es (Suc i) < 2 ^ 32" and "ent_off D es (Suc i) \<le> length (bi_block it)"
proof -
  have len: "length (encoded D es) < 2 ^ 32" "length (encoded D es) \<le> length (bi_block it)"
    and ch: "chained [] es"
    using assms(1) block_bytes_length [of es rs] by (auto simp: bi_view_def block_layout_def)
  show "ent_shared (es ! i) \<le> length (ent_key (es ! i))"
    using chained_nth [OF ch assms(2)] by (simp add: Let_def)
  show "length (ent_key (es ! i)) < 2 ^ 32"
    using chained_key_length [OF ch assms(2), of D] len by simp
  show "length (ent_val (es ! i)) < 2 ^ 32" using value_length [OF assms(2), of D] len by simp
  show "ent_off D es (Suc i) < 2 ^ 32" "ent_off D es (Suc i) \<le> length (bi_block it)"
    using ent_off_le [of D es "Suc i"] len by simp_all
qed

lemma view_drop:
  assumes "bi_view D es rs it" "i < length es"
  shows "\<exists>rest. drop (ent_off D es i) (bi_block it) = entry_bytes D (es ! i) @ rest"
proof -
  have "bi_block it = encoded D es @ drop (length (encoded D es)) (bi_block it)"
    using assms(1) by (simp add: bi_view_def block_layout_def block_bytes_def)
  then obtain T where "bi_block it = encoded D es @ T" by blast
  then show ?thesis using encoded_at [OF assms(2), of D] ent_off_le [of D es i] by simp
qed

lemma parse_at:
  assumes view: "bi_view D es rs it" and i: "i < length es" and off: "bi_offset it = ent_off D es i"
  shows "parse_entry_and_advance D it =
    Some ((ent_shared (es ! i), length (ent_key (es ! i)) - ent_shared (es ! i),
           length (ent_val (es ! i)), length (entry_head D (es ! i))),
          it\<lparr>bi_val_offset := ent_off D es (Suc i) - length (ent_val (es ! i)),
             bi_offset := ent_off D es (Suc i)\<rparr>)"
proof -
  let ?e = "es ! i" and ?o = "ent_off D es i" and ?B = "bi_block it"
  let ?x = "encode_var D (ent_shared ?e)"
  let ?y = "encode_var D (length (ent_key ?e) - ent_shared ?e)"
  let ?z = "encode_var D (length (ent_val ?e))"
  note bound = view_key_bound [OF view i]
  obtain rest where rest: "drop ?o ?B = ?x @ ?y @ ?z @ rest"
    using view_drop [OF view i] by (auto simp: entry_bytes_def entry_head_def)
  have le: "?o \<le> length ?B" using bound(5) ent_off_mono [of i "Suc i" D es] by simp
  have upto: "ent_off D es (Suc i) = ?o + length (entry_head D ?e) +
      (length (ent_key ?e) - ent_shared ?e) + length (ent_val ?e)"
    using ent_off_Suc [OF i, of D] by (simp add: entry_bytes_length)
  have head: "length (entry_head D ?e) = length ?x + length ?y + length ?z"
    by (simp add: entry_head_def)
  have sl: "slice_from ?B ?o = Some (?x @ ?y @ ?z @ rest)"
    "slice_from ?B (?o + length ?x) = Some (?y @ ?z @ rest)"
    "slice_from ?B (?o + (length ?x + length ?y)) = Some (?z @ rest)"
    using slice_from_at [of ?o ?B "[]"] slice_from_at [of ?o ?B ?x]
      slice_from_at [of ?o ?B "?x @ ?y"] rest le by simp_all
  have decode: "decode_var D (?x @ r) = Some (ent_shared ?e, length ?x)"
    "decode_var D (?y @ r) = Some (length (ent_key ?e) - ent_shared ?e, length ?y)"
    "decode_var D (?z @ r) = Some (length (ent_val ?e), length ?z)" for r
    using bound by (intro decode_encode_var, simp)+
  have add: "usize_add ?o (length ?x) = Some (?o + length ?x)"
    "usize_add ?o (length ?x + length ?y) = Some (?o + (length ?x + length ?y))"
    "usize_add ?o (length ?x + length ?y + length ?z) = Some (?o + length (entry_head D ?e))"
    "usize_add (?o + length (entry_head D ?e)) (length (ent_key ?e) - ent_shared ?e) =
      Some (ent_off D es (Suc i) - length (ent_val ?e))"
    "usize_add (ent_off D es (Suc i) - length (ent_val ?e)) (length (ent_val ?e)) =
      Some (ent_off D es (Suc i))"
    using bound(4) upto head by (simp_all add: usize_add_def)
  show ?thesis
    by (simp add: parse_entry_and_advance_def off sl decode add) (simp add: head)
qed

lemma assemble_at:
  assumes view: "bi_view D es rs it" and i: "i < length es"
    and shared: "take (ent_shared (es ! i)) (bi_key it) = take (ent_shared (es ! i)) (ent_key (es ! i))"
  shows "assemble_key it (ent_off D es i + length (entry_head D (es ! i))) (ent_shared (es ! i))
      (length (ent_key (es ! i)) - ent_shared (es ! i)) = Some (it\<lparr>bi_key := ent_key (es ! i)\<rparr>)"
proof -
  let ?e = "es ! i" and ?o = "ent_off D es i" and ?B = "bi_block it"
  note bound = view_key_bound [OF view i]
  obtain rest where rest:
    "drop ?o ?B = entry_head D ?e @ drop (ent_shared ?e) (ent_key ?e) @ ent_val ?e @ rest"
    using view_drop [OF view i] by (auto simp: entry_bytes_def)
  have le: "?o \<le> length ?B" using bound(5) ent_off_mono [of i "Suc i" D es] by simp
  have "ent_off D es (Suc i) = ?o + length (entry_head D ?e) +
      (length (ent_key ?e) - ent_shared ?e) + length (ent_val ?e)"
    using ent_off_Suc [OF i, of D] by (simp add: entry_bytes_length)
  then have "usize_add (?o + length (entry_head D ?e)) (length (ent_key ?e) - ent_shared ?e) =
      Some (?o + length (entry_head D ?e) + (length (ent_key ?e) - ent_shared ?e))"
    using bound by (intro usize_add_Some) simp
  moreover have "vec_slice ?B (?o + length (entry_head D ?e))
      (?o + length (entry_head D ?e) + (length (ent_key ?e) - ent_shared ?e)) =
      Some (drop (ent_shared ?e) (ent_key ?e))"
    using slice_at [OF rest le] by simp
  ultimately show ?thesis
    using shared append_take_drop_id [of "ent_shared ?e" "ent_key ?e"]
    by (simp add: assemble_key_def vec_truncate_def)
qed

section \<open>Restart points of a well-formed block\<close>

lemma number_restarts_view: "bi_view D es rs it \<Longrightarrow> number_restarts D it = Some (length rs)"
proof -
  assume view: "bi_view D es rs it"
  then have len: "length (bi_block it) = length (encoded D es) + 4 * length rs + 4"
    "length (bi_block it) < 2 ^ 32"
    using block_bytes_length [of es rs] by (auto simp: bi_view_def block_layout_def)
  have "drop (length (bi_block it) - 4) (bi_block it) = encode_fixed32 D (usize_as_u32 (length rs))"
    using view block_bytes_count [of es rs] by (simp add: bi_view_def block_layout_def)
  then show ?thesis
    using len by (simp only: number_restarts_def usize_sub_def slice_from_def) 
      (simp add: decode_encode_fixed32 run_simps)
qed

lemma get_restart_point_view:
  assumes "bi_view D es rs it" "j < length rs"
  shows "get_restart_point D it j = Some (ent_off D es (rs ! j))"
proof -
  have len: "length (bi_block it) = length (encoded D es) + 4 * length rs + 4"
    "length (bi_block it) < 2 ^ 32" "bi_block it = block_bytes D es rs"
    "bi_restarts_off it = length (encoded D es)"
    using assms(1) block_bytes_length [of es rs] by (auto simp: bi_view_def block_layout_def)
  then have "ent_off D es (rs ! j) < 2 ^ 32" using ent_off_le [of D es "rs ! j"] by simp
  moreover have "take 4 (drop (length (encoded D es) + 4 * j) (bi_block it)) =
      encode_fixed32 D (usize_as_u32 (ent_off D es (rs ! j)))"
    using block_bytes_restart [OF assms(2), of es] len by simp
  ultimately show ?thesis
    using len assms(2) by (simp add: get_restart_point_def vec_slice_def decode_encode_fixed32 run_simps)
qed

lemma view_restarts: "bi_view D es rs it \<Longrightarrow> restarts_ok es rs"
  by (simp add: bi_view_def block_layout_def)

lemma view_restarts_nth:
  "bi_view D es rs it \<Longrightarrow> i < length es \<Longrightarrow> j < length rs \<Longrightarrow>
   rs ! j < length es \<and> ent_shared (es ! (rs ! j)) = 0"
  by (rule restarts_ok_nth [OF view_restarts]) auto

lemma adjust_restart_ix_view:
  assumes "bi_view D es rs it" "bi_current_entry_offset it = ent_off D es i" "i < length es"
  shows "ix < length rs \<Longrightarrow> rs ! ix \<le> i \<Longrightarrow>
    \<exists>ix'. adjust_restart_ix D it (length rs) ix = Some ix' \<and> ix' < length rs \<and> rs ! ix' \<le> i"
proof (induction "length rs - ix" arbitrary: ix)
  case (Suc n)
  show ?case
  proof (cases "ix + 1 < length rs \<and> ent_off D es (rs ! (ix + 1)) < ent_off D es i")
    case True
    have "rs ! (ix + 1) < length es"
      using view_restarts_nth [OF assms(1,3)] True by blast
    then have "rs ! (ix + 1) < i" using True assms(3) by (simp add: ent_off_less_iff)
    then have "\<exists>ix'. adjust_restart_ix D it (length rs) (ix + 1) = Some ix' \<and>
        ix' < length rs \<and> rs ! ix' \<le> i"
      using Suc True by (intro Suc.hyps(1)) simp_all
    then show ?thesis
      using True assms(2) get_restart_point_view [OF assms(1), of "ix + 1"]
      by (subst adjust_restart_ix.simps) simp
  next
    case False
    then show ?thesis
      using Suc.prems assms(2) get_restart_point_view [OF assms(1), of "ix + 1"]
      by (subst adjust_restart_ix.simps) auto
  qed
qed simp

section \<open>Advancing\<close>

text \<open>One step from any state that points at an entry whose shared prefix is in the key buffer;
  after a restart point the buffer is irrelevant.\<close>

lemma advance_general:
  assumes view: "bi_view D es rs it" and i: "i < length es" and off: "bi_offset it = ent_off D es i"
    and shared: "take (ent_shared (es ! i)) (bi_key it) = take (ent_shared (es ! i)) (ent_key (es ! i))"
    and ix: "bi_current_restart_ix it < length rs" "rs ! bi_current_restart_ix it \<le> i"
  shows "\<exists>it'. BlockIter_advance D it = Some (True, it') \<and> bi_at D es rs (Some i) it' \<and>
    bi_opt it' = bi_opt it"
proof -
  let ?e = "es ! i"
  define it1 where "it1 = it\<lparr>bi_current_entry_offset := ent_off D es i\<rparr>"
  define it2 where "it2 = it1\<lparr>bi_val_offset := ent_off D es (Suc i) - length (ent_val ?e),
      bi_offset := ent_off D es (Suc i)\<rparr>"
  define it3 where "it3 = it2\<lparr>bi_key := ent_key ?e\<rparr>"
  have views: "bi_view D es rs it1" "bi_view D es rs it2" "bi_view D es rs it3"
    using view by (simp_all add: it1_def it2_def it3_def)
  have "ent_off D es i < bi_restarts_off it"
    using ent_off_strict [OF i] ent_off_le [of D es "Suc i"] view by (simp add: bi_view_def)
  then have inside: "\<not> bi_restarts_off it \<le> bi_offset it" using off by simp
  have parse: "parse_entry_and_advance D it1 = Some ((ent_shared ?e,
      length (ent_key ?e) - ent_shared ?e, length (ent_val ?e), length (entry_head D ?e)), it2)"
    unfolding it2_def using views(1) i by (rule parse_at) (simp add: it1_def off)
  have assemble: "assemble_key it2 (ent_off D es i + length (entry_head D ?e)) (ent_shared ?e)
      (length (ent_key ?e) - ent_shared ?e) = Some it3"
    unfolding it3_def using views(2) i
    by (rule assemble_at) (simp add: it2_def it1_def shared)
  have koff: "usize_add (ent_off D es i) (length (entry_head D ?e)) =
      Some (ent_off D es i + length (entry_head D ?e))"
    using view_key_bound(4) [OF view i] ent_off_Suc [OF i, of D]
    by (intro usize_add_Some) (simp add: entry_bytes_length)
  obtain ix' where ix': "adjust_restart_ix D it3 (length rs) (bi_current_restart_ix it3) = Some ix'"
    "ix' < length rs" "rs ! ix' \<le> i"
    using adjust_restart_ix_view [OF views(3) _ i, of "bi_current_restart_ix it3"] ix
    by (auto simp: it3_def it2_def it1_def)
  have "bi_current_entry_offset it1 = ent_off D es i" by (simp add: it1_def)
  then have "BlockIter_advance D it = Some (True, it3\<lparr>bi_current_restart_ix := ix'\<rparr>)"
    using inside off parse koff assemble number_restarts_view [OF views(3)] ix'(1)
    by (simp add: BlockIter_advance_def flip: it1_def)
  moreover have "bi_at D es rs (Some i) (it3\<lparr>bi_current_restart_ix := ix'\<rparr>)"
    using views(3) i ix' by (simp add: it3_def it2_def it1_def)
  ultimately show ?thesis by (simp add: it3_def it2_def it1_def)
qed

lemma view_chained_nth:
  assumes "bi_view D es rs it" "i < length es"
  shows "i = 0 \<Longrightarrow> ent_shared (es ! i) = 0"
    and "i = Suc j \<Longrightarrow>
      take (ent_shared (es ! i)) (ent_key (es ! j)) = take (ent_shared (es ! i)) (ent_key (es ! i))"
  using chained_nth [of "[]" es i] assms by (auto simp: bi_view_def block_layout_def Let_def)

lemma at_ready:
  assumes "bi_at D es rs p it"
  shows "bi_ready D es rs (next_pos p) it"
proof (cases p)
  case None
  then show ?thesis
    using assms view_chained_nth(1) [of es rs it 0] restarts_ok_0 [OF view_restarts [of es rs it]]
    by (auto simp: bi_ready_def)
next
  case (Some i)
  then show ?thesis
    using assms view_chained_nth(2) [of es rs it "Suc i" i] by (auto simp: bi_ready_def)
qed

lemma restart_ready:
  assumes "bi_view D es rs it" "c < length rs" "0 < length es"
  shows "bi_ready D es rs (rs ! c) (it\<lparr>bi_current_restart_ix := c, bi_offset := ent_off D es (rs ! c)\<rparr>)"
  using assms view_restarts_nth [OF assms(1,3,2)] by (simp add: bi_ready_def)

lemma ready_advance:
  assumes "bi_ready D es rs j it" "j < length es"
  shows "\<exists>it'. BlockIter_advance D it = Some (True, it') \<and> bi_at D es rs (Some j) it' \<and>
    bi_opt it' = bi_opt it"
  using assms by (intro advance_general) (simp_all add: bi_ready_def)

lemma ready_advance_end:
  assumes "bi_ready D es rs j it" "length es \<le> j"
  shows "BlockIter_advance D it = Some (False, BlockIter_reset it) \<and>
    bi_at D es rs None (BlockIter_reset it) \<and> bi_opt (BlockIter_reset it) = bi_opt it"
proof -
  have "j = length es" using assms by (simp add: bi_ready_def)
  then show ?thesis
    using assms by (simp add: bi_ready_def BlockIter_advance_def ent_off_end BlockIter_reset_def
        bi_view_def)
qed

section \<open>The current entry\<close>

lemma at_value_offset:
  assumes "bi_at D es rs (Some i) it"
  shows "0 < bi_val_offset it" "bi_val_offset it \<le> bi_restarts_off it"
    and "vec_slice (bi_block it) (bi_val_offset it) (bi_offset it) = Some (ent_val (es ! i))"
proof -
  let ?e = "es ! i"
  have view: "bi_view D es rs it" and i: "i < length es"
    and fields: "bi_offset it = ent_off D es (Suc i)"
      "bi_val_offset it = ent_off D es (Suc i) - length (ent_val ?e)"
    using assms by simp_all
  let ?pre = "entry_head D ?e @ drop (ent_shared ?e) (ent_key ?e)"
  have next_off: "ent_off D es (Suc i) = ent_off D es i + length ?pre + length (ent_val ?e)"
    using ent_off_Suc [OF i, of D] by (simp add: entry_bytes_def)
  then show "0 < bi_val_offset it" using fields by simp
  show "bi_val_offset it \<le> bi_restarts_off it"
    using fields ent_off_le [of D es "Suc i"] view by (simp add: bi_view_def)
  obtain rest where "drop (ent_off D es i) (bi_block it) = ?pre @ ent_val ?e @ rest"
    using view_drop [OF view i] by (auto simp: entry_bytes_def)
  moreover have "ent_off D es i \<le> length (bi_block it)"
    using view_key_bound(5) [OF view i] ent_off_mono [of i "Suc i" D es] by simp
  ultimately have "vec_slice (bi_block it) (ent_off D es i + length ?pre)
      (ent_off D es i + length ?pre + length (ent_val ?e)) = Some (ent_val ?e)"
    by (rule slice_at)
  then show "vec_slice (bi_block it) (bi_val_offset it) (bi_offset it) = Some (ent_val ?e)"
    using fields next_off by simp
qed

lemma at_valid: "bi_at D es rs p it \<Longrightarrow> BlockIter_valid it \<longleftrightarrow> p \<noteq> None"
  using at_value_offset [of es rs "the p" it]
  by (cases p) (auto simp: BlockIter_valid_def bi_view_def)

lemma at_current:
  "bi_at D es rs (Some i) it \<Longrightarrow>
   BlockIter_current it k v = Some (True, ent_key (es ! i), ent_val (es ! i))"
  using at_valid [of es rs "Some i" it] at_value_offset [of es rs i it]
  by (simp add: BlockIter_current_def)

lemma at_current_none: "bi_at D es rs None it \<Longrightarrow> BlockIter_current it k v = Some (False, k, v)"
  using at_valid [of es rs None it] by (simp add: BlockIter_current_def)

lemma ready_next:
  assumes "bi_ready D es rs j it"
  shows "\<exists>it'. BlockIter_next D it = Some (if j < length es then Some (snd (es ! j)) else None, it') \<and>
    bi_at D es rs (if j < length es then Some j else None) it' \<and> bi_opt it' = bi_opt it"
proof (cases "j < length es")
  case True
  with ready_advance [OF assms] show ?thesis
    by (auto simp: BlockIter_next_def SSIterator_next_def at_current simp del: bi_at.simps)
next
  case False
  with ready_advance_end [OF assms] show ?thesis
    by (auto simp: BlockIter_next_def SSIterator_next_def simp del: bi_at.simps)
qed

section \<open>Going back\<close>

lemma prev_restart_view:
  assumes view: "bi_view D es rs it" and i: "0 < i" "i < length es"
  shows "ix < length rs \<Longrightarrow> \<exists>c. prev_restart D it (ent_off D es i) ix =
    Some (it\<lparr>bi_current_restart_ix := c\<rparr>) \<and> c < length rs \<and> rs ! c < i"
proof (induction ix)
  case 0
  have "rs ! 0 = 0" using restarts_ok_0 [OF view_restarts [OF view]] by simp
  moreover have "\<not> ent_off D es i \<le> ent_off D es 0"
    using ent_off_less [of 0 i es] i by simp
  ultimately show ?case
    using 0 i get_restart_point_view [OF view, of 0]
    by (subst prev_restart.simps) (auto simp: not_le)
next
  case (Suc ix)
  have rs: "rs ! Suc ix < length es" using view_restarts_nth [OF view i(2) Suc.prems] by simp
  show ?case
  proof (cases "ent_off D es i \<le> ent_off D es (rs ! Suc ix)")
    case True
    then show ?thesis
      using Suc get_restart_point_view [OF view Suc.prems] by (subst prev_restart.simps) simp
  next
    case False
    then have "rs ! Suc ix < i"
      using ent_off_mono [of i "rs ! Suc ix" D es] by (meson not_le)
    then show ?thesis
      using False Suc get_restart_point_view [OF view Suc.prems] by (subst prev_restart.simps) auto
  qed
qed

lemma prev_loop_ready:
  "bi_ready D es rs j it \<Longrightarrow> j < i \<Longrightarrow> i < length es \<Longrightarrow>
   \<exists>it'. prev_loop D (ent_off D es i) it = Some (True, it') \<and> bi_at D es rs (Some (i - 1)) it' \<and>
     bi_opt it' = bi_opt it"
proof (induction "i - j" arbitrary: j it)
  case (Suc n)
  obtain it1 where it1: "BlockIter_advance D it = Some (True, it1)" "bi_at D es rs (Some j) it1"
    "bi_opt it1 = bi_opt it"
    using ready_advance [OF Suc.prems(1)] Suc.prems by auto
  have off: "ent_off D es i \<le> bi_offset it1 \<longleftrightarrow> i = Suc j"
    using it1(2) Suc.prems ent_off_less_iff [of "Suc j" es i] by auto
  show ?case
  proof (cases "i = Suc j")
    case True
    then show ?thesis using it1 off by (subst prev_loop.simps) (simp del: bi_at.simps)
  next
    case False
    have "bi_ready D es rs (Suc j) it1" using at_ready [OF it1(2)] by simp
    then show ?thesis
      using Suc.hyps(1) [of "Suc j" it1] Suc.hyps(2) Suc.prems it1 off False
      by (subst prev_loop.simps) (simp del: bi_at.simps)
  qed
qed simp

lemma prev_from:
  assumes view: "bi_view D es rs it" and i: "Suc i < length es"
    and orig: "bi_current_entry_offset it = ent_off D es (Suc i)"
    and ix: "bi_current_restart_ix it < length rs"
  shows "\<exists>it'. BlockIter_prev D it = Some (True, it') \<and> bi_at D es rs (Some i) it' \<and>
    bi_opt it' = bi_opt it"
proof -
  have pos: "ent_off D es (Suc i) \<noteq> 0" using ent_off_less [of 0 "Suc i" es] i by simp
  obtain c where c: "prev_restart D it (ent_off D es (Suc i)) (bi_current_restart_ix it) =
      Some (it\<lparr>bi_current_restart_ix := c\<rparr>)" "c < length rs" "rs ! c < Suc i"
    using prev_restart_view [OF view _ i ix] by auto
  let ?it = "it\<lparr>bi_current_restart_ix := c, bi_offset := ent_off D es (rs ! c)\<rparr>"
  have "get_restart_point D (it\<lparr>bi_current_restart_ix := c\<rparr>) c = Some (ent_off D es (rs ! c))"
    using view c(2) by (intro get_restart_point_view) simp_all
  moreover have "ent_off D es (rs ! c) < ent_off D es (Suc i)" using ent_off_less c i by simp
  ultimately have prev: "BlockIter_prev D it = prev_loop D (ent_off D es (Suc i)) ?it"
    using orig pos c(1) by (simp add: BlockIter_prev_def)
  have "0 < length es" using i by linarith
  from restart_ready [OF view c(2) this] have "bi_ready D es rs (rs ! c) ?it" .
  from prev_loop_ready [OF this c(3) i] show ?thesis
    unfolding prev by (simp del: bi_at.simps)
qed

lemma prev_at:
  "bi_at D es rs (Some (Suc i)) it \<Longrightarrow>
   \<exists>it'. BlockIter_prev D it = Some (True, it') \<and> bi_at D es rs (Some i) it' \<and> bi_opt it' = bi_opt it"
  by (rule prev_from) simp_all

text \<open>After \<open>advance\<close> has run off the end, \<open>prev\<close> still starts from the last entry.\<close>

lemma prev_at_end:
  assumes at: "bi_at D es rs (Some (Suc i)) it"
  shows "\<exists>it'. BlockIter_prev D (BlockIter_reset it) = Some (True, it') \<and> bi_at D es rs (Some i) it' \<and>
    bi_opt it' = bi_opt it"
proof -
  have "bi_view D es rs (BlockIter_reset it)" using bi_at_reset [OF at] by (rule bi_at_view)
  moreover from at have "bi_current_restart_ix (BlockIter_reset it) < length rs"
    by (auto simp: BlockIter_reset_def)
  ultimately show ?thesis using prev_from [of es rs "BlockIter_reset it" i] at by (simp add: BlockIter_reset_def)
qed

lemma prev_at_first:
  "bi_at D es rs (Some 0) it \<Longrightarrow> BlockIter_prev D it = Some (False, BlockIter_reset it)"
  by (simp add: BlockIter_prev_def)

section \<open>Seeking\<close>

lemma seek_to_restart_view:
  assumes view: "bi_view D es rs it" and j: "j < length rs" and es: "0 < length es"
  shows "\<exists>it'. seek_to_restart_point D it j = Some it' \<and> bi_at D es rs (Some (rs ! j)) it' \<and>
    bi_opt it' = bi_opt it"
proof -
  let ?i = "rs ! j" and ?e = "es ! (rs ! j)"
  have i: "?i < length es" "ent_shared ?e = 0" using view_restarts_nth [OF view es j] by simp_all
  define it1 where "it1 = it\<lparr>bi_offset := ent_off D es ?i,
      bi_current_entry_offset := ent_off D es ?i, bi_current_restart_ix := j\<rparr>"
  define it2 where "it2 = it1\<lparr>bi_val_offset := ent_off D es (Suc ?i) - length (ent_val ?e),
      bi_offset := ent_off D es (Suc ?i)\<rparr>"
  have views: "bi_view D es rs it1" "bi_view D es rs it2"
    using view by (simp_all add: it1_def it2_def)
  have parse: "parse_entry_and_advance D it1 =
      Some ((0, length (ent_key ?e), length (ent_val ?e), length (entry_head D ?e)), it2)"
    using parse_at [OF views(1) i(1)] i(2) by (simp add: it1_def it2_def)
  have assemble: "assemble_key it2 (ent_off D es ?i + length (entry_head D ?e)) 0
      (length (ent_key ?e)) = Some (it2\<lparr>bi_key := ent_key ?e\<rparr>)"
    using assemble_at [OF views(2) i(1)] i(2) by simp
  have koff: "usize_add (ent_off D es ?i) (length (entry_head D ?e)) =
      Some (ent_off D es ?i + length (entry_head D ?e))"
    using view_key_bound(4) [OF view i(1)] ent_off_Suc [OF i(1), of D]
    by (intro usize_add_Some) (simp add: entry_bytes_length)
  have at: "bi_at D es rs (Some ?i) (it2\<lparr>bi_key := ent_key ?e\<rparr>)"
    using views(2) i(1) j by (simp add: it2_def it1_def)
  have "seek_to_restart_point D it j = Some (it2\<lparr>bi_key := ent_key ?e\<rparr>)"
    using parse assemble koff at_valid [OF at] get_restart_point_view [OF view j]
    by (simp add: seek_to_restart_point_def flip: it1_def)
  with at show ?thesis by (simp add: it2_def it1_def)
qed

lemma last_loop_at:
  "bi_at D es rs (Some i) it \<Longrightarrow>
   \<exists>it'. last_loop D it = Some it' \<and> bi_at D es rs (Some (length es - 1)) it' \<and> bi_opt it' = bi_opt it"
proof (induction "length es - i" arbitrary: i it)
  case (Suc n)
  have i: "i < length es" "bi_offset it = ent_off D es (Suc i)"
    "bi_restarts_off it = ent_off D es (length es)"
    using Suc.prems by (auto simp: bi_view_def ent_off_end)
  then have inside: "bi_offset it < bi_restarts_off it \<longleftrightarrow> Suc i < length es"
    using ent_off_less_iff [of "Suc i" es "length es"] by simp
  show ?case
  proof (cases "Suc i < length es")
    case True
    from at_ready [OF Suc.prems] have "bi_ready D es rs (Suc i) it" by simp
    from ready_advance [OF this True] obtain it1 where
      "BlockIter_advance D it = Some (True, it1)" "bi_at D es rs (Some (Suc i)) it1"
      "bi_opt it1 = bi_opt it" by blast
    then show ?thesis
      using Suc.hyps(1) [of "Suc i" it1] Suc.hyps(2) inside True
      by (subst last_loop.simps) (simp del: bi_at.simps)
  next
    case False
    then have "i = length es - 1" using i by simp
    then show ?thesis
      using Suc.prems inside False by (subst last_loop.simps) (simp del: bi_at.simps)
  qed
qed auto

lemma seek_to_last_at:
  assumes view: "bi_view D es rs it" and es: "es \<noteq> []"
  shows "\<exists>it'. BlockIter_seek_to_last D it = Some it' \<and>
    bi_at D es rs (Some (length es - 1)) it' \<and> bi_opt it' = bi_opt it"
proof -
  have rs: "0 < length rs" using restarts_ok_0 [OF view_restarts [OF view]] by simp
  then obtain it1 where it1: "seek_to_restart_point D it (length rs - 1) = Some it1"
    "bi_at D es rs (Some (rs ! (length rs - 1))) it1" "bi_opt it1 = bi_opt it"
    using seek_to_restart_view [OF view, of "length rs - 1"] es by auto
  from last_loop_at [OF it1(2)] obtain it2 where it2: "last_loop D it1 = Some it2"
    "bi_at D es rs (Some (length es - 1)) it2" "bi_opt it2 = bi_opt it1" by blast
  from at_valid [OF it2(2)] have "BlockIter_valid it2" by simp
  with it1 it2 rs show ?thesis
    by (simp add: BlockIter_seek_to_last_def number_restarts_view [OF view] del: bi_at.simps)
qed

end

section \<open>Seeking by key\<close>

text \<open>Seeking needs both contracts: the codec's and the comparator's.\<close>

locale ordered_codec = integer_codec D + comparator C for D :: deps and C :: Cmp
begin

lemma ascending_nth:
  "ascending C (map ent_key es) \<Longrightarrow> i < j \<Longrightarrow> j < length es \<Longrightarrow>
   cmp C (ent_key (es ! i)) (ent_key (es ! j)) = Less"
  unfolding ascending_def by (auto dest: sorted_wrt_nth_less [of _ _ i j])

lemma below_upto:
  assumes "ascending C (map ent_key es)" "j < length es" "cmp C (ent_key (es ! j)) to = Less"
  shows "\<forall>m \<le> j. cmp C (ent_key (es ! m)) to = Less"
proof (intro allI impI)
  fix m assume "m \<le> j"
  then show "cmp C (ent_key (es ! m)) to = Less"
    using cmp_less_trans [OF ascending_nth [OF assms(1) _ assms(2)] assms(3)] assms(3)
    by (cases "m = j") simp_all
qed

lemma seek_binary_view:
  assumes asc: "ascending C (map ent_key es)" and es: "0 < length es"
  shows "bi_view D es rs it \<Longrightarrow> opt_cmp (bi_opt it) = C \<Longrightarrow> l \<le> r \<Longrightarrow> r < length rs \<Longrightarrow>
    (\<forall>m < rs ! l. cmp C (ent_key (es ! m)) to = Less) \<Longrightarrow>
    \<exists>it' c. seek_binary D to it l r = Some (it', c, c) \<and> c < length rs \<and> bi_view D es rs it' \<and>
      bi_opt it' = bi_opt it \<and> (\<forall>m < rs ! c. cmp C (ent_key (es ! m)) to = Less)"
proof (induction "r - l" arbitrary: it l r rule: less_induct)
  case less
  show ?case
  proof (cases "l < r")
    case True
    define mid where "mid = (l + r + 1) div 2"
    have mid: "l < mid" "mid \<le> r" "mid < length rs" using True less.prems by (auto simp: mid_def)
    obtain it1 where it1: "seek_to_restart_point D it mid = Some it1"
      "bi_at D es rs (Some (rs ! mid)) it1" "bi_opt it1 = bi_opt it"
      using seek_to_restart_view [OF less.prems(1) mid(3) es] by blast
    have view1: "bi_view D es rs it1" and key: "bi_key it1 = ent_key (es ! (rs ! mid))"
      using it1(2) by simp_all
    have step: "seek_binary D to it l r =
        (if cmp C (bi_key it1) to = Less then seek_binary D to it1 mid r
         else seek_binary D to it1 l (mid - 1))"
      using True it1 less.prems(2) by (subst seek_binary.simps) (simp add: Let_def mid_def)
    show ?thesis
    proof (cases "cmp C (bi_key it1) to = Less")
      case less': True
      have "rs ! mid < length es" using view_restarts_nth [OF less.prems(1) es mid(3)] by simp
      from below_upto [OF asc this] less' have "\<forall>m < rs ! mid. cmp C (ent_key (es ! m)) to = Less"
        by (simp add: key)
      from less.hyps [OF _ view1 _ mid(2) less.prems(4) this] show ?thesis
        using mid it1(3) less.prems(2) step less' by auto
    next
      case False
      have "mid - 1 - l < r - l" "l \<le> mid - 1" "mid - 1 < length rs" using mid by auto
      from less.hyps [OF this(1) view1 _ this(2,3) less.prems(5)] show ?thesis
        using it1(3) less.prems(2) step False by auto
    qed
  next
    case False
    then have "l = r" using less.prems by simp
    then show ?thesis using less.prems by (subst seek_binary.simps) auto
  qed
qed

lemma seek_pos_eqI:
  assumes "\<forall>m < j. cmp C (ent_key (es ! m)) to = Less" "j \<le> length es"
    and "j < length es \<Longrightarrow> cmp C (ent_key (es ! j)) to \<noteq> Less"
  shows "seek_pos C to (map snd es) = (if j < length es then Some j else None)"
proof -
  have "takeWhile (\<lambda>e. cmp C (fst e) to = Less) (map snd es) = take j (map snd es)"
    using assms by (intro takeWhile_eq_take_P_nth) auto
  then show ?thesis using assms(2) by (auto simp: seek_pos_def seek_index_def)
qed

lemma seek_linear_ready:
  "bi_ready D es rs j it \<Longrightarrow> opt_cmp (bi_opt it) = C \<Longrightarrow>
   \<forall>m < j. cmp C (ent_key (es ! m)) to = Less \<Longrightarrow>
   \<exists>it'. seek_linear D to it = Some it' \<and> bi_at D es rs (seek_pos C to (map snd es)) it' \<and>
     bi_opt it' = bi_opt it"
proof (induction "length es - j" arbitrary: j it)
  case 0
  then have "length es \<le> j" "j \<le> length es" by (simp_all add: bi_ready_def)
  then have j: "j = length es" by simp
  then have "seek_pos C to (map snd es) = None" using seek_pos_eqI [of j es to] 0 by simp
  with ready_next [OF 0(2)] j show ?case
    by (subst seek_linear.simps) (auto simp del: bi_at.simps)
next
  case (Suc n)
  then have j: "j < length es" by simp
  obtain it1 where it1: "BlockIter_next D it = Some (Some (snd (es ! j)), it1)"
    "bi_at D es rs (Some j) it1" "bi_opt it1 = bi_opt it"
    using ready_next [OF Suc.prems(1)] j by auto
  have step: "seek_linear D to it =
      (if cmp C (ent_key (es ! j)) to \<noteq> Less then Some it1 else seek_linear D to it1)"
    using it1 Suc.prems(2) by (subst seek_linear.simps) (simp add: split_beta)
  show ?case
  proof (cases "cmp C (ent_key (es ! j)) to = Less")
    case True
    have "bi_ready D es rs (Suc j) it1" using at_ready [OF it1(2)] by simp
    moreover have "n = length es - Suc j" using Suc.hyps(2) by simp
    moreover have "\<forall>m < Suc j. cmp C (ent_key (es ! m)) to = Less"
      using True Suc.prems(3) by (simp add: less_Suc_eq)
    ultimately show ?thesis
      using Suc.hyps(1) [of "Suc j" it1] it1(3) Suc.prems(2) step True by simp
  next
    case False
    then have "seek_pos C to (map snd es) = Some j"
      using seek_pos_eqI [of j es to] Suc.prems(3) j by simp
    then show ?thesis using it1 step False by simp
  qed
qed

lemma seek_at_key:
  assumes view: "bi_view D es rs it" and C: "opt_cmp (bi_opt it) = C"
    and asc: "ascending C (map ent_key es)"
  shows "\<exists>it'. BlockIter_seek D it to = Some it' \<and>
    bi_at D es rs (seek_pos C to (map snd es)) it' \<and> bi_opt it' = bi_opt it"
proof -
  let ?it = "BlockIter_reset it"
  have view': "bi_view D es rs ?it" and opt: "bi_opt ?it = bi_opt it"
    using view by (simp_all add: BlockIter_reset_def)
  have rs: "0 < length rs" "rs ! 0 = 0" using restarts_ok_0 [OF view_restarts [OF view]] by simp_all
  have "\<exists>it1 c. seek_binary D to ?it 0 (length rs - 1) = Some (it1, c, c) \<and> c < length rs \<and>
      bi_view D es rs it1 \<and> bi_opt it1 = bi_opt ?it \<and>
      (\<forall>m < rs ! c. cmp C (ent_key (es ! m)) to = Less) \<and> rs ! c \<le> length es"
  proof (cases "es = []")
    case True
    then have "rs = [0]"
      using view_restarts [OF view] by (cases rs rule: remdups_adj.cases) (auto simp: restarts_ok_def)
    then show ?thesis using view' by (auto simp: seek_binary.simps)
  next
    case False
    then show ?thesis
      using seek_binary_view [OF asc, of rs ?it 0 "length rs - 1" to] rs opt C view'
        view_restarts_nth [OF view, of 0]
      by (auto dest: less_imp_le)
  qed
  then obtain it1 c where it1: "seek_binary D to ?it 0 (length rs - 1) = Some (it1, c, c)"
    "c < length rs" "bi_view D es rs it1" "bi_opt it1 = bi_opt it"
    "\<forall>m < rs ! c. cmp C (ent_key (es ! m)) to = Less" "rs ! c \<le> length es"
    using opt by auto
  let ?it1 = "it1\<lparr>bi_current_restart_ix := c, bi_offset := ent_off D es (rs ! c)\<rparr>"
  have "bi_ready D es rs (rs ! c) ?it1"
  proof (cases "es = []")
    case True
    then show ?thesis using it1(3,6) by (simp add: bi_ready_def)
  next
    case False
    then show ?thesis using restart_ready [OF it1(3,2)] by simp
  qed
  from seek_linear_ready [OF this _ it1(5)] C it1(4) obtain it2 where
    it2: "seek_linear D to ?it1 = Some it2" "bi_at D es rs (seek_pos C to (map snd es)) it2"
      "bi_opt it2 = bi_opt it" by auto
  have "get_restart_point D (it1\<lparr>bi_current_restart_ix := c\<rparr>) c = Some (ent_off D es (rs ! c))"
    using it1(2,3) by (intro get_restart_point_view) simp_all
  then have "BlockIter_seek D it to = Some it2"
    using rs it1(1) it2(1)
    by (simp add: BlockIter_seek_def number_restarts_view [OF view'] Let_def)
  with it2 show ?thesis by blast
qed

end

interpretation ref_ordered: ordered_codec reference_deps DefaultCmp
  by unfold_locales

section \<open>The iterator contract\<close>

definition block_at :: "deps \<Rightarrow> Cmp \<Rightarrow> (bytes \<times> bytes) list \<Rightarrow> nat option \<Rightarrow> BlockIter \<Rightarrow> bool" where
  "block_at D C kvs p it \<longleftrightarrow>
     ordered_codec D C \<and> opt_cmp (bi_opt it) = C \<and> ascending C (map fst kvs) \<and>
     (\<exists>es rs. map snd es = kvs \<and> bi_at D es rs p it)"

lemma block_atE:
  assumes "block_at D C kvs p it"
  obtains es rs where "integer_codec D" "ordered_codec D C" "opt_cmp (bi_opt it) = C"
    "ascending C (map ent_key es)" "kvs = map snd es" "bi_at D es rs p it"
  using assms that by (auto simp: block_at_def ordered_codec_def comp_def)

lemma block_atI:
  assumes "ordered_codec D C" "opt_cmp (bi_opt it) = C" "ascending C (map ent_key es)"
    "bi_at D es rs p it"
  shows "block_at D C (map snd es) p it"
  using assms by (auto simp: block_at_def comp_def)

lemma block_at_advance:
  assumes "block_at D C kvs p it"
  shows "\<exists>it'. BlockIter_advance D it = Some (next_pos p < length kvs, it') \<and>
    block_at D C kvs (if next_pos p < length kvs then Some (next_pos p) else None) it'"
  using assms
proof (cases rule: block_atE)
  case (1 es rs)
  have ready: "bi_ready D es rs (next_pos p) it"
    using 1 by (intro integer_codec.at_ready)
  show ?thesis
  proof (cases "next_pos p < length es")
    case True
    from integer_codec.ready_advance [OF 1(1) ready this] show ?thesis
      using 1 True by (auto intro!: block_atI simp del: bi_at.simps)
  next
    case False
    then have "length es \<le> next_pos p" by simp
    from integer_codec.ready_advance_end [OF 1(1) ready this] show ?thesis
      using 1 False by (auto intro!: block_atI simp del: bi_at.simps)
  qed
qed

lemma block_at_reset:
  assumes "block_at D C kvs p it"
  shows "block_at D C kvs None (BlockIter_reset it)"
  using assms
proof (cases rule: block_atE)
  case (1 es rs)
  have "opt_cmp (bi_opt (BlockIter_reset it)) = C" using 1 by (simp add: BlockIter_reset_def)
  with 1 show ?thesis using block_atI [OF 1(2) _ 1(4) bi_at_reset [OF 1(6)]] by simp
qed

interpretation block_iter: ssiterator "BlockIter_advance D" BlockIter_current BlockIter_reset
  BlockIter_valid "block_at D C" "BlockIter_seek D" "BlockIter_prev D" C for D C
proof
  fix kvs p it
  assume at: "block_at D C kvs p it"
  show "next_pos p < length kvs \<Longrightarrow>
      \<exists>it'. BlockIter_advance D it = Some (True, it') \<and> block_at D C kvs (Some (next_pos p)) it'"
    and "length kvs \<le> next_pos p \<Longrightarrow>
      \<exists>it'. BlockIter_advance D it = Some (False, it') \<and> block_at D C kvs None it'"
    using block_at_advance [OF at] by auto
  from at show "BlockIter_valid it \<longleftrightarrow> p \<noteq> None"
    by (rule block_atE) (metis integer_codec.at_valid)
  from at show "block_at D C kvs None (BlockIter_reset it)"
    by (rule block_at_reset)
  fix k
  from at show "\<exists>it'. BlockIter_seek D it k = Some it' \<and> block_at D C kvs (seek_pos C k kvs) it'"
  proof (cases rule: block_atE)
    case (1 es rs)
    from ordered_codec.seek_at_key [OF 1(2) bi_at_view [OF 1(6)] 1(3,4)]
    show ?thesis using 1 by (metis block_atI)
  qed
next
  fix kvs i it k v
  assume at: "block_at D C kvs (Some i) it"
  then show "BlockIter_current it k v = Some (True, fst (kvs ! i), snd (kvs ! i))"
    by (rule block_atE) (auto simp: integer_codec.at_current)
  from at show "i < length kvs"
    by (rule block_atE) auto
next
  fix kvs it k v
  assume "block_at D C kvs None it"
  then show "BlockIter_current it k v = Some (False, k, v)"
    by (rule block_atE) (metis integer_codec.at_current_none)
next
  fix kvs i it
  assume "block_at D C kvs (Some (Suc i)) it"
  then show "\<exists>it'. BlockIter_prev D it = Some (True, it') \<and> block_at D C kvs (Some i) it'"
  proof (cases rule: block_atE)
    case (1 es rs)
    from integer_codec.prev_at [OF 1(1,6)] show ?thesis using 1 by (metis block_atI)
  qed
next
  fix kvs it
  assume at: "block_at D C kvs (Some 0) it"
  then have "block_at D C kvs None (BlockIter_reset it)"
    by (rule block_at_reset)
  moreover from at have "BlockIter_prev D it = Some (False, BlockIter_reset it)"
    by (rule block_atE) (rule integer_codec.prev_at_first)
  ultimately show "\<exists>it'. BlockIter_prev D it = Some (False, it') \<and> block_at D C kvs None it'"
    by blast
qed

lemma current_key_current:
  "BlockIter_current it [] [] = Some (True, k, v) \<Longrightarrow> BlockIter_current_key it = Some k"
  by (auto simp: BlockIter_current_def BlockIter_current_key_def bind_eq_Some_conv split: if_splits)

interpretation block_seeks: stored_seek_iterator "BlockIter_advance D" BlockIter_current BlockIter_reset
  BlockIter_valid "block_at D C" BlockIter_current_key "BlockIter_seek D" "BlockIter_prev D" for D C
proof
  fix kvs it i
  assume "block_at D C kvs (Some i) it"
  from current_key_current [OF block_iter.current_at [OF this]]
  show "BlockIter_current_key it = Some (fst (kvs ! i))" .
next
  fix kvs p it i
  assume at: "block_at D C kvs p it" and i: "i < length kvs"
  from at have "seek_pos C (fst (kvs ! i)) kvs = Some i"
  proof (cases rule: block_atE)
    case (1 es rs)
    have "comparator C" using 1(2) by (simp add: ordered_codec_def)
    from comparator.seek_pos_stored [OF this, of kvs i] 1(4,5) i show ?thesis by (simp add: comp_def)
  qed
  with block_iter.seek_at [OF at, of "fst (kvs ! i)"]
  show "\<exists>it'. BlockIter_seek D it (fst (kvs ! i)) = Some it' \<and> block_at D C kvs (Some i) it'" by simp
next
  fix kvs i it
  assume "block_at D C kvs (Some (Suc i)) it"
  then show "\<exists>it'. BlockIter_prev D it = Some (True, it') \<and> block_at D C kvs (Some i) it'"
    by (rule block_iter.prev_inside)
next
  fix kvs it
  assume "block_at D C kvs (Some 0) it"
  then show "\<exists>it'. BlockIter_prev D it = Some (False, it') \<and> \<not> BlockIter_valid it'"
    using block_iter.prev_first block_iter.valid_iff by blast
qed

end
