(* ===== verification/SST_BlockProps.thy ===== *)
theory SST_BlockProps
  imports SST_Block SST_BlockBuilder
begin

text \<open>
  The builder and the iterator of a block together. \<open>block_open\<close> builds a block from a list of
  entries and opens an iterator over it; the properties say that this iterator sees exactly
  those entries, whichever way it is moved, and that no operation panics.
\<close>

section \<open>From entries to an iterator\<close>

definition block_open :: "deps \<Rightarrow> Options \<Rightarrow> (bytes \<times> bytes) list \<Rightarrow> BlockIter run" where
  "block_open D opt kvs =
     do {
       b \<leftarrow> BlockBuilder_add_all D (BlockBuilder_new opt) kvs;
       blk \<leftarrow> Block_new opt (BlockBuilder_finish D b);
       Block_iter D blk
     }"

text \<open>A bound on the size of the block, in terms of its entries alone.\<close>

definition block_weight :: "(bytes \<times> bytes) list \<Rightarrow> nat" where
  "block_weight kvs = 8 + (\<Sum>(k, v) \<leftarrow> kvs. length k + length v + 34)"

text \<open>Entries that a block can hold: ascending, non-empty keys and less than 4 GiB of data.\<close>

definition block_input :: "Options \<Rightarrow> (bytes \<times> bytes) list \<Rightarrow> bool" where
  "block_input opt kvs \<longleftrightarrow>
     0 < block_restart_interval opt \<and> ascending (opt_cmp opt) (map fst kvs) \<and>
     [] \<notin> fst ` set kvs \<and> block_weight kvs < 2 ^ 32"

lemma restarts_ok_length:
  assumes "restarts_ok es rs"
  shows "length rs \<le> length es + 1"
proof (cases "es = []")
  case True
  then have "rs = [0]"
    using assms by (cases rs rule: remdups_adj.cases) (auto simp: restarts_ok_def)
  then show ?thesis by simp
next
  case False
  have "set rs \<subseteq> {..<length es}" "distinct rs"
    using assms False by (auto simp: restarts_ok_def strict_sorted_iff)
  then show ?thesis
    using card_mono [of "{..<length es}" "set rs"] by (simp add: distinct_card)
qed

lemma block_weight_simps:
  "block_weight [] = 8"
  "block_weight (kv # kvs) = length (fst kv) + length (snd kv) + 34 + block_weight kvs"
  by (simp_all add: block_weight_def split_beta)

lemma block_weight_mem:
  "(k, v) \<in> set kvs \<Longrightarrow> length k < block_weight kvs \<and> length v < block_weight kvs"
  by (induction kvs) (auto simp: block_weight_simps)

context integer_codec
begin

lemma entry_bytes_bound:
  assumes "ent_shared e \<le> length (ent_key e)" "length (ent_key e) < 2 ^ 64" "length (ent_val e) < 2 ^ 64"
  shows "length (entry_bytes D e) \<le> length (ent_key e) + length (ent_val e) + 30"
proof -
  have "length (ent_key e) - ent_shared e < 2 ^ 64" using assms(2) by linarith
  then have "length (entry_head D e) \<le> 10 + (10 + 10)"
    using length_encode_var_max [of "ent_shared e"] length_encode_var_max [of "length (ent_val e)"]
      length_encode_var_max [of "length (ent_key e) - ent_shared e"] assms
    by (simp add: entry_head_def)
  then show ?thesis using assms(1) by (simp add: entry_bytes_length)
qed

lemma encoded_bound:
  "chained p es \<Longrightarrow> \<forall>e \<in> set es. length (ent_key e) < 2 ^ 64 \<and> length (ent_val e) < 2 ^ 64 \<Longrightarrow>
   length (encoded D es) + 4 * length es + 8 \<le> block_weight (map snd es)"
proof (induction es arbitrary: p)
  case Nil
  then show ?case by (simp add: layout_simps block_weight_simps)
next
  case (Cons e es)
  have "length (entry_bytes D e) \<le> length (ent_key e) + length (ent_val e) + 30"
    using Cons.prems by (intro entry_bytes_bound) auto
  moreover have "length (encoded D es) + 4 * length es + 8 \<le> block_weight (map snd es)"
    using Cons by auto
  ultimately show ?case by (simp add: layout_simps block_weight_simps)
qed

lemma block_bytes_bound:
  assumes "chained [] es" "restarts_ok es rs" "block_weight (map snd es) < 2 ^ 32"
  shows "length (block_bytes D es rs) \<le> block_weight (map snd es)"
proof -
  have "length (ent_key e) < 2 ^ 64 \<and> length (ent_val e) < 2 ^ 64" if "e \<in> set es" for e
    using block_weight_mem [of "ent_key e" "ent_val e" "map snd es"] that assms(3)
    by (force dest: order.strict_trans)
  then show ?thesis
    using encoded_bound [OF assms(1)] restarts_ok_length [OF assms(2)]
    by (simp add: block_bytes_length)
qed

text \<open>A block with the layout opens, and its iterator stands before the first entry.\<close>

lemma layout_open:
  assumes layout: "block_layout D es rs contents" and keys: "\<forall>e \<in> set es. ent_key e \<noteq> []"
  shows "\<exists>it. (Block_new opt contents \<bind> Block_iter D) = Some it \<and> bi_at D es rs None it \<and>
    bi_opt it = opt"
proof -
  have contents: "contents = block_bytes D es rs" "length contents < 2 ^ 32"
    and rs: "0 < length rs"
    using layout restarts_ok_0 [of es rs] by (auto simp: block_layout_def)
  have len: "length contents = length (encoded D es) + 4 * length rs + 4"
    by (simp add: contents block_bytes_length)
  have tail: "slice_from contents (length contents - 4) =
      Some (encode_fixed32 D (usize_as_u32 (length rs)))"
    using block_bytes_count [of es rs] by (simp add: slice_from_def contents)
  have "length rs < 2 ^ 32" using len contents(2) by simp
  then have "Block_iter D \<lparr>blk_contents = contents, blk_opt = opt\<rparr> =
      Some \<lparr>bi_block = contents, bi_opt = opt, bi_restarts_off = length (encoded D es),
        bi_offset = 0, bi_current_entry_offset = 0, bi_current_restart_ix = 0, bi_key = [],
        bi_val_offset = 0\<rparr>"
    using tail len by (simp add: Block_iter_def run_simps decode_encode_fixed32)
  then show ?thesis
    using layout keys len rs by (simp add: Block_new_def bi_view_def)
qed

end

lemma block_open_at:
  assumes D: "integer_codec D" and C: "comparator (opt_cmp opt)" and input: "block_input opt kvs"
  shows "\<exists>it. block_open D opt kvs = Some it \<and> block_at D (opt_cmp opt) kvs None it"
proof -
  have "bb_inv D (BlockBuilder_new opt) [] [0]" by (rule bb_inv_new)
  from BlockBuilder_add_all_inv [OF this, of kvs] input
  obtain b es rs where b: "BlockBuilder_add_all D (BlockBuilder_new opt) kvs = Some b"
    "bb_inv D b es rs" "map snd es = kvs"
    by (auto simp: block_input_def BlockBuilder_new_def)
  have "chained [] es" "restarts_ok es rs" "block_weight (map snd es) < 2 ^ 32"
    using b input by (auto simp: bb_inv_def block_input_def)
  from integer_codec.block_bytes_bound [OF D this] this(3)
  have "length (BlockBuilder_finish D b) < 2 ^ 32"
    by (simp only: BlockBuilder_finish_bytes [OF b(2)])
  then have layout: "block_layout D es rs (BlockBuilder_finish D b)"
    by (rule BlockBuilder_finish_layout [OF b(2)])
  have keys: "\<forall>e \<in> set es. ent_key e \<noteq> []"
    using input unfolding block_input_def b(3) [symmetric] image_set [symmetric] list.map_comp
    by force
  from integer_codec.layout_open [OF D layout keys, of opt] obtain it where
    it: "(Block_new opt (BlockBuilder_finish D b) \<bind> Block_iter D) = Some it"
      "bi_at D es rs None it" "bi_opt it = opt" by blast
  have oc: "ordered_codec D (opt_cmp opt)" using D C by (simp add: ordered_codec_def)
  have "block_at D (opt_cmp opt) kvs None it"
    using block_atI [OF oc _ _ it(2)] it(3) input b(3)
    by (auto simp: block_input_def comp_def)
  then show ?thesis using b(1) it(1) by (simp add: block_open_def)
qed

section \<open>Reachable iterators\<close>

text \<open>
  The iterators a client can reach: any sequence of the methods, where \<open>prev\<close> and
  \<open>seek_to_last\<close> are called as the rest of the crate calls them, \<open>prev\<close> on a valid iterator and
  \<open>seek_to_last\<close> on a block that has entries (it panics on an empty one).
\<close>

inductive block_reach :: "deps \<Rightarrow> Options \<Rightarrow> (bytes \<times> bytes) list \<Rightarrow> BlockIter \<Rightarrow> bool"
  for D opt kvs where
  open_block: "block_open D opt kvs = Some it \<Longrightarrow> block_reach D opt kvs it"
| advance: "block_reach D opt kvs it \<Longrightarrow> BlockIter_advance D it = Some (b, it') \<Longrightarrow>
    block_reach D opt kvs it'"
| prev: "block_reach D opt kvs it \<Longrightarrow> BlockIter_valid it \<Longrightarrow> BlockIter_prev D it = Some (b, it') \<Longrightarrow>
    block_reach D opt kvs it'"
| seek: "block_reach D opt kvs it \<Longrightarrow> BlockIter_seek D it k = Some it' \<Longrightarrow>
    block_reach D opt kvs it'"
| reset: "block_reach D opt kvs it \<Longrightarrow> block_reach D opt kvs (BlockIter_reset it)"
| seek_to_last: "block_reach D opt kvs it \<Longrightarrow> kvs \<noteq> [] \<Longrightarrow>
    BlockIter_seek_to_last D it = Some it' \<Longrightarrow> block_reach D opt kvs it'"

lemma block_at_prev:
  assumes "block_at D C kvs (Some i) it"
  shows "\<exists>it'. BlockIter_prev D it = Some (i \<noteq> 0, it') \<and>
    block_at D C kvs (if i = 0 then None else Some (i - 1)) it'"
  using block_iter.prev_first [of D C kvs it] block_iter.prev_inside [of D C kvs "i - 1" it] assms
  by (cases i) auto

lemma block_at_last:
  assumes "block_at D C kvs p it" "kvs \<noteq> []"
  shows "\<exists>it'. BlockIter_seek_to_last D it = Some it' \<and> block_at D C kvs (Some (length kvs - 1)) it'"
  using assms(1)
proof (cases rule: block_atE)
  case (1 es rs)
  from integer_codec.seek_to_last_at [OF 1(1) bi_at_view [OF 1(6)]] 1(5) assms(2)
  obtain it' where it': "BlockIter_seek_to_last D it = Some it'"
    "bi_at D es rs (Some (length es - 1)) it'" "bi_opt it' = bi_opt it" by auto
  with 1 block_atI [OF 1(2) _ 1(4) it'(2)] show ?thesis by (simp del: bi_at.simps)
qed

lemma block_reach_at:
  assumes "integer_codec D" "comparator (opt_cmp opt)" "block_input opt kvs"
  shows "block_reach D opt kvs it \<Longrightarrow> \<exists>p. block_at D (opt_cmp opt) kvs p it"
proof (induction rule: block_reach.induct)
  case (open_block it)
  then show ?case using block_open_at [OF assms] by auto
next
  case (advance it b it')
  then show ?case using block_at_advance by fastforce
next
  case (prev it b it')
  then obtain p where p: "block_at D (opt_cmp opt) kvs p it" by blast
  then obtain i where "p = Some i" using block_iter.valid_iff [OF p] prev.hyps by auto
  with block_at_prev [of D "opt_cmp opt" kvs i it] p prev.hyps show ?case by auto
next
  case (seek it k it')
  then show ?case using block_iter.seek_at [of D "opt_cmp opt" kvs _ it k] by fastforce
next
  case (reset it)
  then show ?case using block_at_reset by blast
next
  case (seek_to_last it it')
  then show ?case using block_at_last [of D "opt_cmp opt" kvs _ it] by fastforce
qed

section \<open>What the builder accepts\<close>

lemma ascending_Cons2:
  assumes "comparator C"
  shows "ascending C (x # y # zs) \<longleftrightarrow> cmp C x y = Less \<and> ascending C (y # zs)"
  using comparator.cmp_less_trans [OF assms]
  by (auto simp: ascending_def)

lemma BlockBuilder_add_all_iff:
  assumes C: "comparator (opt_cmp (bb_opt b))" and interval: "0 < block_restart_interval (bb_opt b)"
    and inv: "integer_codec D" "bb_inv D b es rs"
  shows "(\<exists>b'. BlockBuilder_add_all D b kvs = Some b') \<longleftrightarrow>
    ascending (opt_cmp (bb_opt b)) ((if es = [] then [] else [ent_key (last es)]) @ map fst kvs)"
  using assms
proof (induction kvs arbitrary: b es rs)
  case Nil
  then show ?case by (simp add: ascending_def)
next
  case (Cons kv kvs)
  obtain k v where kv: "kv = (k, v)" by (cases kv)
  show ?case
  proof (cases "key_after (opt_cmp (bb_opt b)) es k")
    case True
    from BlockBuilder_add_inv [OF Cons.prems(4) True Cons.prems(2), of v]
    obtain b1 s rs1 where b1: "BlockBuilder_add D b k v = Some b1" "bb_opt b1 = bb_opt b"
      "bb_inv D b1 (es @ [(s, k, v)]) rs1" by blast
    have "(\<exists>b'. BlockBuilder_add_all D b1 kvs = Some b') \<longleftrightarrow>
        ascending (opt_cmp (bb_opt b)) (k # map fst kvs)"
      using Cons.IH [OF _ _ Cons.prems(3) b1(3)] Cons.prems(1,2) by (simp add: b1(2))
    then show ?thesis
      using True by (auto simp: kv b1(1) key_after_def ascending_Cons2 [OF Cons.prems(1)])
  next
    case False
    then have "es \<noteq> []" by (simp add: key_after_def)
    moreover from this have "bb_buffer b \<noteq> []"
      using Cons.prems(4) integer_codec.entry_head_nonempty [OF Cons.prems(3)]
      by (cases es) (auto simp: bb_inv_def layout_simps entry_bytes_def)
    ultimately have "BlockBuilder_add D b k v = None"
      using False Cons.prems(4) by (simp add: BlockBuilder_add_None_iff key_after_def bb_inv_def)
    then show ?thesis
      using False \<open>es \<noteq> []\<close>
      by (simp add: kv key_after_def ascending_Cons2 [OF Cons.prems(1)])
  qed
qed

section \<open>Properties of blocks\<close>

text \<open>C22: Building a block from ascending entries with non-empty keys and iterating over it
  yields exactly those entries in their order, and the exhausted iterator yields them again.\<close>

theorem block_round_trip:
  assumes "integer_codec D" "comparator (opt_cmp opt)" "block_input opt kvs"
  shows "\<exists>it it' it''. block_open D opt kvs = Some it \<and>
    drain (BlockIter_advance D) BlockIter_current it = Some (kvs, it') \<and>
    drain (BlockIter_advance D) BlockIter_current it' = Some (kvs, it'')"
  using block_open_at [OF assms] block_iter.drain_all by blast

definition sample_opt :: Options where
  "sample_opt = (Options_default reference_deps)\<lparr>block_restart_interval := 2\<rparr>"

definition sample_kvs :: "(bytes \<times> bytes) list" where
  "sample_kvs = [([1, 2], [7]), ([1, 2, 3], []), ([1, 3], [8, 9]), ([2], [0])]"

lemma sample_opt_simps [simp]:
  "opt_cmp sample_opt = DefaultCmp" "block_restart_interval sample_opt = 2"
  by (simp_all add: sample_opt_def Options_default_def)

lemma sample_comparator: "comparator (opt_cmp sample_opt)"
  by (simp add: default_cmp.comparator_axioms)

lemma sample_input: "block_input sample_opt sample_kvs"
  by (simp add: block_input_def sample_kvs_def ascending_def DefaultCmp_def block_weight_simps)

theorem block_round_trip_witness:
  "\<exists>it it' it''. block_open reference_deps sample_opt sample_kvs = Some it \<and>
    drain (BlockIter_advance reference_deps) BlockIter_current it = Some (sample_kvs, it') \<and>
    drain (BlockIter_advance reference_deps) BlockIter_current it' = Some (sample_kvs, it'')"
  by (rule block_round_trip [OF ref_deps.integer_codec_axioms sample_comparator sample_input])

text \<open>C23: From every state an iterator over a built block can reach, \<open>seek(k)\<close> returns and
  leaves the iterator at the first entry whose key is not below \<open>k\<close>, or invalid if there is none.\<close>

theorem block_seek_lower_bound:
  assumes "integer_codec D" "comparator (opt_cmp opt)" "block_input opt kvs" "block_reach D opt kvs it"
  shows "\<exists>it'. BlockIter_seek D it k = Some it' \<and>
    current_key_val BlockIter_current it' =
      Some (find (\<lambda>e. cmp (opt_cmp opt) (fst e) k \<noteq> Less) kvs)"
  using block_reach_at [OF assms] block_iter.seek_current by blast

lemma sample_open: "\<exists>it. block_open reference_deps sample_opt sample_kvs = Some it"
  using block_open_at [OF ref_deps.integer_codec_axioms sample_comparator sample_input] by blast

theorem block_seek_lower_bound_witness:
  "\<exists>it it'. block_open reference_deps sample_opt sample_kvs = Some it \<and>
    BlockIter_seek reference_deps it [1, 2, 9] = Some it' \<and>
    current_key_val BlockIter_current it' = Some (Some ([1, 3], [8, 9]))"
proof -
  obtain it where it: "block_open reference_deps sample_opt sample_kvs = Some it"
    using sample_open by blast
  have "find (\<lambda>e. cmp (opt_cmp sample_opt) (fst e) [1, 2, 9] \<noteq> Less) sample_kvs =
      Some ([1, 3], [8, 9])"
    by (simp add: sample_kvs_def DefaultCmp_def)
  with it block_seek_lower_bound [OF ref_deps.integer_codec_axioms sample_comparator sample_input
      block_reach.open_block [OF it], of "[1, 2, 9]"]
  show ?thesis by auto
qed

text \<open>C27: On every reachable iterator of a built block every method returns: \<open>advance\<close>,
  \<open>current\<close> and \<open>seek\<close> always, \<open>prev\<close> on a valid iterator and \<open>seek_to_last\<close> on a block with
  entries. No bounds check, assertion or arithmetic check in them fails and no loop runs on.\<close>

theorem block_methods_total:
  assumes "integer_codec D" "comparator (opt_cmp opt)" "block_input opt kvs" "block_reach D opt kvs it"
  shows "(\<exists>b it'. BlockIter_advance D it = Some (b, it')) \<and>
    (\<exists>b k' v'. BlockIter_current it k v = Some (b, k', v')) \<and>
    (\<exists>it'. BlockIter_seek D it to = Some it') \<and>
    (BlockIter_valid it \<longrightarrow> (\<exists>b it'. BlockIter_prev D it = Some (b, it'))) \<and>
    (kvs \<noteq> [] \<longrightarrow> (\<exists>it'. BlockIter_seek_to_last D it = Some it'))"
proof -
  obtain p where p: "block_at D (opt_cmp opt) kvs p it" using block_reach_at [OF assms] by blast
  have "\<exists>b k' v'. BlockIter_current it k v = Some (b, k', v')"
    using p block_iter.current_at block_iter.current_none by (cases p) blast+
  moreover have "BlockIter_valid it \<Longrightarrow> \<exists>b it'. BlockIter_prev D it = Some (b, it')"
    using p block_iter.valid_iff [OF p] block_at_prev by (cases p) blast+
  ultimately show ?thesis
    using block_at_advance [OF p] block_iter.seek_at [OF p] block_at_last [OF p] by blast
qed

theorem block_methods_total_witness:
  "\<exists>it it'. block_open reference_deps sample_opt sample_kvs = Some it \<and>
    BlockIter_seek_to_last reference_deps it = Some it'"
proof -
  obtain it where it: "block_open reference_deps sample_opt sample_kvs = Some it"
    using sample_open by blast
  have "sample_kvs \<noteq> []" by (simp add: sample_kvs_def)
  with it block_methods_total [OF ref_deps.integer_codec_axioms sample_comparator sample_input
      block_reach.open_block [OF it]]
  show ?thesis by auto
qed

text \<open>\<open>prev\<close> undoes \<open>advance\<close>: after a successful \<open>advance\<close> from a valid position, \<open>prev\<close>
  returns true and the iterator shows the entry it showed before.\<close>

lemma block_prev_undoes_advance:
  assumes "integer_codec D" "comparator (opt_cmp opt)" "block_input opt kvs" "block_reach D opt kvs it"
    and "BlockIter_valid it" "BlockIter_advance D it = Some (True, it1)"
  shows "\<exists>it2. BlockIter_prev D it1 = Some (True, it2) \<and>
    current_key_val BlockIter_current it2 = current_key_val BlockIter_current it"
proof -
  obtain p where p: "block_at D (opt_cmp opt) kvs p it"
    using block_reach_at [OF assms(1-4)] by blast
  obtain i where i: "p = Some i" using block_iter.valid_iff [OF p] assms(5) by auto
  have "block_at D (opt_cmp opt) kvs (Some (Suc i)) it1"
    using block_at_advance [OF p] assms(6) i by (auto split: if_splits)
  from block_iter.prev_inside [OF this] show ?thesis
    using p i block_iter.current_key_val_at by metis
qed

lemma sample_two_steps:
  "\<exists>it0 it it1. block_open reference_deps sample_opt sample_kvs = Some it0 \<and>
    BlockIter_advance reference_deps it0 = Some (True, it) \<and> BlockIter_valid it \<and>
    current_key_val BlockIter_current it = Some (Some ([1, 2], [7])) \<and>
    BlockIter_advance reference_deps it = Some (True, it1)"
proof -
  have len: "length sample_kvs = 4" by (simp add: sample_kvs_def)
  obtain it0 where it0: "block_open reference_deps sample_opt sample_kvs = Some it0"
    "block_at reference_deps (opt_cmp sample_opt) sample_kvs None it0"
    using block_open_at [OF ref_deps.integer_codec_axioms sample_comparator sample_input] by blast
  obtain it where it: "BlockIter_advance reference_deps it0 = Some (True, it)"
    "block_at reference_deps (opt_cmp sample_opt) sample_kvs (Some 0) it"
    using block_at_advance [OF it0(2)] by (auto simp: len)
  obtain it1 where "BlockIter_advance reference_deps it = Some (True, it1)"
    using block_at_advance [OF it(2)] by (auto simp: len)
  moreover have "BlockIter_valid it" using block_iter.valid_iff [OF it(2)] by simp
  moreover have "current_key_val BlockIter_current it = Some (Some ([1, 2], [7]))"
    using block_iter.current_key_val_at [OF it(2)] by (simp add: sample_kvs_def)
  ultimately show ?thesis using it0(1) it(1) by blast
qed

text \<open>\<open>seek_to_last\<close> on a reachable iterator of a block with entries leaves it at the last
  entry, and the next \<open>advance\<close> ends the iteration.\<close>

lemma block_seek_to_last_at_last:
  assumes "integer_codec D" "comparator (opt_cmp opt)" "block_input opt kvs" "block_reach D opt kvs it"
    and "kvs \<noteq> []"
  shows "\<exists>it' it''. BlockIter_seek_to_last D it = Some it' \<and>
    current_key_val BlockIter_current it' = Some (Some (last kvs)) \<and>
    BlockIter_advance D it' = Some (False, it'')"
proof -
  obtain p where p: "block_at D (opt_cmp opt) kvs p it"
    using block_reach_at [OF assms(1-4)] by blast
  from block_at_last [OF p assms(5)] obtain it' where it': "BlockIter_seek_to_last D it = Some it'"
    "block_at D (opt_cmp opt) kvs (Some (length kvs - 1)) it'" by blast
  then show ?thesis
    using block_at_advance [OF it'(2)] block_iter.current_key_val_at [OF it'(2)] assms(5)
    by (auto simp: last_conv_nth)
qed

text \<open>A fresh builder accepts a list of entries, without a panic, exactly when their keys
  are strictly ascending in the configured order.\<close>

lemma block_builder_accepts_iff:
  assumes "integer_codec D" "comparator (opt_cmp opt)" "0 < block_restart_interval opt"
  shows "BlockBuilder_add_all D (BlockBuilder_new opt) kvs \<noteq> None \<longleftrightarrow>
    ascending (opt_cmp opt) (map fst kvs)"
  using BlockBuilder_add_all_iff [of "BlockBuilder_new opt" D "[]" "[0]" kvs]
    bb_inv_new [of D opt] assms
  by (simp add: BlockBuilder_new_def)

text \<open>The size estimate of a builder is the exact length of the block it finishes to.\<close>

lemma block_size_estimate_exact:
  assumes "integer_codec D"
  shows "length (BlockBuilder_finish D b) = BlockBuilder_size_estimate b"
  by (rule integer_codec.BlockBuilder_size_estimate_exact [OF assms])

text \<open>C18: The type of a block builder: after any sequence of \<open>add\<close>s that does not panic, with keys in any
  order, the entry count is the number of \<open>add\<close>s, the last key is the last one added, there is one
  restart point for every \<open>block_restart_interval\<close> entries, and the restart points ascend inside of
  the buffer. The next \<open>add\<close> panics only for the order of the keys, never for the restart counter.\<close>

theorem block_builder_well_typed:
  assumes "integer_codec D" "0 < block_restart_interval opt"
    and "BlockBuilder_add_all D (BlockBuilder_new opt) kvs = Some b"
  shows "BlockBuilder_wf b \<and> bb_opt b = opt \<and> BlockBuilder_entries b = length kvs \<and>
    BlockBuilder_last_key b = (if kvs = [] then [] else fst (last kvs)) \<and>
    (BlockBuilder_add D b key val = None \<longleftrightarrow>
      kvs \<noteq> [] \<and> cmp (opt_cmp opt) (BlockBuilder_last_key b) key \<noteq> Less)"
proof -
  have b: "BlockBuilder_wf b" "bb_opt b = opt" "BlockBuilder_entries b = length kvs"
    "BlockBuilder_last_key b = (if kvs = [] then [] else fst (last kvs))"
    using integer_codec.BlockBuilder_wf_add_all [OF assms(1) BlockBuilder_wf_new [OF assms(2)] assms(3)]
    by (simp_all add: BlockBuilder_new_def BlockBuilder_entries_def BlockBuilder_last_key_def)
  moreover have "bb_buffer b = [] \<longleftrightarrow> kvs = []" "bb_restart_counter b \<le> block_restart_interval opt"
    using b(1-3) by (simp_all add: BlockBuilder_wf_def BlockBuilder_entries_def)
  ultimately show ?thesis
    by (auto simp: BlockBuilder_add_None_iff BlockBuilder_last_key_def)
qed

theorem block_builder_well_typed_witness:
  "\<exists>b. BlockBuilder_add_all reference_deps (BlockBuilder_new sample_opt) sample_kvs = Some b \<and>
    BlockBuilder_wf b \<and> BlockBuilder_entries b = length sample_kvs \<and>
    BlockBuilder_add reference_deps b [1] [] = None"
proof -
  have "ascending (opt_cmp sample_opt) (map fst sample_kvs)" using sample_input by (simp add: block_input_def)
  then obtain b where b: "BlockBuilder_add_all reference_deps (BlockBuilder_new sample_opt) sample_kvs = Some b"
    using BlockBuilder_add_all_iff [of "BlockBuilder_new sample_opt" reference_deps "[]" "[0]" sample_kvs]
      bb_inv_new ref_deps.integer_codec_axioms sample_comparator by (auto simp: BlockBuilder_new_def)
  from block_builder_well_typed [OF ref_deps.integer_codec_axioms _ b] b show ?thesis
    by (auto simp: sample_kvs_def DefaultCmp_def)
qed

end
