(* ===== verification/SST_TableBuild.thy ===== *)
theory SST_TableBuild
  imports SST_Reference SST_BlockProps
begin

text \<open>
  The invariant of the table builder. \<open>tb_inv\<close> says which data blocks are in the file, which
  entries are pending in the data block, and that index, filter and file account for them; \<open>add\<close>
  and \<open>write_data_block\<close> keep it, and \<open>finish\<close> turns it into \<open>table_file\<close>.
\<close>

section \<open>Sizes\<close>

text \<open>
  A bound on everything an entry leads to in a table: its share of a data block, and the
  separator, handle and trailer of a block in case it is the last one of its block. A file is
  at most three times as large without its filter block, also when blocks are compressed.
\<close>

definition entry_weight :: "bytes \<times> bytes \<Rightarrow> nat" where
  "entry_weight e = length (fst e) + length (snd e) + 64"

definition table_weight :: "(bytes \<times> bytes) list \<Rightarrow> nat" where
  "table_weight kvs = sum_list (map entry_weight kvs)"

lemma table_weight_simps [simp]:
  "table_weight [] = 0" "table_weight (e # kvs) = entry_weight e + table_weight kvs"
  "table_weight (xs @ ys) = table_weight xs + table_weight ys"
  by (simp_all add: table_weight_def)

lemma block_weight_le: "kvs \<noteq> [] \<Longrightarrow> block_weight kvs \<le> table_weight kvs"
proof (induction kvs)
  case (Cons e kvs)
  then show ?case
    by (cases "kvs = []") (simp_all add: block_weight_simps entry_weight_def)
qed simp

lemma table_weight_nonempty: "kvs \<noteq> [] \<Longrightarrow> 64 \<le> table_weight kvs"
  by (cases kvs) (simp_all add: entry_weight_def)

lemma entry_weight_last:
  "kvs \<noteq> [] \<Longrightarrow> length (fst (last kvs)) + 64 \<le> table_weight kvs"
  by (induction kvs) (auto simp: entry_weight_def)

section \<open>Block builders that hold given entries\<close>

definition builder_holds :: "deps \<Rightarrow> Options \<Rightarrow> BlockBuilder option \<Rightarrow> (bytes \<times> bytes) list \<Rightarrow> bool" where
  "builder_holds D opt ob kvs \<longleftrightarrow>
     (\<exists>b es rs. ob = Some b \<and> bb_opt b = opt \<and> bb_inv D b es rs \<and> map snd es = kvs \<and>
        bb_ref D opt b kvs)"

lemma builder_holds_new: "builder_holds D opt (Some (BlockBuilder_new opt)) []"
  using bb_inv_new [of D opt] bb_ref_new [of D opt] by (auto simp: builder_holds_def BlockBuilder_new_def)

lemma builder_holdsE:
  assumes "builder_holds D opt ob kvs"
  obtains b es rs where "ob = Some b" "bb_opt b = opt" "bb_inv D b es rs" "kvs = map snd es" "bb_ref D opt b kvs"
  using assms by (auto simp: builder_holds_def)

lemma builder_holds_last_key:
  "builder_holds D opt (Some b) kvs \<Longrightarrow> kvs \<noteq> [] \<Longrightarrow> BlockBuilder_last_key b = fst (last kvs)"
  by (erule builder_holdsE) (simp add: BlockBuilder_last_key_def bb_inv_def last_map)

lemma builder_holds_entries:
  "builder_holds D opt (Some b) kvs \<Longrightarrow> BlockBuilder_entries b = length kvs"
  by (auto simp: builder_holds_def BlockBuilder_entries_def bb_inv_def)

lemma builder_holds_empty_size:
  "builder_holds D opt (Some b) [] \<Longrightarrow> BlockBuilder_size_estimate b = 8"
  by (auto simp: builder_holds_def BlockBuilder_size_estimate_def bb_inv_def layout_simps)

lemma builder_holds_ref: "builder_holds D opt (Some b) kvs \<Longrightarrow> bb_ref D opt b kvs"
  by (auto simp: builder_holds_def)

lemma builder_holds_size:
  "integer_codec D \<Longrightarrow> builder_holds D opt (Some b) kvs \<Longrightarrow> kvs \<noteq> [] \<Longrightarrow> 8 < BlockBuilder_size_estimate b"
  using bb_ref_size [OF _ builder_holds_ref] ref_block_size by metis

lemma builder_holds_add:
  assumes "builder_holds D opt (Some b) kvs" "0 < block_restart_interval opt"
    and "kvs = [] \<or> cmp (opt_cmp opt) (fst (last kvs)) k = Less"
  shows "\<exists>b'. BlockBuilder_add D b k v = Some b' \<and> builder_holds D opt (Some b') (kvs @ [(k, v)])"
proof -
  obtain es rs where b: "bb_opt b = opt" "bb_inv D b es rs" "kvs = map snd es"
    using assms(1) by (auto simp: builder_holds_def)
  note ref = builder_holds_ref [OF assms(1)]
  have "key_after (opt_cmp (bb_opt b)) es k"
    using assms(3) b by (cases "es = []") (simp_all add: key_after_def last_map)
  from BlockBuilder_add_inv [OF b(2) this, of v] assms(2) b(1)
  obtain b' s rs' where "BlockBuilder_add D b k v = Some b'" "bb_opt b' = opt"
    "bb_inv D b' (es @ [(s, k, v)]) rs'" by auto
  with bb_ref_add [OF ref assms(2)] show ?thesis using b(3) by (fastforce simp: builder_holds_def)
qed

lemma builder_holds_finish:
  assumes D: "integer_codec D" and b: "builder_holds D opt (Some b) kvs" and w: "block_weight kvs < 2 ^ 32"
  shows "holds_entries D (BlockBuilder_finish D b) kvs"
    and "length (BlockBuilder_finish D b) \<le> block_weight kvs" "4 < length (BlockBuilder_finish D b)"
    and "BlockBuilder_finish D b = ref_block D opt kvs"
proof -
  show "BlockBuilder_finish D b = ref_block D opt kvs" by (rule bb_ref_finish [OF builder_holds_ref [OF b]])
  obtain es rs where b: "bb_inv D b es rs" "kvs = map snd es"
    using b by (auto simp: builder_holds_def)
  have "chained [] es" "restarts_ok es rs" using b by (auto simp: bb_inv_def)
  from integer_codec.block_bytes_bound [OF D this] w b
  show len: "length (BlockBuilder_finish D b) \<le> block_weight kvs"
    by (simp only: BlockBuilder_finish_bytes)
  then have "length (BlockBuilder_finish D b) < 2 ^ 32" using w by simp
  then show "holds_entries D (BlockBuilder_finish D b) kvs"
    using BlockBuilder_finish_layout [OF b(1)] b(2) by (auto simp: holds_entries_def)
  show "4 < length (BlockBuilder_finish D b)"
    using restarts_ok_0 [OF \<open>restarts_ok es rs\<close>]
    by (simp add: BlockBuilder_finish_bytes [OF b(1)] integer_codec.block_bytes_length [OF D])
qed

section \<open>The invariant\<close>

definition blocks_inv ::
  "deps \<Rightarrow> Cmp \<Rightarrow> bytes \<Rightarrow> data_block list \<Rightarrow> (bytes \<times> bytes) list \<Rightarrow> bool" where
  "blocks_inv D C file blocks cur \<longleftrightarrow>
     (\<forall>b \<in> set blocks. data_ok D file b) \<and> separated C blocks \<and> seps_made C blocks \<and>
     (blocks \<noteq> [] \<longrightarrow> cur \<noteq> [] \<longrightarrow> sep_made C (last blocks) (fst (hd cur))) \<and>
     ascending C (map fst (all_entries blocks @ cur)) \<and> [] \<notin> fst ` set (all_entries blocks @ cur) \<and>
     (\<forall>b \<in> set blocks. \<forall>k \<in> fst ` set cur. sep_before C b k) \<and>
     laid_out (length file) blocks \<and>
     (\<forall>b \<in> set blocks. db_sep b \<noteq> [] \<and>
        length (db_sep b) \<le> length (fst (last (db_entries b))) + 1 \<and>
        length (handle_bytes D (db_handle b)) \<le> 16) \<and>
     length file \<le> 3 * table_weight (all_entries blocks)"

text \<open>The file holds the reference bytes of its data blocks.\<close>

definition written_as_ref :: "deps \<Rightarrow> Options \<Rightarrow> bytes \<Rightarrow> data_block list \<Rightarrow> bool" where
  "written_as_ref D opt file blocks \<longleftrightarrow>
     file = ref_data D opt (map db_entries blocks) \<and> handles_from D opt 0 blocks"

definition tb_inv ::
  "deps \<Rightarrow> Options \<Rightarrow> ('w \<Rightarrow> bytes) \<Rightarrow> 'w TableBuilder \<Rightarrow> data_block list \<Rightarrow> (bytes \<times> bytes) list \<Rightarrow> bool"
  where
  "tb_inv D opt out self blocks cur \<longleftrightarrow>
     tb_opt self = opt \<and> tb_offset self = length (out (tb_dst self)) \<and>
     blocks_inv D (opt_cmp opt) (out (tb_dst self)) blocks cur \<and>
     written_as_ref D opt (out (tb_dst self)) blocks \<and>
     tb_num_entries self = length (all_entries blocks @ cur) \<and>
     tb_prev_block_last_key self =
       (if blocks = [] then [] else fst (last (db_entries (last blocks)))) \<and>
     builder_holds D opt (tb_index_block self) (index_entries D blocks) \<and>
     builder_holds D opt (tb_data_block self) cur \<and>
     (\<exists>fb. tb_filter_block self = Some fb \<and>
        fbb_inv (opt_filter_policy opt) fb (tb_offset self)
          (table_records blocks @ map (\<lambda>e. (tb_offset self, fst e)) cur))"

lemma tb_invE:
  assumes "tb_inv D opt out self blocks cur"
  obtains db ib fb where "tb_data_block self = Some db" "builder_holds D opt (Some db) cur"
    "tb_index_block self = Some ib" "builder_holds D opt (Some ib) (index_entries D blocks)"
    "tb_filter_block self = Some fb"
    "fbb_inv (opt_filter_policy opt) fb (tb_offset self)
       (table_records blocks @ map (\<lambda>e. (tb_offset self, fst e)) cur)"
proof -
  have "builder_holds D opt (tb_data_block self) cur"
    "builder_holds D opt (tb_index_block self) (index_entries D blocks)"
    using assms by (simp_all add: tb_inv_def)
  then obtain db ib where "tb_data_block self = Some db" "tb_index_block self = Some ib"
    by (auto elim!: builder_holdsE)
  with assms that show thesis by (auto simp: tb_inv_def)
qed

text \<open>The demands on the options.\<close>

definition table_options :: "Options \<Rightarrow> bool" where
  "table_options opt \<longleftrightarrow> 0 < block_restart_interval opt \<and> 8 \<le> block_size opt \<and>
     length (policy_name (opt_filter_policy opt)) < 2 ^ 16"

lemma tb_inv_opt: "tb_inv D opt out self blocks cur \<Longrightarrow> tb_opt self = opt"
  by (simp add: tb_inv_def)

lemma tb_inv_new:
  assumes "out dst = []"
  shows "tb_inv D opt out (TableBuilder_new opt dst) [] []"
  using assms builder_holds_new [of D opt] fbb_inv_new [of "opt_filter_policy opt"]
  by (simp add: tb_inv_def blocks_inv_def written_as_ref_def TableBuilder_new_def separated_def
      seps_made_def ascending_def)

lemma index_weight:
  assumes "blocks_inv D C file blocks cur"
  shows "block_weight (index_entries D blocks) \<le> 8 + table_weight (all_entries blocks)"
proof -
  have "block_weight (index_entries D bs) \<le> 8 + table_weight (all_entries bs)"
    if "\<forall>b \<in> set bs. db_entries b \<noteq> [] \<and>
      length (db_sep b) \<le> length (fst (last (db_entries b))) + 1 \<and>
      length (handle_bytes D (db_handle b)) \<le> 16" for bs
    using that
  proof (induction bs)
    case (Cons b bs)
    then show ?case
      using entry_weight_last [of "db_entries b"]
      by (simp add: index_entries_def all_entries_def block_weight_simps)
  qed (simp add: block_weight_simps)
  then show ?thesis using assms by (simp add: blocks_inv_def data_ok_def)
qed

section \<open>Writing a data block\<close>

locale table_env = table_writer D W out + third_party_laws D + short_comparator C
  for D :: deps and W :: "'w Write" and out :: "'w \<Rightarrow> bytes" and C :: Cmp
begin

lemma pack_total:
  assumes "length block < 2 ^ 31"
  shows "\<exists>data. pack D ctype block = Inr data \<and> length data \<le> max_compress_len (length block)"
  using compress_total [of block] assms
  by (cases ctype) (force simp: pack_def max_compress_len_def)+

lemma ascending_last:
  assumes "ascending C (map fst kvs)" "k \<in> fst ` set kvs" "cmp C (fst (last kvs)) s = Less"
  shows "cmp C k s = Less"
proof -
  obtain i where i: "i < length kvs" "k = fst (kvs ! i)" using assms(2) by (auto simp: in_set_conv_nth)
  have last: "last kvs = kvs ! (length kvs - 1)" using i(1) by (cases kvs) (simp_all add: last_conv_nth)
  show ?thesis
  proof (cases "i = length kvs - 1")
    case False
    then have "i < length kvs - 1" "length kvs - 1 < length kvs" using i(1) by simp_all
    then have "cmp C (fst (kvs ! i)) (fst (kvs ! (length kvs - 1))) = Less"
      using assms(1) i(1)
        sorted_wrt_nth_less [of "\<lambda>a b. cmp C a b = Less" "map fst kvs" i "length kvs - 1"]
      by (simp add: ascending_def)
    then show ?thesis using assms(3) i(2) last cmp_less_trans by metis
  qed (use assms(3) i(2) last in simp)
qed

text \<open>A block goes to the end of the file; its handle fits the bytes reserved for it.\<close>

lemma write_contents:
  assumes offset: "tb_offset self = length (out (tb_dst self))" "tb_offset self < 2 ^ 55"
    and len: "length contents < 2 ^ 31"
  shows "\<exists>h w' n. TableBuilder_write_block D W self contents ctype =
      Some (Inr h, self\<lparr>tb_dst := w', tb_offset := length (out w')\<rparr>) \<and>
    out w' = out (tb_dst self) @ n \<and> n = sealed D ctype (ref_pack D ctype contents) \<and>
    length n \<le> max_compress_len (length contents) + 5 \<and>
    h = BlockHandle_new (tb_offset self) (length n - 5) \<and>
    stored D (out w') h contents \<and> handle_ok h \<and> length (handle_bytes D h) \<le> 16"
proof -
  from pack_total [OF len, of ctype] obtain data where
    data: "pack D ctype contents = Inr data" "length data \<le> max_compress_len (length contents)" by blast
  have small: "length data < 2 ^ 33" using data(2) len by (simp add: max_compress_len_def)
  then have "tb_offset self + length data + 5 < 2 ^ 64" using offset(2) by simp
  from write_block_eq [OF data(1) this] obtain w' where
    w': "TableBuilder_write_block D W self contents ctype =
        Some (Inr (BlockHandle_new (tb_offset self) (length data)),
          self\<lparr>tb_dst := w', tb_offset := tb_offset self + length data + 5\<rparr>)"
      "out w' = out (tb_dst self) @ sealed D ctype data" by blast
  have "stored D (out w') (BlockHandle_new (tb_offset self) (length data)) contents"
    using stored_last [OF data(1), of "out (tb_dst self)"] w'(2) offset(1) by simp
  moreover have "handle_ok (BlockHandle_new (tb_offset self) (length data))"
    and "length (handle_bytes D (BlockHandle_new (tb_offset self) (length data))) \<le> 16"
    using offset(2) small by (simp_all add: handle_ok_def handle_bytes_fit)
  moreover have "ref_pack D ctype contents = data" using data(1) by (simp add: ref_pack_def)
  ultimately show ?thesis using w' data(2) offset(1) by (force simp: add.assoc)
qed

lemma blocks_inv_push:
  assumes inv: "blocks_inv D C file blocks cur" and cur: "cur \<noteq> []"
    and sep: "cmp C (fst (last cur)) sep = Less" "sep \<noteq> []" "length sep \<le> length (fst (last cur)) + 1"
    and h: "stored D (file @ n) h contents" "handle_ok h" "length (handle_bytes D h) \<le> 16"
    and contents: "holds_entries D contents cur" and len: "length n \<le> 3 * table_weight cur"
    and fresh: "bh_offset h = length file"
  shows "blocks_inv D C (file @ n) (blocks @ [\<lparr>db_handle = h, db_sep = sep, db_entries = cur\<rparr>]) []"
proof -
  let ?b = "\<lparr>db_handle = h, db_sep = sep, db_entries = cur\<rparr>"
  have asc: "ascending C (map fst cur)"
    using inv by (simp add: blocks_inv_def ascending_def sorted_wrt_append)
  have "\<forall>b \<in> set (blocks @ [?b]). data_ok D (file @ n) b"
    using inv cur h contents data_ok_append by (auto simp: blocks_inv_def data_ok_def)
  moreover have "separated C (blocks @ [?b])"
    using inv ascending_last [OF asc _ sep(1)] by (auto simp: blocks_inv_def separated_snoc)
  moreover have "laid_out (length (file @ n)) (blocks @ [?b])"
    using inv fresh stored_end [OF integer_codec_axioms h(1)]
    by (intro laid_out_snoc [of "length file"]) (simp_all add: blocks_inv_def block_end_def)
  ultimately show ?thesis
    using inv sep(2,3) h(3) len fresh cur by (auto simp: blocks_inv_def seps_made_snoc)
qed

lemma last_sep_below:
  assumes inv: "blocks_inv D C file blocks cur" and cur: "cur \<noteq> []" "blocks \<noteq> []"
    and sep: "cmp C (fst (last cur)) sep = Less"
  shows "cmp C (db_sep (last blocks)) sep = Less"
proof -
  have "cmp C (db_sep (last blocks)) (fst (last cur)) \<noteq> Greater"
    using inv cur by (intro sep_before_upto) (auto simp: blocks_inv_def)
  then show ?thesis using sep by (rule cmp_le_less_trans)
qed

end

context table_env
begin

lemma index_add:
  assumes index: "builder_holds D opt (Some ib) (index_entries D blocks)"
    and opt: "opt_cmp opt = C" "0 < block_restart_interval opt"
    and inv: "blocks_inv D C file blocks cur" "cur \<noteq> []" "cmp C (fst (last cur)) sep = Less"
  shows "\<exists>ib'. BlockBuilder_add D ib sep (handle_bytes D h) = Some ib' \<and>
    builder_holds D opt (Some ib') (index_entries D (blocks @ [\<lparr>db_handle = h, db_sep = sep, db_entries = cur\<rparr>]))"
proof -
  have "index_entries D blocks = [] \<or>
      cmp (opt_cmp opt) (fst (last (index_entries D blocks))) sep = Less"
    using last_sep_below [OF inv(1,2) _ inv(3)] opt(1) by (cases blocks rule: rev_cases) simp_all
  from builder_holds_add [OF index opt(2) this] show ?thesis by simp
qed

lemma filter_start:
  assumes inv: "fbb_inv P fb off (table_records blocks @ map (\<lambda>e. (off, fst e)) cur)"
    and creates: "policy_creates P (fst ` set (all_entries blocks @ cur)) (length (all_entries blocks @ cur))"
    and off: "off \<le> off'" "off' < 2 ^ 43" and b: "db_entries b = cur" "bh_offset (db_handle b) = off"
  shows "\<exists>fb'. FilterBlockBuilder_start_block fb off' = Some fb' \<and>
    fbb_inv P fb' off' (table_records (blocks @ [b]))"
proof -
  let ?recs = "table_records blocks @ map (\<lambda>e. (off, fst e)) cur"
  have "map snd ?recs = map fst (all_entries blocks @ cur)" by (simp add: table_records_keys comp_def)
  then have "snd ` set ?recs = fst ` set (all_entries blocks @ cur)" and
    "length ?recs = length (all_entries blocks @ cur)"
    by (metis list.set_map) (metis \<open>map snd ?recs = _\<close> length_map)
  then have "policy_creates P (snd ` set ?recs) (length ?recs)" using creates by (simp only:)
  from fbb_inv_start_block [OF inv off this] b show ?thesis by simp
qed

text \<open>A separator for any next key will do, as long as it is above the last key of the block.\<close>

lemma write_data_block_sep:
  assumes inv: "tb_inv D opt out self blocks cur" and cur: "cur \<noteq> []"
    and opt: "opt_cmp opt = C" "table_options opt"
    and weight: "table_weight (all_entries blocks @ cur) < 2 ^ 30"
    and creates: "policy_creates (opt_filter_policy opt) (fst ` set (all_entries blocks @ cur))
      (length (all_entries blocks @ cur))"
    and sep: "find_shortest_sep C (fst (last cur)) key = Some sep"
    and sep': "cmp C (fst (last cur)) sep = Less" "sep \<noteq> []" "length sep \<le> length (fst (last cur)) + 1"
  shows "\<exists>self' b. TableBuilder_write_data_block D W self key = Some (Inr (), self') \<and>
    tb_inv D opt out self' (blocks @ [b]) [] \<and> db_entries b = cur \<and> db_sep b = sep"
proof -
  let ?off = "tb_offset self"
  from inv obtain db ib fb where st: "tb_data_block self = Some db" "builder_holds D opt (Some db) cur"
      "tb_index_block self = Some ib" "builder_holds D opt (Some ib) (index_entries D blocks)"
      "tb_filter_block self = Some fb"
      "fbb_inv (opt_filter_policy opt) fb ?off (table_records blocks @ map (\<lambda>e. (?off, fst e)) cur)"
    by (rule tb_invE)
  have binv: "blocks_inv D C (out (tb_dst self)) blocks cur"
    and off: "?off = length (out (tb_dst self))" and o: "tb_opt self = opt"
    using inv opt(1) by (simp_all add: tb_inv_def)
  have small: "?off < 2 ^ 35" using binv weight off by (simp add: blocks_inv_def)
  let ?contents = "BlockBuilder_finish D db"
  have w: "block_weight cur \<le> table_weight cur" "block_weight cur < 2 ^ 31"
    using block_weight_le [OF cur] weight by simp_all
  then have w32: "block_weight cur < 2 ^ 32" by simp
  note contents = builder_holds_finish [OF integer_codec_axioms st(2) w32]
  then have "length ?contents < 2 ^ 31" using w by simp
  let ?self1 = "self\<lparr>tb_data_block := None, tb_prev_block_last_key := fst (last cur)\<rparr>"
  have "tb_offset ?self1 = length (out (tb_dst ?self1))" "tb_offset ?self1 < 2 ^ 55"
    using off small by simp_all
  from write_contents [OF this \<open>length ?contents < 2 ^ 31\<close>, of "compression_type opt"] obtain h w' n where
    wr: "TableBuilder_write_block D W ?self1 ?contents (compression_type opt) =
        Some (Inr h, ?self1\<lparr>tb_dst := w', tb_offset := length (out w')\<rparr>)"
      "out w' = out (tb_dst self) @ n" "length n \<le> max_compress_len (length ?contents) + 5"
      "h = BlockHandle_new ?off (length n - 5)"
      "n = sealed D (compression_type opt) (ref_stored D opt cur)"
      "stored D (out w') h ?contents" "handle_ok h" "length (handle_bytes D h) \<le> 16"
    using contents(4) by (auto simp: ref_stored_def)
  let ?b = "\<lparr>db_handle = h, db_sep = sep, db_entries = cur\<rparr>"
  have n: "length n \<le> 3 * table_weight cur"
    using wr(3) contents(2) w(1) table_weight_nonempty [OF cur] by (simp add: max_compress_len_def)
  have push: "blocks_inv D C (out w') (blocks @ [?b]) []"
    using blocks_inv_push [OF binv cur sep' _ wr(7,8) contents(1) n] wr(2,4,6) off
    by simp
  from index_add [OF st(4) opt(1) _ binv cur sep'(1)] opt(2) obtain ib' where
    ib': "BlockBuilder_add D ib sep (handle_bytes D h) = Some ib'"
      "builder_holds D opt (Some ib') (index_entries D (blocks @ [?b]))"
    by (auto simp: table_options_def)
  have "length (out w') < 2 ^ 43"
    using n small off wr(2) weight by simp
  from filter_start [OF st(6) creates _ this, of ?b] wr(2,4) off obtain fb' where
    fb': "FilterBlockBuilder_start_block fb (length (out w')) = Some fb'"
      "fbb_inv (opt_filter_policy opt) fb' (length (out w')) (table_records (blocks @ [?b]))"
    by auto
  let ?self' = "?self1\<lparr>tb_dst := w', tb_offset := length (out w'), tb_index_block := Some ib',
    tb_data_block := Some (BlockBuilder_new opt), tb_filter_block := Some fb'\<rparr>"
  have "written_as_ref D opt (out (tb_dst self)) blocks" using inv by (simp add: tb_inv_def)
  then have written: "written_as_ref D opt (out w') (blocks @ [?b])"
    using wr(2,4,5) off by (simp add: written_as_ref_def handles_from_snoc [OF integer_codec_axioms])
  have "TableBuilder_write_data_block D W self key = Some (Inr (), ?self')"
    using st sep wr(1) ib'(1) fb'(1) encode_handle_eq [OF wr(8)] o opt(1)
      builder_holds_last_key [OF st(2) cur]
    by (simp add: TableBuilder_write_data_block_def)
  moreover have "tb_inv D opt out ?self' (blocks @ [?b]) []"
    using inv push ib'(2) fb'(2) o opt(1) builder_holds_new [of D opt] written
    by (simp add: tb_inv_def)
  ultimately show ?thesis by (intro exI [of _ ?self'] exI [of _ ?b]) simp
qed

lemma write_data_block_inv:
  assumes inv: "tb_inv D opt out self blocks cur" and cur: "cur \<noteq> []"
    and opt: "opt_cmp opt = C" "table_options opt"
    and weight: "table_weight (all_entries blocks @ cur) < 2 ^ 30"
    and creates: "policy_creates (opt_filter_policy opt) (fst ` set (all_entries blocks @ cur))
      (length (all_entries blocks @ cur))"
    and key: "cmp C (fst (last cur)) key = Less"
  shows "\<exists>self' b. TableBuilder_write_data_block D W self key = Some (Inr (), self') \<and>
    tb_inv D opt out self' (blocks @ [b]) [] \<and> db_entries b = cur \<and> sep_before C b key \<and>
    sep_made C b key"
proof -
  from sep_returns [OF key] obtain sep where sep: "find_shortest_sep C (fst (last cur)) key = Some sep"
    by blast
  from sep_short [OF key sep] have "sep \<noteq> []" "length sep \<le> length (fst (last cur)) + 1" by simp_all
  from write_data_block_sep [OF inv cur opt weight creates sep sep_above [OF key sep] this] obtain self' b where
    "TableBuilder_write_data_block D W self key = Some (Inr (), self')"
    "tb_inv D opt out self' (blocks @ [b]) []" "db_entries b = cur" "db_sep b = sep" by blast
  moreover from this have "sep_before C b key" "sep_made C b key"
    using key sep by (auto simp: sep_before_def sep_made_def cmp_refl)
  ultimately show ?thesis by blast
qed

end

section \<open>Adding entries\<close>

context table_env
begin

lemma add_pending:
  assumes inv: "tb_inv D opt out self blocks cur" and opt: "opt_cmp opt = C" "table_options opt"
    and asc: "ascending C (map fst (all_entries blocks @ cur @ [(key, val)]))" and key: "key \<noteq> []"
    and seps: "\<forall>b \<in> set blocks. sep_before C b key" "blocks \<noteq> [] \<Longrightarrow> cur = [] \<Longrightarrow> sep_made C (last blocks) key"
    and n: "tb_num_entries self + 1 < 2 ^ 64"
  shows "\<exists>self'. TableBuilder_add_entry D self key val = Some (Inr (), self') \<and>
    tb_inv D opt out self' blocks (cur @ [(key, val)])"
proof -
  from inv obtain db ib fb where st: "tb_data_block self = Some db" "builder_holds D opt (Some db) cur"
      "tb_index_block self = Some ib" "builder_holds D opt (Some ib) (index_entries D blocks)"
      "tb_filter_block self = Some fb"
      "fbb_inv (opt_filter_policy opt) fb (tb_offset self)
         (table_records blocks @ map (\<lambda>e. (tb_offset self, fst e)) cur)"
    by (rule tb_invE)
  have "cur = [] \<or> cmp (opt_cmp opt) (fst (last cur)) key = Less"
    using asc opt(1) by (cases cur rule: rev_cases) (simp_all add: ascending_def sorted_wrt_append)
  from builder_holds_add [OF st(2) _ this] opt(2) obtain db' where
    db': "BlockBuilder_add D db key val = Some db'" "builder_holds D opt (Some db') (cur @ [(key, val)])"
    by (auto simp: table_options_def)
  from fbb_inv_add_key [OF st(6) key]
  have "fbb_inv (opt_filter_policy opt) (FilterBlockBuilder_add_key fb key) (tb_offset self)
      (table_records blocks @ map (\<lambda>e. (tb_offset self, fst e)) (cur @ [(key, val)]))"
    by simp
  moreover have "blocks_inv D (opt_cmp opt) (out (tb_dst self)) blocks (cur @ [(key, val)])"
    using inv asc key seps opt(1) by (auto simp: tb_inv_def blocks_inv_def hd_append)
  ultimately show ?thesis
    using st db' inv n by (simp add: TableBuilder_add_entry_def tb_inv_def run_simps)
qed

lemma add_inv:
  assumes inv: "tb_inv D opt out self blocks cur" and cur: "cur = [] \<Longrightarrow> blocks = []"
    and opt: "opt_cmp opt = C" "table_options opt"
    and asc: "ascending C (map fst (all_entries blocks @ cur @ [(key, val)]))" and key: "key \<noteq> []"
    and weight: "table_weight (all_entries blocks @ cur @ [(key, val)]) < 2 ^ 30"
    and creates: "policy_creates (opt_filter_policy opt) (fst ` set (all_entries blocks @ cur))
      (length (all_entries blocks @ cur))"
  shows "\<exists>self' blocks' cur'. TableBuilder_add D W self key val = Some (Inr (), self') \<and>
    tb_inv D opt out self' blocks' cur' \<and> cur' \<noteq> [] \<and>
    all_entries blocks' @ cur' = all_entries blocks @ cur @ [(key, val)] \<and>
    (\<forall>rest. map db_entries blocks' @ ref_cut D opt cur' rest =
       map db_entries blocks @ ref_cut D opt cur ((key, val) # rest))"
proof -
  from inv obtain db where db: "tb_data_block self = Some db" "builder_holds D opt (Some db) cur"
    by (rule tb_invE)
  have o: "tb_opt self = opt" using inv by (simp add: tb_inv_def)
  have "\<forall>k \<in> fst ` set (all_entries blocks). cmp C k key = Less"
    using asc by (auto simp: ascending_def sorted_wrt_append)
  moreover have "blocks \<noteq> [] \<Longrightarrow> fst (last (db_entries (last blocks))) \<in> fst ` set (all_entries blocks)"
    using inv by (cases blocks rule: rev_cases) (auto simp: tb_inv_def blocks_inv_def data_ok_def)
  ultimately have "blocks \<noteq> [] \<Longrightarrow> cmp C (fst (last (db_entries (last blocks)))) key = Less" by blast
  then have guard: "tb_prev_block_last_key self \<noteq> [] \<longrightarrow>
      cmp (opt_cmp (tb_opt self)) (tb_prev_block_last_key self) key = Less"
    using inv o opt(1) by (simp add: tb_inv_def)
  have seps: "\<forall>b \<in> set blocks. sep_before C b key"
  proof
    fix b assume b: "b \<in> set blocks"
    then obtain e cur' where e: "cur = e # cur'" using cur by (cases cur) auto
    then have "sep_before C b (fst e)"
      using inv b opt(1) by (auto simp: tb_inv_def blocks_inv_def)
    moreover have "cmp C (fst e) key \<noteq> Greater"
      using asc e by (auto simp: ascending_def sorted_wrt_append)
    ultimately show "sep_before C b key" by (rule sep_before_mono)
  qed
  have "length kvs \<le> table_weight kvs" for kvs :: "(bytes \<times> bytes) list"
    by (induction kvs) (simp_all add: entry_weight_def)
  from this [of "all_entries blocks @ cur"] have num: "length (all_entries blocks @ cur) + 1 < 2 ^ 64"
    using weight by (simp add: entry_weight_def)
  have size: "BlockBuilder_size_estimate db = length (ref_block D opt cur)"
    by (rule bb_ref_size [OF integer_codec_axioms builder_holds_ref [OF db(2)]])
  show ?thesis
  proof (cases "BlockBuilder_size_estimate db > block_size opt")
    case True
    then have ne: "cur \<noteq> []"
      using db opt(2) builder_holds_empty_size [of D opt db] by (auto simp: table_options_def)
    then have last: "cmp C (fst (last cur)) key = Less"
      using asc by (cases cur rule: rev_cases) (simp_all add: ascending_def sorted_wrt_append)
    have w: "table_weight (all_entries blocks @ cur) < 2 ^ 30" using weight by simp
    from write_data_block_inv [OF inv ne opt w creates last] obtain self1 b where
      s1: "TableBuilder_write_data_block D W self key = Some (Inr (), self1)"
        "tb_inv D opt out self1 (blocks @ [b]) []" "db_entries b = cur" "sep_before C b key"
        "sep_made C b key"
      by blast
    have num1: "tb_num_entries self1 + 1 < 2 ^ 64" using s1(2,3) num by (simp add: tb_inv_def)
    have asc1: "ascending C (map fst (all_entries (blocks @ [b]) @ [] @ [(key, val)]))"
      using asc s1(3) by simp
    have cut: "map db_entries (blocks @ [b]) @ ref_cut D opt [(key, val)] rest =
        map db_entries blocks @ ref_cut D opt cur ((key, val) # rest)" for rest
      using True size s1(3) by simp
    from add_pending [OF s1(2) opt asc1 key _ _ num1] s1 seps obtain self2 where
      s2: "TableBuilder_add_entry D self1 key val = Some (Inr (), self2)"
        "tb_inv D opt out self2 (blocks @ [b]) ([] @ [(key, val)])" by auto
    have "TableBuilder_add D W self key val = Some (Inr (), self2)"
      using s1(1) s2(1) db guard o True by (simp add: TableBuilder_add_def Let_def)
    then show ?thesis using s1(3) s2(2) cut
      by (intro exI [of _ self2] exI [of _ "blocks @ [b]"] exI [of _ "[(key, val)]"]) simp
  next
    case False
    have num1: "tb_num_entries self + 1 < 2 ^ 64" using inv num by (simp add: tb_inv_def)
    have cut: "map db_entries blocks @ ref_cut D opt (cur @ [(key, val)]) rest =
        map db_entries blocks @ ref_cut D opt cur ((key, val) # rest)" for rest
      using False size by simp
    from add_pending [OF inv opt asc key seps _ num1] cur obtain self2 where
      s2: "TableBuilder_add_entry D self key val = Some (Inr (), self2)"
        "tb_inv D opt out self2 blocks (cur @ [(key, val)])" by auto
    have "TableBuilder_add D W self key val = Some (Inr (), self2)"
      using s2(1) db guard o False by (simp add: TableBuilder_add_def Let_def)
    then show ?thesis using s2(2) cut
      by (intro exI [of _ self2] exI [of _ blocks] exI [of _ "cur @ [(key, val)]"]) simp
  qed
qed

end

section \<open>Finishing a table\<close>

lemma filter_block_bytes_bound:
  assumes "integer_codec D" "\<forall>f \<in> set fs. length f < 2 ^ 29" "length fs \<le> 2 ^ 22"
  shows "length (filter_block_bytes D fs) < 2 ^ 52"
proof -
  have "length (concat fs) \<le> 2 ^ 29 * length fs"
    using assms(2) by (induction fs) (auto simp: order.strict_implies_order)
  also have "\<dots> \<le> 2 ^ 29 * 2 ^ 22" using assms(3) by (intro mult_le_mono2)
  finally show ?thesis
    using assms(3) by (simp add: integer_codec.filter_block_bytes_length [OF assms(1)])
qed

text \<open>A table file whose data end and footer are those of the reference file.\<close>

definition table_exact :: "deps \<Rightarrow> Options \<Rightarrow> bytes \<Rightarrow> data_block list \<Rightarrow> bool" where
  "table_exact D opt file blocks \<longleftrightarrow>
     data_blocks D (opt_cmp opt) file blocks \<and>
     table_tail D opt (length (ref_data D opt (map db_entries blocks))) file blocks
       (ref_footer D opt (map db_entries blocks))"

lemma table_exact_file: "table_exact D opt file blocks \<Longrightarrow> table_file D opt file blocks"
  by (auto simp: table_exact_def table_file_def)

text \<open>The size of a table, for a policy whose filters grow by \<open>c\<close> bytes for each key.\<close>

definition table_size_bound :: "Options \<Rightarrow> nat \<Rightarrow> nat \<Rightarrow> nat" where
  "table_size_bound opt c w =
     (6 + c) * (w + 1) + 2 * length (policy_name (opt_filter_policy opt)) + 300"

lemma filter_block_size:
  assumes "integer_codec D" "length (concat fs) \<le> c * (n + length fs)" "64 * n \<le> w"
    "length fs \<le> off div 2048 + 1" "off \<le> 3 * w"
  shows "length (filter_block_bytes D fs) \<le> c * (w + 1) + w + 9"
proof -
  have "off div 2048 \<le> w div 512" using assms(5) by linarith
  then have fs: "length fs \<le> w div 512 + 1" using assms(4) by simp
  then have "n + length fs \<le> w + 1" using assms(3) by linarith
  then have "c * (n + length fs) \<le> c * (w + 1)" by (rule mult_le_mono2)
  with assms(2) have "length (concat fs) \<le> c * (w + 1)" by (rule order_trans)
  moreover have "4 * length fs \<le> w + 4" using fs by linarith
  ultimately show ?thesis by (simp add: integer_codec.filter_block_bytes_length [OF assms(1)])
qed

lemma table_weight_count: "64 * length kvs \<le> table_weight kvs"
  by (induction kvs) (simp_all add: entry_weight_def)

text \<open>The filters of a table, with the entry for them in the metaindex block.\<close>

definition filter_entry :: "deps \<Rightarrow> Options \<Rightarrow> bytes \<Rightarrow> bytes list \<Rightarrow> bytes \<times> bytes" where
  "filter_entry D opt data fs =
     (filter_block_name (policy_name (opt_filter_policy opt)),
      handle_bytes D (BlockHandle_new (length data) (length (filter_block_bytes D fs))))"

definition filters_written :: "deps \<Rightarrow> Options \<Rightarrow> data_block list \<Rightarrow> bytes \<Rightarrow> bytes list \<Rightarrow> bool" where
  "filters_written D opt blocks data fs \<longleftrightarrow>
     fs = filters_of (opt_filter_policy opt) (table_records blocks) (length data) \<and>
     filters_for (opt_filter_policy opt) fs (table_records blocks) \<and>
     handle_ok (BlockHandle_new (length data) (length (filter_block_bytes D fs))) \<and>
     length (snd (filter_entry D opt data fs)) \<le> 16 \<and> length fs \<le> length data div 2048 + 1 \<and>
     (\<forall>c. filter_growth (opt_filter_policy opt) c \<longrightarrow>
        length (concat fs) \<le> c * (length (all_entries blocks) + length fs))"

context table_env
begin

lemma finish_filter_inv:
  assumes inv: "tb_inv D opt out self blocks []" and opt: "opt_cmp opt = C" "table_options opt"
    and weight: "table_weight (all_entries blocks) < 2 ^ 30"
    and creates: "policy_creates (opt_filter_policy opt) (fst ` set (all_entries blocks))
      (length (all_entries blocks))"
  shows "\<exists>self' meta fs. TableBuilder_finish_filter D W self = Some (Inr meta, self') \<and>
    filters_written D opt blocks (out (tb_dst self)) fs \<and>
    tb_opt self' = opt \<and> tb_index_block self' = tb_index_block self \<and>
    tb_offset self' = length (out (tb_dst self')) \<and> tb_offset self' < 2 ^ 53 \<and>
    out (tb_dst self') = out (tb_dst self) @ sealed D CompressionNone (filter_block_bytes D fs) \<and>
    builder_holds D opt (Some meta) [filter_entry D opt (out (tb_dst self)) fs]"
proof -
  let ?P = "opt_filter_policy opt" and ?off = "tb_offset self"
  from inv obtain fb where fb: "tb_filter_block self = Some fb" "fbb_inv ?P fb ?off (table_records blocks)"
    by (auto elim: tb_invE)
  have o: "tb_opt self = opt" and off: "?off = length (out (tb_dst self))"
    and "?off \<le> 3 * table_weight (all_entries blocks)"
    using inv by (simp_all add: tb_inv_def blocks_inv_def)
  then have small: "?off < 3 * 2 ^ 31" using weight by simp
  have recs: "map snd (table_records blocks) = map fst (all_entries blocks)" by (rule table_records_keys)
  then have "snd ` set (table_records blocks) = fst ` set (all_entries blocks)"
    "length (table_records blocks) = length (all_entries blocks)"
    by (metis list.set_map) (metis recs length_map)
  then have "policy_creates ?P (snd ` set (table_records blocks)) (length (table_records blocks))"
    and lens: "length (table_records blocks) = length (all_entries blocks)"
    using creates by simp_all
  from this(1)
  have "policy_creates ?P (snd ` set (table_records blocks)) (length (table_records blocks))" .
  from fbb_inv_finish [OF fb(2) this] obtain fs groups fb' where
    fs: "FilterBlockBuilder_finish D fb = Some (filter_block_bytes D fs)" "fbb_state ?P fb' fs groups []"
      "recorded fs groups [] (table_records blocks)" "length fs \<le> ?off div 2048 + 1"
      "fs = filters_of ?P (table_records blocks) ?off"
      "\<forall>c. filter_growth ?P c \<longrightarrow> length (concat fs) \<le> c * (length (table_records blocks) + length fs)"
    by blast
  have "?off div 2048 < 3 * 2 ^ 20" using small by (intro less_mult_imp_div_less) simp
  then have "length fs \<le> 2 ^ 22" using fs(4) by simp
  then have bound: "length (filter_block_bytes D fs) < 2 ^ 52"
    using fs(2) by (intro filter_block_bytes_bound [OF integer_codec_axioms]) (simp_all add: fbb_state_def)
  let ?self1 = "self\<lparr>tb_filter_block := None\<rparr>"
  let ?fh = "BlockHandle_new ?off (length (filter_block_bytes D fs))"
  have pack: "pack D CompressionNone (filter_block_bytes D fs) = Inr (filter_block_bytes D fs)"
    by (simp add: pack_def)
  have "tb_offset ?self1 + length (filter_block_bytes D fs) + 5 < 2 ^ 64" using small bound by simp
  from write_block_eq [OF pack this] obtain w' where
    w': "TableBuilder_write_block D W ?self1 (filter_block_bytes D fs) CompressionNone =
        Some (Inr ?fh, ?self1\<lparr>tb_dst := w', tb_offset := ?off + length (filter_block_bytes D fs) + 5\<rparr>)"
      "out w' = out (tb_dst self) @ sealed D CompressionNone (filter_block_bytes D fs)" by auto
  have fh: "handle_ok ?fh" "length (handle_bytes D ?fh) \<le> 16"
    using small bound by (simp_all add: handle_ok_def handle_bytes_fit)
  have "0 < block_restart_interval opt" using opt(2) by (simp add: table_options_def)
  from builder_holds_add [OF builder_holds_new this, where k = "filter_block_name (policy_name ?P)"] obtain meta where
    meta: "BlockBuilder_add D (BlockBuilder_new opt) (filter_block_name (policy_name ?P))
        (handle_bytes D ?fh) = Some meta"
      "builder_holds D opt (Some meta) [(filter_block_name (policy_name ?P), handle_bytes D ?fh)]"
    by auto
  let ?self' = "?self1\<lparr>tb_dst := w', tb_offset := ?off + length (filter_block_bytes D fs) + 5\<rparr>"
  have "fbb_policy fb = ?P" using fb(2) by (auto simp: fbb_inv_def fbb_state_def)
  then have "TableBuilder_finish_filter D W self = Some (Inr meta, ?self')"
    using fb(1) fs(1) w'(1) encode_handle_eq [OF fh(2)] meta(1) o
    by (simp add: TableBuilder_finish_filter_def FilterBlockBuilder_filter_name_def)
  moreover have "tb_offset ?self' = length (out (tb_dst ?self'))" "tb_offset ?self' < 2 ^ 53"
    using w'(2) off small bound by simp_all
  moreover have "filters_for ?P fs (table_records blocks)" using fs(2,3) by (auto simp: filters_for_def)
  ultimately show ?thesis
    using fh meta(2) off o fs(4-6) lens w'(2)
    by (intro exI [of _ ?self'] exI [of _ meta] exI [of _ fs]) (simp add: filters_written_def filter_entry_def)
qed

end

context table_env
begin

lemma finish_footer_eq:
  assumes "footer_ok (Footer_new m i)" "tb_offset self = length (out (tb_dst self))"
    and "tb_offset self + 48 < 2 ^ 64"
  shows "\<exists>self'. TableBuilder_finish_footer D W self m i =
      Some (Inr (length (out (tb_dst self'))), self') \<and>
    out (tb_dst self') = out (tb_dst self) @ footer_bytes D (Footer_new m i)"
proof -
  let ?buf = "footer_bytes D (Footer_new m i)"
  obtain w1 where w1: "dst_call (\<lambda>w. write_fn W w ?buf) self = Some (Inr (length ?buf), self\<lparr>tb_dst := w1\<rparr>)"
    "out w1 = out (tb_dst self) @ ?buf" using write_call [of ?buf self] by blast
  let ?self2 = "self\<lparr>tb_dst := w1, tb_offset := tb_offset self + 48\<rparr>"
  obtain w2 where w2: "dst_call (flush_fn W) ?self2 = Some (Inr (), ?self2\<lparr>tb_dst := w2\<rparr>)"
    "out w2 = out w1" using flush_call [of ?self2] by auto
  have "Footer_encode D (Footer_new m i) (replicate FULL_FOOTER_LENGTH 0) = Some ?buf"
    using assms(1) by (intro Footer_encode_eq) (simp_all add: footer_consts)
  then have "TableBuilder_finish_footer D W self m i =
      Some (Inr (tb_offset self + 48), ?self2\<lparr>tb_dst := w2\<rparr>)"
    using w1(1) w2(1) assms footer_bytes_length [OF assms(1)]
    by (simp add: TableBuilder_finish_footer_def run_simps)
  then show ?thesis
    using w1(2) w2(2) assms footer_bytes_length [OF assms(1)] by force
qed

lemma finish_flush:
  assumes inv: "tb_inv D opt out self blocks cur" and cur: "cur = [] \<Longrightarrow> blocks = []"
    and opt: "opt_cmp opt = C" "table_options opt"
    and weight: "table_weight (all_entries blocks @ cur) < 2 ^ 30"
    and creates: "policy_creates (opt_filter_policy opt) (fst ` set (all_entries blocks @ cur))
      (length (all_entries blocks @ cur))"
    and db: "tb_data_block self = Some db"
  shows "\<exists>self' blocks'.
    (if BlockBuilder_entries db > 0
     then TableBuilder_write_data_block D W self
            (find_short_succ (opt_cmp (tb_opt self)) (BlockBuilder_last_key db))
     else Some (Inr (), self)) = Some (Inr (), self') \<and>
    tb_inv D opt out self' blocks' [] \<and> all_entries blocks' = all_entries blocks @ cur \<and>
    map db_entries blocks' = map db_entries blocks @ ref_cut D opt cur [] \<and>
    (blocks' \<noteq> [] \<longrightarrow> sep_made C (last blocks') (find_short_succ C (fst (last (db_entries (last blocks'))))))"
proof (cases "cur = []")
  case True
  have holds: "builder_holds D opt (Some db) cur" using inv db by (simp add: tb_inv_def)
  then show ?thesis
    using True cur inv builder_holds_entries [OF holds] by (auto intro!: exI [of _ "[] :: data_block list"])
next
  case False
  have holds: "builder_holds D opt (Some db) cur" using inv db by (simp add: tb_inv_def)
  have "tb_opt self = opt" using inv by (simp add: tb_inv_def)
  with write_data_block_inv [OF inv False opt weight creates succ_above] False
    builder_holds_entries [OF holds] builder_holds_last_key [OF holds False] opt(1)
  obtain self' b where "TableBuilder_write_data_block D W self
      (find_short_succ (opt_cmp (tb_opt self)) (BlockBuilder_last_key db)) = Some (Inr (), self')"
    "tb_inv D opt out self' (blocks @ [b]) []" "db_entries b = cur"
    "sep_made C b (find_short_succ C (fst (last cur)))" by fastforce
  then show ?thesis
    using False builder_holds_entries [OF holds]
    by (intro exI [of _ self'] exI [of _ "blocks @ [b]"]) simp
qed

end

text \<open>A block of the reference file: its contents and what they are compressed to.\<close>

definition block_as_ref :: "deps \<Rightarrow> Options \<Rightarrow> (bytes \<times> bytes) list \<Rightarrow> bytes \<Rightarrow> bool" where
  "block_as_ref D opt kvs contents \<longleftrightarrow>
     holds_entries D contents kvs \<and> contents = ref_block D opt kvs \<and> length contents \<le> block_weight kvs \<and>
     length (ref_pack D (compression_type opt) contents) \<le> max_compress_len (length contents)"

text \<open>What \<open>finish\<close> writes after the data blocks: filters, metaindex block, index block and footer.\<close>

definition tail_written ::
  "deps \<Rightarrow> Options \<Rightarrow> data_block list \<Rightarrow> bytes \<Rightarrow> bytes list \<Rightarrow> bytes \<Rightarrow> bytes \<Rightarrow> Footer \<Rightarrow> bytes \<Rightarrow> bool" where
  "tail_written D opt blocks data fs meta index ft file \<longleftrightarrow>
     (let ct = compression_type opt; flt = filter_block_bytes D fs;
          meta_off = length data + length flt + 5; index_off = meta_off + length (ref_pack D ct meta) + 5
      in file = data @ sealed D CompressionNone flt @ sealed D ct (ref_pack D ct meta) @
           sealed D ct (ref_pack D ct index) @ footer_bytes D ft \<and>
         ft = Footer_new (BlockHandle_new meta_off (length (ref_pack D ct meta)))
           (BlockHandle_new index_off (length (ref_pack D ct index)))) \<and>
     footer_ok ft \<and> stored D file (ft_meta_index ft) meta \<and> stored D file (ft_index ft) index \<and>
     filters_written D opt blocks data fs \<and> block_as_ref D opt [filter_entry D opt data fs] meta \<and>
     block_as_ref D opt (index_entries D blocks) index"

lemma tail_writtenD:
  assumes "tail_written D opt blocks data fs meta index ft file"
  shows "footer_ok ft" "stored D file (ft_meta_index ft) meta" "stored D file (ft_index ft) index"
    "filters_written D opt blocks data fs" "block_as_ref D opt [filter_entry D opt data fs] meta"
    "block_as_ref D opt (index_entries D blocks) index"
    "file = data @ sealed D CompressionNone (filter_block_bytes D fs) @
       sealed D (compression_type opt) (ref_pack D (compression_type opt) meta) @
       sealed D (compression_type opt) (ref_pack D (compression_type opt) index) @ footer_bytes D ft"
  using assms unfolding tail_written_def Let_def by blast+

lemma filters_written_entry: "filters_written D opt blocks data fs \<Longrightarrow> length (snd (filter_entry D opt data fs)) \<le> 16"
  unfolding filters_written_def by blast

lemma tail_written_tail:
  assumes w: "tail_written D opt blocks data fs meta index ft file" and laid: "laid_out (length data) blocks"
  shows "table_tail D opt (length data) file blocks ft"
proof -
  let ?ct = "compression_type opt" and ?flt = "filter_block_bytes D fs"
  let ?body = "data @ sealed D CompressionNone ?flt @ sealed D ?ct (ref_pack D ?ct meta) @ sealed D ?ct (ref_pack D ?ct index)"
  let ?rest = "drop (length ?flt) (sealed D CompressionNone ?flt) @ sealed D ?ct (ref_pack D ?ct meta) @
    sealed D ?ct (ref_pack D ?ct index) @ footer_bytes D ft"
  have off: "length data \<le> bh_offset (ft_index ft)" "length data \<le> bh_offset (ft_meta_index ft)"
    using w by (simp_all add: tail_written_def Let_def Footer_new_def BlockHandle_new_def)
  note d = tail_writtenD [OF w]
  show ?thesis
    unfolding table_tail_def
  proof (intro conjI exI)
    show "file = ?body @ footer_bytes D ft" "file = data @ ?flt @ ?rest"
      using d(7) by (simp_all add: sealed_def)
    show "holds_entries D meta [(filter_block_name (policy_name (opt_filter_policy opt)),
        handle_bytes D (BlockHandle_new (length data) (length ?flt)))]" "holds_entries D index (index_entries D blocks)"
      using d(5,6) unfolding block_as_ref_def filter_entry_def by blast+
    show "fs = filters_of (opt_filter_policy opt) (table_records blocks) (length data)"
      "filters_for (opt_filter_policy opt) fs (table_records blocks)"
      "handle_ok (BlockHandle_new (length data) (length ?flt))"
      using d(4) unfolding filters_written_def by blast+
  qed (use laid off d(1-3) in simp_all)
qed

lemma tail_written_ref:
  assumes w: "tail_written D opt blocks data fs meta index ft file"
    and data: "data = ref_data D opt (map db_entries blocks)" and blocks: "ref_blocks D opt 0 (map db_entries blocks) = blocks"
  shows "file = ref_file_of D opt (map db_entries blocks)" "ft = ref_footer D opt (map db_entries blocks)"
proof -
  let ?gs = "map db_entries blocks" and ?ct = "compression_type opt"
  have flt: "filter_block_bytes D fs = ref_filter D opt ?gs"
    using w by (simp add: tail_written_def filters_written_def ref_filter_def blocks data)
  have meta: "ref_pack D ?ct meta = ref_meta D opt ?gs"
    using w by (simp add: tail_written_def block_as_ref_def ref_stored_def ref_meta_def filter_entry_def flt data)
  have index: "ref_pack D ?ct index = ref_index D opt ?gs"
    using w by (simp add: tail_written_def block_as_ref_def ref_stored_def ref_index_def blocks)
  show footer: "ft = ref_footer D opt ?gs"
    using w unfolding tail_written_def Let_def flt meta index by (simp add: ref_footer_def Let_def data)
  show "file = ref_file_of D opt ?gs"
    using w unfolding tail_written_def Let_def flt meta index footer [symmetric] by (simp add: ref_file_of_def data footer)
qed

lemma tail_written_size:
  assumes codec: "integer_codec D" and w: "tail_written D opt blocks data fs meta index ft file"
    and binv: "blocks_inv D C data blocks []" and weight: "table_weight (all_entries blocks) < 2 ^ 30"
    and growth: "filter_growth (opt_filter_policy opt) c"
  shows "length file \<le> table_size_bound opt c (table_weight (all_entries blocks))"
proof -
  let ?w = "table_weight (all_entries blocks)" and ?ct = "compression_type opt"
  have len: "length data \<le> 3 * ?w" using binv by (simp add: blocks_inv_def)
  have "length (filter_block_bytes D fs) \<le> c * (?w + 1) + ?w + 9"
    using w growth
    by (intro filter_block_size [OF codec _ table_weight_count _ len]) (auto simp: tail_written_def filters_written_def)
  moreover note filters_written_entry [OF tail_writtenD(4) [OF w]]
  then have "block_weight [filter_entry D opt data fs] \<le> length (policy_name (opt_filter_policy opt)) + 65"
    by (simp add: filter_entry_def block_weight_simps filter_block_name_def as_bytes_def)
  moreover have "length (ref_pack D ?ct meta) \<le> max_compress_len (length meta)"
    "length meta \<le> block_weight [filter_entry D opt data fs]"
    "length (ref_pack D ?ct index) \<le> max_compress_len (length index)"
    "length index \<le> block_weight (index_entries D blocks)" "footer_ok ft"
    using tail_writtenD [OF w] unfolding block_as_ref_def by blast+
  moreover have "length file = length data + length (filter_block_bytes D fs) + length (ref_pack D ?ct meta) +
      length (ref_pack D ?ct index) + 63"
    using integer_codec.footer_bytes_length [OF codec tail_writtenD(1) [OF w]]
    by (simp add: arg_cong [OF tail_writtenD(7) [OF w], of length] sealed_def integer_codec.length_encode_fixed32 [OF codec])
  ultimately show ?thesis
    using len index_weight [OF binv]
    by (simp add: table_size_bound_def max_compress_len_def algebra_simps)
qed

context table_env
begin

text \<open>Writing the block of a builder.\<close>

lemma write_builder:
  assumes offset: "tb_offset self = length (out (tb_dst self))" "tb_offset self < 2 ^ 55"
    and holds: "builder_holds D opt (Some b) kvs" and weight: "block_weight kvs < 2 ^ 31"
  shows "\<exists>h w'. TableBuilder_write_block D W self (BlockBuilder_finish D b) (compression_type opt) =
      Some (Inr h, self\<lparr>tb_dst := w', tb_offset := length (out w')\<rparr>) \<and>
    out w' = out (tb_dst self) @
      sealed D (compression_type opt) (ref_pack D (compression_type opt) (BlockBuilder_finish D b)) \<and>
    h = BlockHandle_new (length (out (tb_dst self))) (length (ref_pack D (compression_type opt) (BlockBuilder_finish D b))) \<and>
    stored D (out w') h (BlockBuilder_finish D b) \<and> handle_ok h \<and>
    block_as_ref D opt kvs (BlockBuilder_finish D b) \<and> length (out w') < length (out (tb_dst self)) + 2 ^ 33"
proof -
  have w: "block_weight kvs < 2 ^ 32" using weight by simp
  note b = builder_holds_finish [OF integer_codec_axioms holds w]
  then have len: "length (BlockBuilder_finish D b) < 2 ^ 31" using weight by simp
  from write_contents [OF offset len, of "compression_type opt"] offset(1) obtain h w' where
    w': "TableBuilder_write_block D W self (BlockBuilder_finish D b) (compression_type opt) =
        Some (Inr h, self\<lparr>tb_dst := w', tb_offset := length (out w')\<rparr>)"
      "out w' = out (tb_dst self) @
        sealed D (compression_type opt) (ref_pack D (compression_type opt) (BlockBuilder_finish D b))"
      "length (ref_pack D (compression_type opt) (BlockBuilder_finish D b)) \<le> max_compress_len (length (BlockBuilder_finish D b))"
      "h = BlockHandle_new (length (out (tb_dst self))) (length (ref_pack D (compression_type opt) (BlockBuilder_finish D b)))"
      "stored D (out w') h (BlockBuilder_finish D b)" "handle_ok h" by force
  then have "length (out w') < length (out (tb_dst self)) + 2 ^ 33" using len by (simp add: max_compress_len_def)
  moreover have "block_as_ref D opt kvs (BlockBuilder_finish D b)"
    unfolding block_as_ref_def using b(1,2,4) w'(3) by blast
  ultimately show ?thesis using w'(1,2,4-6) by (intro exI conjI)
qed

text \<open>The rest of \<open>finish\<close>, once the last data block is written.\<close>

lemma finish_rest:
  assumes inv: "tb_inv D opt out self blocks []" and opt: "opt_cmp opt = C" "table_options opt"
    and weight: "table_weight (all_entries blocks) < 2 ^ 30"
    and creates: "policy_creates (opt_filter_policy opt) (fst ` set (all_entries blocks)) (length (all_entries blocks))"
  shows "\<exists>self' fs meta index ft.
    tb_try (TableBuilder_finish_filter D W self) (\<lambda>meta_ix_block self.
      tb_try (TableBuilder_write_block D W self (BlockBuilder_finish D meta_ix_block) (compression_type opt))
        (\<lambda>meta_ix_handle self.
          do {
            index_block \<leftarrow> tb_index_block self;
            let self = self\<lparr>tb_index_block := None\<rparr>;
            tb_try (TableBuilder_write_block D W self (BlockBuilder_finish D index_block) (compression_type opt))
              (\<lambda>ix_handle self. TableBuilder_finish_footer D W self meta_ix_handle ix_handle)
          })) = Some (Inr (length (out (tb_dst self'))), self') \<and>
    tail_written D opt blocks (out (tb_dst self)) fs meta index ft (out (tb_dst self'))"
proof -
  let ?ct = "compression_type opt"
  from finish_filter_inv [OF inv opt weight creates] obtain s2 meta fs where
    s2: "TableBuilder_finish_filter D W self = Some (Inr meta, s2)"
      "filters_written D opt blocks (out (tb_dst self)) fs" "tb_index_block s2 = tb_index_block self"
      "tb_offset s2 = length (out (tb_dst s2))" "tb_offset s2 < 2 ^ 53"
      "out (tb_dst s2) = out (tb_dst self) @ sealed D CompressionNone (filter_block_bytes D fs)"
      "builder_holds D opt (Some meta) [filter_entry D opt (out (tb_dst self)) fs]" by blast
  have "length (policy_name (opt_filter_policy opt)) < 2 ^ 16" using opt(2) by (simp add: table_options_def)
  with filters_written_entry [OF s2(2)] have wm: "block_weight [filter_entry D opt (out (tb_dst self)) fs] < 2 ^ 31"
    by (simp add: filter_entry_def block_weight_simps filter_block_name_def as_bytes_def)
  have small2: "tb_offset s2 < 2 ^ 55" using s2(5) by simp
  obtain mh w3 where
    s3: "TableBuilder_write_block D W s2 (BlockBuilder_finish D meta) ?ct =
        Some (Inr mh, s2\<lparr>tb_dst := w3, tb_offset := length (out w3)\<rparr>)"
      "out w3 = out (tb_dst s2) @ sealed D ?ct (ref_pack D ?ct (BlockBuilder_finish D meta))"
      "mh = BlockHandle_new (length (out (tb_dst s2))) (length (ref_pack D ?ct (BlockBuilder_finish D meta)))"
      "stored D (out w3) mh (BlockBuilder_finish D meta)" "handle_ok mh"
      "block_as_ref D opt [filter_entry D opt (out (tb_dst self)) fs] (BlockBuilder_finish D meta)"
      "length (out w3) < length (out (tb_dst s2)) + 2 ^ 33"
    using write_builder [OF s2(4) small2 s2(7) wm] by blast
  let ?s3 = "s2\<lparr>tb_dst := w3, tb_offset := length (out w3), tb_index_block := None\<rparr>"
  obtain ib where ib: "tb_index_block self = Some ib" "builder_holds D opt (Some ib) (index_entries D blocks)"
    using inv by (rule tb_invE)
  have "blocks_inv D C (out (tb_dst self)) blocks []" using inv opt(1) by (simp add: tb_inv_def)
  from index_weight [OF this] weight have wi: "block_weight (index_entries D blocks) < 2 ^ 31" by simp
  have s3': "tb_offset ?s3 = length (out (tb_dst ?s3))" "tb_offset ?s3 < 2 ^ 54" "tb_dst ?s3 = w3"
    using s3(7) s2(4,5) by simp_all
  then have small3: "tb_offset ?s3 < 2 ^ 55" by simp
  obtain ih w4 where
    s4: "TableBuilder_write_block D W ?s3 (BlockBuilder_finish D ib) ?ct =
        Some (Inr ih, ?s3\<lparr>tb_dst := w4, tb_offset := length (out w4)\<rparr>)"
      "out w4 = out w3 @ sealed D ?ct (ref_pack D ?ct (BlockBuilder_finish D ib))"
      "ih = BlockHandle_new (length (out w3)) (length (ref_pack D ?ct (BlockBuilder_finish D ib)))"
      "stored D (out w4) ih (BlockBuilder_finish D ib)" "handle_ok ih"
      "block_as_ref D opt (index_entries D blocks) (BlockBuilder_finish D ib)"
      "length (out w4) < length (out w3) + 2 ^ 33"
    using write_builder [OF s3'(1) small3 ib(2) wi] unfolding s3'(3) by blast
  let ?s4 = "?s3\<lparr>tb_dst := w4, tb_offset := length (out w4)\<rparr>"
  have ft: "footer_ok (Footer_new mh ih)" using s3(5) s4(5) by (simp add: footer_ok_def Footer_new_def)
  have "tb_offset ?s4 + 48 < 2 ^ 64" using s4(7) s3'(1,2) by simp
  with finish_footer_eq [OF ft, of ?s4] obtain s5 where
    s5: "TableBuilder_finish_footer D W ?s4 mh ih = Some (Inr (length (out (tb_dst s5))), s5)"
      "out (tb_dst s5) = out w4 @ footer_bytes D (Footer_new mh ih)" by auto
  have "stored D (out (tb_dst s5)) mh (BlockBuilder_finish D meta)"
    "stored D (out (tb_dst s5)) ih (BlockBuilder_finish D ib)"
    using stored_append [OF s3(4)] stored_append [OF s4(4)] s5(2) s4(2) by simp_all
  then have "tail_written D opt blocks (out (tb_dst self)) fs (BlockBuilder_finish D meta) (BlockBuilder_finish D ib)
      (Footer_new mh ih) (out (tb_dst s5))"
    using s2(2,6) s3(2,3,6) s4(2,3,6) s5(2) ft by (simp add: tail_written_def Let_def Footer_new_def)
  then show ?thesis
    using s2(1,3) s3(1) ib(1) s4(1) s5(1)
    by (intro exI [of _ s5] exI [of _ fs] exI [of _ "BlockBuilder_finish D meta"] exI [of _ "BlockBuilder_finish D ib"]
        exI [of _ "Footer_new mh ih"]) simp
qed

lemma finish_inv:
  assumes inv: "tb_inv D opt out self blocks cur" and cur: "cur = [] \<Longrightarrow> blocks = []"
    and opt: "opt_cmp opt = C" "table_options opt"
    and weight: "table_weight (all_entries blocks @ cur) < 2 ^ 30"
    and creates: "policy_creates (opt_filter_policy opt) (fst ` set (all_entries blocks @ cur))
      (length (all_entries blocks @ cur))"
  shows "\<exists>self' blocks'. TableBuilder_finish D W self = Some (Inr (length (out (tb_dst self'))), self') \<and>
    table_exact D opt (out (tb_dst self')) blocks' \<and> all_entries blocks' = all_entries blocks @ cur \<and>
    map db_entries blocks' = map db_entries blocks @ ref_cut D opt cur [] \<and>
    blocks' = ref_blocks D opt 0 (map db_entries blocks') \<and>
    out (tb_dst self') = ref_file_of D opt (map db_entries blocks') \<and>
    (\<forall>c. filter_growth (opt_filter_policy opt) c \<longrightarrow>
       length (out (tb_dst self')) \<le> table_size_bound opt c (table_weight (all_entries blocks @ cur)))"
proof -
  from inv obtain db where db: "tb_data_block self = Some db" by (rule tb_invE)
  from finish_flush [OF inv cur opt weight creates db] obtain s1 blocks1 where
    s1: "(if BlockBuilder_entries db > 0
       then TableBuilder_write_data_block D W self
              (find_short_succ (opt_cmp (tb_opt self)) (BlockBuilder_last_key db))
       else Some (Inr (), self)) = Some (Inr (), s1)"
      "tb_inv D opt out s1 blocks1 []" "all_entries blocks1 = all_entries blocks @ cur"
      "map db_entries blocks1 = map db_entries blocks @ ref_cut D opt cur []"
      "blocks1 \<noteq> [] \<longrightarrow> sep_made C (last blocks1)
         (find_short_succ C (fst (last (db_entries (last blocks1)))))" by blast
  have w1: "table_weight (all_entries blocks1) < 2 ^ 30"
    and creates1: "policy_creates (opt_filter_policy opt) (fst ` set (all_entries blocks1)) (length (all_entries blocks1))"
    using weight creates s1(3) by simp_all
  from finish_rest [OF s1(2) opt w1 creates1] obtain s5 fs meta index ft where
    rest: "tail_written D opt blocks1 (out (tb_dst s1)) fs meta index ft (out (tb_dst s5))"
    and run: "TableBuilder_finish D W self = Some (Inr (length (out (tb_dst s5))), s5)"
    using db s1(1) tb_inv_opt [OF inv] by (auto simp: TableBuilder_finish_def)
  have binv: "blocks_inv D C (out (tb_dst s1)) blocks1 []"
    and ref: "out (tb_dst s1) = ref_data D opt (map db_entries blocks1)" "handles_from D opt 0 blocks1"
    using s1(2) unfolding tb_inv_def written_as_ref_def opt(1) by blast+
  then have laid: "laid_out (length (out (tb_dst s1))) blocks1" and "seps_made (opt_cmp opt) blocks1"
    using opt(1) by (simp_all add: blocks_inv_def)
  then have blocks: "ref_blocks D opt 0 (map db_entries blocks1) = blocks1"
    using s1(5) opt(1) by (intro ref_blocksI [OF ref(2)]) simp_all
  have fl: "out (tb_dst s5) = ref_file_of D opt (map db_entries blocks1)" "ft = ref_footer D opt (map db_entries blocks1)"
    by (rule tail_written_ref [OF rest ref(1) blocks])+
  obtain tl where tl: "out (tb_dst s5) = out (tb_dst s1) @ tl" using rest by (auto simp: tail_written_def Let_def)
  have "data_blocks D (opt_cmp opt) (out (tb_dst s5)) blocks1"
    using binv data_ok_append opt(1) laid_out_mono [OF laid, of "length (out (tb_dst s5))"]
    unfolding tl by (auto simp: blocks_inv_def data_blocks_def)
  moreover note tail_written_tail [OF rest laid, unfolded fl(2) ref(1)]
  ultimately have "table_exact D opt (out (tb_dst s5)) blocks1" by (simp add: table_exact_def)
  then show ?thesis
    using run s1(3,4) blocks [symmetric] fl(1) tail_written_size [OF integer_codec_axioms rest binv w1]
    by (intro exI [of _ s5] exI [of _ blocks1]) simp
qed

section \<open>Building a whole table\<close>

end

text \<open>A client's loop over its data, and the run that builds a table.\<close>

fun TableBuilder_add_all ::
  "deps \<Rightarrow> 'w Write \<Rightarrow> 'w TableBuilder \<Rightarrow> (bytes \<times> bytes) list \<Rightarrow> ('w, unit) tb_result" where
  "TableBuilder_add_all D W self [] = Some (Inr (), self)"
| "TableBuilder_add_all D W self ((k, v) # kvs) =
     tb_try (TableBuilder_add D W self k v) (\<lambda>_ self. TableBuilder_add_all D W self kvs)"

definition build_table ::
  "deps \<Rightarrow> 'w Write \<Rightarrow> Options \<Rightarrow> 'w \<Rightarrow> (bytes \<times> bytes) list \<Rightarrow> ('w, usize) tb_result" where
  "build_table D W opt dst kvs =
     tb_try (TableBuilder_add_all D W (TableBuilder_new opt dst) kvs)
       (\<lambda>_ self. TableBuilder_finish D W self)"

text \<open>Entries that a table can hold.\<close>

definition table_input :: "Options \<Rightarrow> (bytes \<times> bytes) list \<Rightarrow> bool" where
  "table_input opt kvs \<longleftrightarrow>
     table_options opt \<and> ascending (opt_cmp opt) (map fst kvs) \<and> [] \<notin> fst ` set kvs \<and>
     table_weight kvs < 2 ^ 30 \<and>
     policy_creates (opt_filter_policy opt) (fst ` set kvs) (length kvs)"

context table_env
begin

lemma add_all_inv:
  assumes opt: "opt_cmp opt = C" and input: "table_input opt (kvs0 @ kvs)"
  shows "tb_inv D opt out self blocks cur \<Longrightarrow> (cur = [] \<Longrightarrow> blocks = []) \<Longrightarrow>
    all_entries blocks @ cur = kvs0 \<Longrightarrow>
    \<exists>self' blocks' cur'. TableBuilder_add_all D W self kvs = Some (Inr (), self') \<and>
      tb_inv D opt out self' blocks' cur' \<and> (cur' = [] \<longrightarrow> blocks' = []) \<and>
      all_entries blocks' @ cur' = kvs0 @ kvs \<and>
      map db_entries blocks' @ ref_cut D opt cur' [] = map db_entries blocks @ ref_cut D opt cur kvs"
  using input
proof (induction kvs arbitrary: self blocks cur kvs0)
  case (Cons e kvs)
  obtain k v where e: "e = (k, v)" by (cases e)
  have asc: "ascending C (map fst (all_entries blocks @ cur @ [(k, v)]))"
    using Cons.prems(4) opt unfolding append_assoc [symmetric] Cons.prems(3) e
    by (auto simp: table_input_def ascending_def sorted_wrt_append)
  have topt: "table_options opt" and key: "k \<noteq> []"
    using Cons.prems(4) e by (auto simp: table_input_def)
  have weight: "table_weight (all_entries blocks @ cur @ [(k, v)]) < 2 ^ 30"
    using Cons.prems(4) unfolding Cons.prems(3) [symmetric] e by (simp add: table_input_def)
  have creates: "policy_creates (opt_filter_policy opt) (fst ` set (all_entries blocks @ cur))
      (length (all_entries blocks @ cur))"
    using Cons.prems(4) unfolding Cons.prems(3) table_input_def
    by (auto intro: policy_creates_mono)
  from add_inv [OF Cons.prems(1,2) opt topt asc key weight creates] obtain self1 blocks1 cur1 where
    s1: "TableBuilder_add D W self k v = Some (Inr (), self1)" "tb_inv D opt out self1 blocks1 cur1"
      "cur1 \<noteq> []" "all_entries blocks1 @ cur1 = kvs0 @ [e]"
      "\<forall>rest. map db_entries blocks1 @ ref_cut D opt cur1 rest =
         map db_entries blocks @ ref_cut D opt cur ((k, v) # rest)"
    using Cons.prems(3) e by auto
  from Cons.IH [OF s1(2) _ s1(4)] s1(3,5) Cons.prems(4) show ?case
    by (simp add: e s1(1))
qed auto

lemma build_table_file:
  assumes opt: "opt_cmp opt = C" and input: "table_input opt kvs" and dst: "out dst = []"
  shows "\<exists>self blocks. build_table D W opt dst kvs = Some (Inr (length (out (tb_dst self))), self) \<and>
    table_exact D opt (out (tb_dst self)) blocks \<and> all_entries blocks = kvs \<and>
    blocks = table_blocks D opt kvs \<and> out (tb_dst self) = ref_file D opt kvs \<and>
    (\<forall>c. filter_growth (opt_filter_policy opt) c \<longrightarrow>
       length (out (tb_dst self)) \<le> table_size_bound opt c (table_weight kvs))"
proof -
  have "tb_inv D opt out (TableBuilder_new opt dst) [] []" using dst by (rule tb_inv_new)
  from add_all_inv [OF opt, of "[]" kvs, OF _ this] input obtain s1 blocks1 cur1 where
    s1: "TableBuilder_add_all D W (TableBuilder_new opt dst) kvs = Some (Inr (), s1)"
      "tb_inv D opt out s1 blocks1 cur1" "cur1 = [] \<longrightarrow> blocks1 = []" "all_entries blocks1 @ cur1 = kvs"
      "map db_entries blocks1 @ ref_cut D opt cur1 [] = ref_cut D opt [] kvs"
    by auto
  have "table_options opt" "table_weight (all_entries blocks1 @ cur1) < 2 ^ 30"
    "policy_creates (opt_filter_policy opt) (fst ` set (all_entries blocks1 @ cur1))
      (length (all_entries blocks1 @ cur1))"
    using input unfolding s1(4) by (simp_all add: table_input_def)
  from finish_inv [OF s1(2) _ opt this] s1(3) obtain self blocks where
    "TableBuilder_finish D W s1 = Some (Inr (length (out (tb_dst self))), self)"
    "table_exact D opt (out (tb_dst self)) blocks" "all_entries blocks = kvs"
    "map db_entries blocks = map db_entries blocks1 @ ref_cut D opt cur1 []"
    "blocks = ref_blocks D opt 0 (map db_entries blocks)"
    "out (tb_dst self) = ref_file_of D opt (map db_entries blocks)"
    "\<forall>c. filter_growth (opt_filter_policy opt) c \<longrightarrow>
       length (out (tb_dst self)) \<le> table_size_bound opt c (table_weight kvs)"
    unfolding s1(4) by blast
  with s1(1,5) show ?thesis
    by (intro exI [of _ self] exI [of _ blocks]) (simp add: build_table_def ref_file_def table_blocks_def)
qed

end

interpretation vec_table_env: table_env reference_deps "vec_write reference_deps" "\<lambda>w. w" DefaultCmp
  by unfold_locales

text \<open>A table in memory, with any implementation of the third-party functions that keeps their laws.\<close>

lemma vec_table_envI:
  assumes "third_party_laws D" "short_comparator C"
  shows "table_env D (vec_write D) (\<lambda>w. w) C"
  using assms vec_writer.append_writer_axioms [of D]
  by (simp add: table_env_def table_writer_def third_party_laws_def)

end
