(* ===== verification/SST_TableBlock.thy ===== *)
theory SST_TableBlock
  imports SST_TableBuilder SST_Block
begin

text \<open>
  \<open>src/table_block.rs\<close>: reading a block of a table file, with its checksum and compression.
\<close>

section \<open>Reading\<close>

text \<open>The number of bytes read is ignored.\<close>

definition read_bytes :: "random_access \<Rightarrow> BlockHandle \<Rightarrow> (Status + bytes) run" where
  "read_bytes read_at location =
     do {
       buf \<leftarrow> zeroed_vec (bh_size location);
       try_bind (read_at (bh_offset location) buf) (\<lambda>(_, buf). ok buf)
     }"

definition read_filter_block ::
  "deps \<Rightarrow> random_access \<Rightarrow> BlockHandle \<Rightarrow> FilterPolicy \<Rightarrow> (Status + FilterBlockReader) run" where
  "read_filter_block D src location policy =
     (if bh_size location = 0 then
        err InvalidArgument ''no filter block in empty location''
      else
        try_bind (read_bytes src location) (\<lambda>buf.
          do { r \<leftarrow> FilterBlockReader_new D policy buf; ok r }))"

definition verify_table_block :: "deps \<Rightarrow> bytes \<Rightarrow> u8 \<Rightarrow> u32 \<Rightarrow> bool" where
  "verify_table_block D data compression want \<longleftrightarrow> crc32_iscsi D (data @ [compression]) = want"

text \<open>The decimal digits of a number, as \<open>format!\<close> prints them.\<close>

fun decimal :: "nat \<Rightarrow> string" where
  "decimal n =
     (if n < 10 then [char_of (48 + n)] else decimal (n div 10) @ [char_of (48 + n mod 10)])"

declare decimal.simps [simp del]

definition read_table_block ::
  "deps \<Rightarrow> Options \<Rightarrow> random_access \<Rightarrow> BlockHandle \<Rightarrow> (Status + Block) run" where
  "read_table_block D opt f location =
     do {
       let block_data_size = bh_size location;
       n \<leftarrow> usize_add block_data_size TABLE_BLOCK_CKSUM_LEN;
       n \<leftarrow> usize_add n TABLE_BLOCK_COMPRESS_LEN;
       let location = BlockHandle_new (bh_offset location) n;
       try_bind (read_bytes f location) (\<lambda>buf.
         do {
           compress \<leftarrow> slice_from buf block_data_size;
           let buf = take block_data_size buf;
           cksum \<leftarrow> slice_from compress TABLE_BLOCK_COMPRESS_LEN;
           let compress = take TABLE_BLOCK_COMPRESS_LEN compress;
           ctype \<leftarrow> vec_index compress 0;
           if \<not> verify_table_block D buf ctype (unmask_crc (decode_fixed32 D cksum)) then
             err Corruption (''checksum verification failed for block at '' @ decimal (bh_offset location))
           else
             case int_to_compressiontype (ucast ctype) of
               Some CompressionNone \<Rightarrow> do { b \<leftarrow> Block_new opt buf; ok b }
             | Some CompressionSnappy \<Rightarrow>
                 (case snap_decompress D buf of
                    Inl e \<Rightarrow> Some (Inl (Status_from_snap e))
                  | Inr decoded \<Rightarrow> do { b \<leftarrow> Block_new opt decoded; ok b })
             | None \<Rightarrow> err InvalidData ''invalid compression type''
         })
     }"

section \<open>Reading what was written\<close>

lemma read_bytes_inside:
  assumes "random_access_file read_at file" "bh_offset h + bh_size h \<le> length file" "bh_size h < 2 ^ 63"
  shows "read_bytes read_at h = ok (take (bh_size h) (drop (bh_offset h) file))"
  using random_access_file.read_inside [OF assms(1), of "bh_offset h" "replicate (bh_size h) 0"] assms(2,3)
  by (simp add: read_bytes_def zeroed_vec_def)

text \<open>
  The outcome of reading a block whose bytes, with type and checksum, are in the file. The
  checksum is compared first, then the type is interpreted, then the data is decompressed.
\<close>

definition unpack :: "deps \<Rightarrow> Options \<Rightarrow> u8 \<Rightarrow> bytes \<Rightarrow> (Status + Block) run" where
  "unpack D opt tag data =
     (if tag = 0 then do { b \<leftarrow> Block_new opt data; ok b }
      else if tag = 1 then
        (case snap_decompress D data of
           Inl e \<Rightarrow> Some (Inl (Status_from_snap e))
         | Inr decoded \<Rightarrow> do { b \<leftarrow> Block_new opt decoded; ok b })
      else err InvalidData ''invalid compression type'')"

lemma ucast_u8_u32_eq: "(ucast (x :: u8) :: u32) = ucast (y :: u8) \<longleftrightarrow> x = y"
proof
  assume "(ucast x :: u32) = ucast y"
  then have "unat (ucast x :: u32) = unat (ucast y :: u32)" by simp
  then have "unat x = unat y"
    using unsigned_less [of x, where ?'a = nat] unsigned_less [of y, where ?'a = nat]
    by (simp add: unsigned_ucast_eq take_bit_nat_eq_self_iff take_bit_nat_eq_self)
  then show "x = y" by (rule unsigned_word_eqI)
qed simp

lemma read_table_block_cases:
  assumes fl: "random_access_file read_at (pre @ data @ tag # cksum @ rest)"
    and len: "length cksum = 4" "length data + 5 < 2 ^ 63"
    and h: "h = BlockHandle_new (length pre) (length data)"
  shows "read_table_block D opt read_at h =
    (if crc32_iscsi D (data @ [tag]) = unmask_crc (decode_fixed32 D cksum) then unpack D opt tag data
     else err Corruption (''checksum verification failed for block at '' @ decimal (length pre)))"
proof -
  let ?h = "BlockHandle_new (length pre) (length data + 5)"
  have read: "read_bytes read_at ?h = ok (data @ tag # cksum)"
    using read_bytes_inside [OF fl, of ?h] len by simp
  have "(ucast tag :: u32) = 0 \<longleftrightarrow> tag = 0" "(ucast tag :: u32) = 1 \<longleftrightarrow> tag = 1"
    using ucast_u8_u32_eq [of tag 0] ucast_u8_u32_eq [of tag 1] by simp_all
  then show ?thesis
    using read len
    by (simp add: read_table_block_def h TABLE_BLOCK_COMPRESS_LEN_def TABLE_BLOCK_CKSUM_LEN_def run_simps
        verify_table_block_def unpack_def int_to_compressiontype_def ok_def Let_def add.commute [of 5])
qed

lemma unpack_pack:
  assumes "third_party_laws D" "pack D ctype contents = Inr data" "4 < length contents"
  shows "unpack D opt (CompressionType_as_u8 ctype) data = ok \<lparr>blk_contents = contents, blk_opt = opt\<rparr>"
  using assms third_party_laws.decompress_compress [OF assms(1), of contents data]
  by (cases ctype) (auto simp: unpack_def pack_def Block_new_def split: sum.splits)

lemma read_table_block_stored:
  assumes D: "third_party_laws D" and fl: "random_access_file read_at file"
    and stored: "stored D file h contents" and len: "4 < length contents" "length file < 2 ^ 63"
  shows "read_table_block D opt read_at h = ok \<lparr>blk_contents = contents, blk_opt = opt\<rparr>"
proof -
  have codec: "integer_codec D" using D by (rule third_party_laws.axioms(1))
  obtain ctype data pre rest where s: "pack D ctype contents = Inr data"
    "file = pre @ sealed D ctype data @ rest" "h = BlockHandle_new (length pre) (length data)"
    using stored by (auto simp: stored_def)
  let ?tag = "CompressionType_as_u8 ctype"
  let ?cksum = "encode_fixed32 D (mask_crc (crc32_iscsi D (data @ [?tag])))"
  have bytes: "file = pre @ data @ ?tag # ?cksum @ rest" using s(2) by (simp add: sealed_def)
  then have "length data + 5 < 2 ^ 63"
    using len(2) integer_codec.length_encode_fixed32 [OF codec] by simp
  from read_table_block_cases [OF fl [unfolded bytes] _ this s(3)] show ?thesis
    using unpack_pack [OF D s(1) len(1)] integer_codec.length_encode_fixed32 [OF codec]
      integer_codec.decode_encode_fixed32 [OF codec]
    by simp
qed

end
