(* ===== verification/SST_Cache.thy ===== *)
theory SST_Cache
  imports SST_Prelude
begin

text \<open>
  \<open>src/cache.rs\<close>: the doubly linked list behind the block cache and the cache itself. The list
  is modelled on an explicit heap, because its operations are pointer manipulations whose effect
  depends on aliasing: a node is a record with the fields of \<open>LRUNode\<close>, a handle is its address,
  and the head node, which the list holds in place, has an address of its own. An owning box and
  a raw pointer are both an address; dropping a box frees its node. Following a pointer to a node
  that is not allocated is undefined behaviour in Rust and \<open>None\<close> here.
\<close>

section \<open>The heap\<close>

datatype lru_ptr = Head | Node nat

record 'a LRUNode =
  nd_next :: "lru_ptr option"
  nd_prev :: "lru_ptr option"
  nd_data :: "'a option"

type_synonym 'a lru_heap = "lru_ptr \<Rightarrow> 'a LRUNode option"

record 'a LRUList =
  ll_heap :: "'a lru_heap"
  ll_fresh :: nat
  ll_count :: usize

definition deref :: "'a lru_heap \<Rightarrow> lru_ptr \<Rightarrow> 'a LRUNode run" where
  "deref h p = h p"

definition set_next :: "lru_ptr \<Rightarrow> lru_ptr option \<Rightarrow> 'a lru_heap \<Rightarrow> 'a lru_heap run" where
  "set_next p x h = do { n \<leftarrow> deref h p; Some (h(p \<mapsto> n\<lparr>nd_next := x\<rparr>)) }"

definition set_prev :: "lru_ptr \<Rightarrow> lru_ptr option \<Rightarrow> 'a lru_heap \<Rightarrow> 'a lru_heap run" where
  "set_prev p x h = do { n \<leftarrow> deref h p; Some (h(p \<mapsto> n\<lparr>nd_prev := x\<rparr>)) }"

definition set_data :: "lru_ptr \<Rightarrow> 'a option \<Rightarrow> 'a lru_heap \<Rightarrow> 'a lru_heap run" where
  "set_data p x h = do { n \<leftarrow> deref h p; Some (h(p \<mapsto> n\<lparr>nd_data := x\<rparr>)) }"

text \<open>\<open>swap(&mut (*p).next, &mut (*q).next)\<close>, also for \<open>p = q\<close>, and the same for \<open>prev\<close>.\<close>

definition swap_next :: "lru_ptr \<Rightarrow> lru_ptr \<Rightarrow> 'a lru_heap \<Rightarrow> 'a lru_heap run" where
  "swap_next p q h =
     do {
       np \<leftarrow> deref h p;
       nq \<leftarrow> deref h q;
       h \<leftarrow> set_next p (nd_next nq) h;
       set_next q (nd_next np) h
     }"

definition swap_prev :: "lru_ptr \<Rightarrow> lru_ptr \<Rightarrow> 'a lru_heap \<Rightarrow> 'a lru_heap run" where
  "swap_prev p q h =
     do {
       np \<leftarrow> deref h p;
       nq \<leftarrow> deref h q;
       h \<leftarrow> set_prev p (nd_prev nq) h;
       set_prev q (nd_prev np) h
     }"

text \<open>Dropping a box frees the node and then drops what it owns. A cycle is a double free.\<close>

partial_function (option) drop_box :: "lru_ptr \<Rightarrow> 'a lru_heap \<Rightarrow> 'a lru_heap run" where
  "drop_box p h =
     do {
       n \<leftarrow> deref h p;
       case nd_next n of
         None \<Rightarrow> Some (h(p := None))
       | Some q \<Rightarrow> drop_box q (h(p := None))
     }"

declare drop_box.simps [code]

section \<open>The list\<close>

definition LRUList_new :: "'a LRUList" where
  "LRUList_new =
     \<lparr>ll_heap = [Head \<mapsto> \<lparr>nd_next = None, nd_prev = None, nd_data = None\<rparr>],
      ll_fresh = 0, ll_count = 0\<rparr>"

definition LRUList_insert :: "'a LRUList \<Rightarrow> 'a \<Rightarrow> (lru_ptr \<times> 'a LRUList) run" where
  "LRUList_insert self elem =
     do {
       count \<leftarrow> usize_add (ll_count self) 1;
       head \<leftarrow> deref (ll_heap self) Head;
       let newp = Node (ll_fresh self);
       let h = (ll_heap self)(newp \<mapsto>
         \<lparr>nd_next = None, nd_prev = Some Head, nd_data = Some elem\<rparr>);
       h \<leftarrow> (case nd_next head of
           Some first \<Rightarrow> do {
             h \<leftarrow> set_prev first (Some newp) h;
             h \<leftarrow> set_next Head None h;
             h \<leftarrow> set_next newp (Some first) h;
             set_next Head (Some newp) h
           }
         | None \<Rightarrow> do {
             h \<leftarrow> set_prev Head (Some newp) h;
             set_next Head (Some newp) h
           });
       Some (newp, self\<lparr>ll_heap := h, ll_fresh := ll_fresh self + 1, ll_count := count\<rparr>)
     }"

definition LRUList_remove_last :: "'a LRUList \<Rightarrow> ('a option \<times> 'a LRUList) run" where
  "LRUList_remove_last self =
     do {
       head \<leftarrow> deref (ll_heap self) Head;
       case nd_prev head of
         None \<Rightarrow> Some (None, self)
       | Some p \<Rightarrow> do {
           pn \<leftarrow> deref (ll_heap self) p;
           q \<leftarrow> nd_prev pn;
           qn \<leftarrow> deref (ll_heap self) q;
           h \<leftarrow> set_next q None (ll_heap self);
           case nd_next qn of
             None \<Rightarrow> Some (None, self\<lparr>ll_heap := h\<rparr>)
           | Some lasto \<Rightarrow> do {
               n \<leftarrow> deref h lasto;
               h \<leftarrow> set_prev Head (nd_prev n) h;
               count \<leftarrow> usize_sub (ll_count self) 1;
               h \<leftarrow> set_data lasto None h;
               h \<leftarrow> drop_box lasto h;
               Some (nd_data n, self\<lparr>ll_heap := h, ll_count := count\<rparr>)
             }
         }
     }"

definition LRUList_remove :: "'a LRUList \<Rightarrow> lru_ptr \<Rightarrow> ('a \<times> 'a LRUList) run" where
  "LRUList_remove self node_handle =
     do {
       n \<leftarrow> deref (ll_heap self) node_handle;
       h \<leftarrow> (case nd_next n of
           Some nextp \<Rightarrow> swap_prev nextp node_handle (ll_heap self)
         | None \<Rightarrow> Some (ll_heap self));
       n \<leftarrow> deref h node_handle;
       h \<leftarrow> (case nd_prev n of
           Some prevp \<Rightarrow> swap_next prevp node_handle h
         | None \<Rightarrow> Some h);
       count \<leftarrow> usize_sub (ll_count self) 1;
       n \<leftarrow> deref h node_handle;
       h \<leftarrow> set_data node_handle None h;
       data \<leftarrow> nd_data n;
       Some (data, self\<lparr>ll_heap := h, ll_count := count\<rparr>)
     }"

definition LRUList_reinsert_front :: "'a LRUList \<Rightarrow> lru_ptr \<Rightarrow> 'a LRUList run" where
  "LRUList_reinsert_front self node_handle =
     do {
       n \<leftarrow> deref (ll_heap self) node_handle;
       prevp \<leftarrow> nd_prev n;
       h \<leftarrow> (case nd_next n of
           Some nxt \<Rightarrow> set_prev nxt (Some prevp) (ll_heap self)
         | None \<Rightarrow> set_prev Head (Some prevp) (ll_heap self));
       h \<leftarrow> swap_next prevp node_handle h;
       h \<leftarrow> swap_next node_handle Head h;
       n \<leftarrow> deref h node_handle;
       h \<leftarrow> (case nd_next n of
           Some newnext \<Rightarrow> do {
             nn \<leftarrow> deref h newnext;
             h \<leftarrow> set_prev node_handle (nd_prev nn) h;
             set_prev newnext (Some node_handle) h
           }
         | None \<Rightarrow> set_prev Head (Some node_handle) h);
       head \<leftarrow> deref h Head;
       rassert (nd_next head \<noteq> None);
       rassert (nd_prev head \<noteq> None);
       Some (self\<lparr>ll_heap := h\<rparr>)
     }"

definition LRUList_count :: "'a LRUList \<Rightarrow> usize" where
  "LRUList_count self = ll_count self"

definition LRUList_testing_head_ref :: "'a LRUList \<Rightarrow> 'a option run" where
  "LRUList_testing_head_ref self =
     do {
       head \<leftarrow> deref (ll_heap self) Head;
       case nd_next head of
         Some first \<Rightarrow> do { n \<leftarrow> deref (ll_heap self) first; Some (nd_data n) }
       | None \<Rightarrow> Some None
     }"

section \<open>The cache\<close>

type_synonym CacheKey = bytes

record 'v Cache =
  ca_list :: "CacheKey LRUList"
  ca_map :: "CacheKey \<Rightarrow> ('v \<times> lru_ptr) option"
  ca_cap :: usize
  ca_id :: u64

definition Cache_new :: "usize \<Rightarrow> 'v Cache run" where
  "Cache_new capacity =
     do {
       rassert (capacity > 0);
       Some \<lparr>ca_list = LRUList_new, ca_map = Map.empty, ca_cap = capacity, ca_id = 0\<rparr>
     }"

definition Cache_new_cache_id :: "'v Cache \<Rightarrow> (u64 \<times> 'v Cache) run" where
  "Cache_new_cache_id self =
     do {
       rassert (unat (ca_id self) + 1 < 2 ^ 64);
       let self = self\<lparr>ca_id := ca_id self + 1\<rparr>;
       Some (ca_id self, self)
     }"

definition Cache_count :: "'v Cache \<Rightarrow> usize" where
  "Cache_count self = LRUList_count (ca_list self)"

definition Cache_get_cap :: "'v Cache \<Rightarrow> usize" where
  "Cache_get_cap self = ca_cap self"

definition Cache_insert :: "'v Cache \<Rightarrow> CacheKey \<Rightarrow> 'v \<Rightarrow> 'v Cache run" where
  "Cache_insert self key elem =
     do {
       self \<leftarrow>
         (if LRUList_count (ca_list self) \<ge> ca_cap self then
            do {
              (removed, list) \<leftarrow> LRUList_remove_last (ca_list self);
              case removed of
                Some removed_key \<Rightarrow> do {
                  rassert (ca_map self removed_key \<noteq> None);
                  Some (self\<lparr>ca_list := list, ca_map := (ca_map self)(removed_key := None)\<rparr>)
                }
              | None \<Rightarrow> None
            }
          else Some self);
       (lru_handle, list) \<leftarrow> LRUList_insert (ca_list self) key;
       Some (self\<lparr>ca_list := list, ca_map := (ca_map self)(key \<mapsto> (elem, lru_handle))\<rparr>)
     }"

definition Cache_get :: "'v Cache \<Rightarrow> CacheKey \<Rightarrow> ('v option \<times> 'v Cache) run" where
  "Cache_get self key =
     (case ca_map self key of
        None \<Rightarrow> Some (None, self)
      | Some (elem, lru_handle) \<Rightarrow> do {
          list \<leftarrow> LRUList_reinsert_front (ca_list self) lru_handle;
          Some (Some elem, self\<lparr>ca_list := list\<rparr>)
        })"

definition Cache_remove :: "'v Cache \<Rightarrow> CacheKey \<Rightarrow> ('v option \<times> 'v Cache) run" where
  "Cache_remove self key =
     (case ca_map self key of
        None \<Rightarrow> Some (None, self)
      | Some (elem, lru_handle) \<Rightarrow> do {
          let self = self\<lparr>ca_map := (ca_map self)(key := None)\<rparr>;
          (_, list) \<leftarrow> LRUList_remove (ca_list self) lru_handle;
          Some (Some elem, self\<lparr>ca_list := list\<rparr>)
        })"

section \<open>Segments of a linked list\<close>

text \<open>The nodes of a segment with their data, from the node after \<open>a\<close> up to the one before \<open>nxt\<close>.\<close>

fun first_ptr :: "(lru_ptr \<times> 'a) list \<Rightarrow> lru_ptr option \<Rightarrow> lru_ptr option" where
  "first_ptr [] nxt = nxt"
| "first_ptr (e # es) nxt = Some (fst e)"

fun last_ptr :: "lru_ptr \<Rightarrow> (lru_ptr \<times> 'a) list \<Rightarrow> lru_ptr" where
  "last_ptr a [] = a"
| "last_ptr a (e # es) = last_ptr (fst e) es"

fun seg :: "'a lru_heap \<Rightarrow> lru_ptr \<Rightarrow> (lru_ptr \<times> 'a) list \<Rightarrow> lru_ptr option \<Rightarrow> bool" where
  "seg h a [] nxt = True"
| "seg h a (e # es) nxt \<longleftrightarrow>
     h (fst e) = Some \<lparr>nd_next = first_ptr es nxt, nd_prev = Some a, nd_data = Some (snd e)\<rparr> \<and>
     seg h (fst e) es nxt"

lemma first_ptr_append [simp]: "first_ptr (es @ fs) nxt = first_ptr es (first_ptr fs nxt)"
  by (cases es) simp_all

lemma last_ptr_append [simp]: "last_ptr a (es @ fs) = last_ptr (last_ptr a es) fs"
  by (induction es arbitrary: a) simp_all

lemma last_ptr_cases: "last_ptr a es = a \<or> last_ptr a es \<in> fst ` set es"
  by (induction es arbitrary: a) auto

lemma seg_append [simp]:
  "seg h a (es @ fs) nxt \<longleftrightarrow> seg h a es (first_ptr fs nxt) \<and> seg h (last_ptr a es) fs nxt"
  by (induction es arbitrary: a) auto

lemma seg_frame [simp]: "p \<notin> fst ` set es \<Longrightarrow> seg (h(p := x)) a es nxt = seg h a es nxt"
  by (induction es arbitrary: a) auto

section \<open>The abstraction\<close>

text \<open>
  The nodes of a list from the front, most recently used first. An emptied list keeps a \<open>prev\<close>
  pointer of the head to itself.
\<close>

definition links :: "'a lru_heap \<Rightarrow> (lru_ptr \<times> 'a) list \<Rightarrow> bool" where
  "links h es \<longleftrightarrow>
     seg h Head es None \<and> distinct (map fst es) \<and> Head \<notin> fst ` set es \<and>
     (\<exists>hp. h Head = Some \<lparr>nd_next = first_ptr es None, nd_prev = hp, nd_data = None\<rparr> \<and>
        (hp = Some (last_ptr Head es) \<or> es = [] \<and> hp = None))"

definition lru_at :: "'a LRUList \<Rightarrow> (lru_ptr \<times> 'a) list \<Rightarrow> bool" where
  "lru_at l es \<longleftrightarrow>
     links (ll_heap l) es \<and> fst ` set es \<subseteq> Node ` {..<ll_fresh l} \<and> ll_count l = length es"

lemma lru_at_new: "lru_at LRUList_new []"
  by (simp add: lru_at_def links_def LRUList_new_def)

lemma lru_at_fresh: "lru_at l es \<Longrightarrow> Node (ll_fresh l) \<notin> fst ` set es"
  by (auto simp: lru_at_def)

lemmas heap_simps = deref_def set_next_def set_prev_def set_data_def swap_next_def swap_prev_def

lemma LRUList_insert_at:
  assumes at: "lru_at l es" and len: "length es + 1 < 2 ^ 64"
  shows "\<exists>l'. LRUList_insert l x = Some (Node (ll_fresh l), l') \<and>
    lru_at l' ((Node (ll_fresh l), x) # es)"
proof (cases es)
  case Nil
  then show ?thesis
    using at len
    by (auto simp: LRUList_insert_def lru_at_def links_def heap_simps run_simps Let_def)
next
  case (Cons e es')
  then show ?thesis
    using at len lru_at_fresh [OF at]
    by (auto simp: LRUList_insert_def lru_at_def links_def heap_simps run_simps Let_def)
qed

lemma drop_box_single:
  "deref h p = Some n \<Longrightarrow> nd_next n = None \<Longrightarrow> drop_box p h = Some (h(p := None))"
  by (subst drop_box.simps) simp

lemma LRUList_remove_last_at:
  assumes at: "lru_at l (fs @ [e])"
  shows "\<exists>l'. LRUList_remove_last l = Some (Some (snd e), l') \<and> lru_at l' fs \<and>
    ll_fresh l' = ll_fresh l"
proof (cases fs rule: rev_cases)
  case Nil
  then show ?thesis
    using at
    by (auto simp: LRUList_remove_last_def lru_at_def links_def heap_simps run_simps drop_box_single)
next
  case (snoc gs g)
  then show ?thesis
    using at
    by (auto simp: LRUList_remove_last_def lru_at_def links_def heap_simps run_simps drop_box_single)
qed

lemma LRUList_remove_last_empty:
  assumes at: "lru_at l []"
  shows "\<exists>l'. LRUList_remove_last l = Some (None, l') \<and> lru_at l' []"
  using at by (auto simp: LRUList_remove_last_def lru_at_def links_def heap_simps)

text \<open>\<open>reinsert_front\<close> first unlinks the node, which then owns itself, and then links it in front.\<close>

lemma unlink_node:
  assumes "links h (fs @ e # gs)"
  shows "\<exists>h1. (do {
      h \<leftarrow> (case first_ptr gs None of
          Some nxt \<Rightarrow> set_prev nxt (Some (last_ptr Head fs)) h
        | None \<Rightarrow> set_prev Head (Some (last_ptr Head fs)) h);
      swap_next (last_ptr Head fs) (fst e) h
    }) = Some h1 \<and> links h1 (fs @ gs) \<and>
    h1 (fst e) = Some \<lparr>nd_next = Some (fst e), nd_prev = Some (last_ptr Head fs),
      nd_data = Some (snd e)\<rparr>"
proof (cases fs rule: rev_cases)
  case Nil
  then show ?thesis
    using assms by (cases gs) (auto simp: links_def heap_simps)
next
  case (snoc fs' f)
  then show ?thesis
    using assms by (cases gs; cases fs') (auto simp: links_def heap_simps)
qed

lemma relink_front:
  assumes links: "links h es" and e: "fst e \<notin> fst ` set es" "fst e \<noteq> Head"
    and node: "h (fst e) = Some \<lparr>nd_next = Some (fst e), nd_prev = pr, nd_data = Some (snd e)\<rparr>"
    and prev: "es = [] \<Longrightarrow> pr = Some Head"
  shows "\<exists>h2. (do {
      h \<leftarrow> swap_next (fst e) Head h;
      n \<leftarrow> deref h (fst e);
      case nd_next n of
        Some newnext \<Rightarrow> do {
          nn \<leftarrow> deref h newnext;
          h \<leftarrow> set_prev (fst e) (nd_prev nn) h;
          set_prev newnext (Some (fst e)) h
        }
      | None \<Rightarrow> set_prev Head (Some (fst e)) h
    }) = Some h2 \<and> links h2 (e # es)"
proof (cases es)
  case Nil
  then show ?thesis using assms by (auto simp: links_def heap_simps)
next
  case (Cons f es')
  then show ?thesis using assms by (auto simp: links_def heap_simps)
qed

lemma LRUList_reinsert_front_at:
  assumes at: "lru_at l (fs @ e # gs)"
  shows "\<exists>l'. LRUList_reinsert_front l (fst e) = Some l' \<and> lru_at l' (e # fs @ gs) \<and>
    ll_fresh l' = ll_fresh l"
proof -
  have links: "links (ll_heap l) (fs @ e # gs)" using at by (simp add: lru_at_def)
  then have node: "deref (ll_heap l) (fst e) = Some \<lparr>nd_next = first_ptr gs None,
      nd_prev = Some (last_ptr Head fs), nd_data = Some (snd e)\<rparr>"
    and e: "fst e \<notin> fst ` set (fs @ gs)" "fst e \<noteq> Head"
    by (auto simp: links_def heap_simps)
  from unlink_node [OF links] obtain h0 h1 where
    h0: "(case first_ptr gs None of
        Some nxt \<Rightarrow> set_prev nxt (Some (last_ptr Head fs)) (ll_heap l)
      | None \<Rightarrow> set_prev Head (Some (last_ptr Head fs)) (ll_heap l)) = Some h0"
    and h1: "swap_next (last_ptr Head fs) (fst e) h0 = Some h1" "links h1 (fs @ gs)"
      "h1 (fst e) = Some \<lparr>nd_next = Some (fst e), nd_prev = Some (last_ptr Head fs),
        nd_data = Some (snd e)\<rparr>"
    by (auto simp: Option.bind_eq_Some_conv)
  have "fs @ gs = [] \<Longrightarrow> Some (last_ptr Head fs) = Some Head" by simp
  from relink_front [OF h1(2) e h1(3) this] obtain h2 n h3 where
    h2: "swap_next (fst e) Head h1 = Some h2" "deref h2 (fst e) = Some n"
    and h3: "(case nd_next n of
        Some newnext \<Rightarrow> do {
          nn \<leftarrow> deref h2 newnext;
          h \<leftarrow> set_prev (fst e) (nd_prev nn) h2;
          set_prev newnext (Some (fst e)) h
        }
      | None \<Rightarrow> set_prev Head (Some (fst e)) h2) = Some h3" "links h3 (e # fs @ gs)"
    by (auto simp: Option.bind_eq_Some_conv)
  from h3(2) obtain head where "deref h3 Head = Some head" "nd_next head \<noteq> None" "nd_prev head \<noteq> None"
    by (auto simp: links_def heap_simps)
  then have "LRUList_reinsert_front l (fst e) = Some (l\<lparr>ll_heap := h3\<rparr>)"
    by (simp add: LRUList_reinsert_front_def node h0 h1(1) h2 h3(1))
  moreover have "lru_at (l\<lparr>ll_heap := h3\<rparr>) (e # fs @ gs)"
    using at h3(2) by (auto simp: lru_at_def)
  ultimately show ?thesis by simp
qed

section \<open>The invariant of the cache\<close>

text \<open>The nodes of the list and the map refer to each other, key by key.\<close>

definition cache_at :: "'v Cache \<Rightarrow> (lru_ptr \<times> CacheKey) list \<Rightarrow> bool" where
  "cache_at c es \<longleftrightarrow>
     lru_at (ca_list c) es \<and> distinct (map snd es) \<and> length es \<le> ca_cap c \<and> 0 < ca_cap c \<and>
     dom (ca_map c) = snd ` set es \<and> (\<forall>(p, k) \<in> set es. \<exists>v. ca_map c k = Some (v, p))"

text \<open>The contents, most recently used first, and the specification of a bounded LRU map.\<close>

definition cache_view :: "'v Cache \<Rightarrow> (lru_ptr \<times> CacheKey) list \<Rightarrow> (CacheKey \<times> 'v) list" where
  "cache_view c es = map (\<lambda>(p, k). (k, fst (the (ca_map c k)))) es"

definition cache_is :: "'v Cache \<Rightarrow> (CacheKey \<times> 'v) list \<Rightarrow> bool" where
  "cache_is c kvs \<longleftrightarrow> (\<exists>es. cache_at c es \<and> cache_view c es = kvs)"

definition lru_insert :: "nat \<Rightarrow> CacheKey \<Rightarrow> 'v \<Rightarrow> (CacheKey \<times> 'v) list \<Rightarrow> (CacheKey \<times> 'v) list" where
  "lru_insert cap k v kvs = (k, v) # take (cap - 1) kvs"

fun lru_touch :: "CacheKey \<Rightarrow> (CacheKey \<times> 'v) list \<Rightarrow> (CacheKey \<times> 'v) list" where
  "lru_touch k kvs =
     (case map_of kvs k of
        None \<Rightarrow> kvs
      | Some v \<Rightarrow> (k, v) # filter (\<lambda>e. fst e \<noteq> k) kvs)"

lemma cache_view_keys: "map fst (cache_view c es) = map snd es"
  by (simp add: cache_view_def case_prod_beta comp_def)

lemma cache_view_filter:
  "k \<notin> snd ` set es \<Longrightarrow> filter (\<lambda>e. fst e \<noteq> k) (cache_view c es) = cache_view c es"
  by (induction es) (auto simp: cache_view_def)

lemma cache_view_cong:
  "(\<And>k. k \<in> snd ` set es \<Longrightarrow> ca_map c' k = ca_map c k) \<Longrightarrow> cache_view c' es = cache_view c es"
  by (force simp: cache_view_def)

lemma cache_view_map_of:
  assumes "cache_at c es"
  shows "map_of (cache_view c es) k = map_option fst (ca_map c k)"
proof (cases "ca_map c k")
  case None
  then have "k \<notin> snd ` set es" using assms by (auto simp: cache_at_def dom_def)
  then have "k \<notin> fst ` set (cache_view c es)" by (force simp: cache_view_def)
  then show ?thesis using None by (simp add: map_of_eq_None_iff)
next
  case (Some vp)
  then have "k \<in> snd ` set es" using assms by (auto simp: cache_at_def dom_def)
  then have "(k, fst vp) \<in> set (cache_view c es)" using Some by (force simp: cache_view_def)
  moreover have "distinct (map fst (cache_view c es))"
    using assms by (simp add: cache_view_keys cache_at_def)
  ultimately show ?thesis using Some by simp
qed

lemma cache_is_id [simp]: "cache_is (c\<lparr>ca_id := i\<rparr>) kvs = cache_is c kvs"
  by (simp add: cache_is_def cache_at_def cache_view_def)

lemma Cache_new_is: "0 < cap \<Longrightarrow> \<exists>c. Cache_new cap = Some c \<and> cache_is c [] \<and> ca_cap c = cap"
  by (auto simp: Cache_new_def cache_is_def cache_at_def cache_view_def lru_at_new dom_def)

lemma Cache_get_is:
  assumes "cache_is c kvs"
  shows "\<exists>c'. Cache_get c k = Some (map_of kvs k, c') \<and> cache_is c' (lru_touch k kvs) \<and>
    ca_cap c' = ca_cap c \<and> ca_id c' = ca_id c"
proof -
  obtain es where es: "cache_at c es" "kvs = cache_view c es" using assms by (auto simp: cache_is_def)
  show ?thesis
  proof (cases "ca_map c k")
    case None
    then show ?thesis
      using assms cache_view_map_of [OF es(1), of k] es(2) by (simp add: Cache_get_def)
  next
    case (Some vp)
    obtain v p where vp: "vp = (v, p)" by (cases vp)
    have "k \<in> snd ` set es" using Some es(1) by (auto simp: cache_at_def dom_def)
    then have "(p, k) \<in> set es" using Some es(1) vp by (force simp: cache_at_def)
    then obtain fs gs where split: "es = fs @ (p, k) # gs" by (auto simp: in_set_conv_decomp)
    have at: "lru_at (ca_list c) (fs @ (p, k) # gs)" using es(1) split by (simp add: cache_at_def)
    from LRUList_reinsert_front_at [OF at] obtain l' where
      l': "LRUList_reinsert_front (ca_list c) p = Some l'" "lru_at l' ((p, k) # fs @ gs)" by auto
    let ?c' = "c\<lparr>ca_list := l'\<rparr>"
    have "cache_at ?c' ((p, k) # fs @ gs)"
      using es(1) l'(2) split by (auto simp: cache_at_def)
    moreover have "cache_view ?c' ((p, k) # fs @ gs) = lru_touch k kvs"
    proof -
      have "filter (\<lambda>e. fst e \<noteq> k) (cache_view c fs) = cache_view c fs"
        "filter (\<lambda>e. fst e \<noteq> k) (cache_view c gs) = cache_view c gs"
        using es(1) split by (simp_all add: cache_at_def cache_view_filter)
      moreover have "map_of kvs k = Some v"
        using cache_view_map_of [OF es(1), of k] Some vp es(2) by simp
      moreover have "cache_view ?c' xs = cache_view c xs" for xs by (simp add: cache_view_def)
      ultimately show ?thesis using Some vp by (simp add: es(2) split) (simp add: cache_view_def)
    qed
    ultimately show ?thesis
      using Some vp l'(1) cache_view_map_of [OF es(1), of k] es(2)
      by (auto simp: Cache_get_def cache_is_def simp del: lru_touch.simps)
  qed
qed

text \<open>Inserting into a cache that has room, and evicting from one that is full.\<close>

lemma Cache_insert_room:
  assumes at: "cache_at c es" and room: "length es < ca_cap c" and cap: "ca_cap c < 2 ^ 64"
    and new: "k \<notin> snd ` set es"
  shows "\<exists>c' p. Cache_insert c k v = Some c' \<and> cache_at c' ((p, k) # es) \<and>
    cache_view c' ((p, k) # es) = (k, v) # cache_view c es \<and> ca_cap c' = ca_cap c \<and>
    ca_id c' = ca_id c"
proof -
  have l: "lru_at (ca_list c) es" using at by (simp add: cache_at_def)
  then have count: "LRUList_count (ca_list c) = length es" by (simp add: lru_at_def LRUList_count_def)
  let ?p = "Node (ll_fresh (ca_list c))"
  from LRUList_insert_at [OF l, of k] room cap obtain l' where
    l': "LRUList_insert (ca_list c) k = Some (?p, l')" "lru_at l' ((?p, k) # es)" by auto
  let ?c' = "c\<lparr>ca_list := l', ca_map := (ca_map c)(k \<mapsto> (v, ?p))\<rparr>"
  have "Cache_insert c k v = Some ?c'"
    using room l'(1) by (simp add: Cache_insert_def count)
  moreover have "cache_at ?c' ((?p, k) # es)"
    using at l'(2) new room by (force simp: cache_at_def)
  moreover have "cache_view ?c' ((?p, k) # es) = (k, v) # cache_view c es"
    using new by (force simp: cache_view_def)
  ultimately show ?thesis by force
qed

lemma Cache_evict:
  assumes at: "cache_at c es" and full: "length es = ca_cap c"
  shows "\<exists>c'. Cache_insert c k v = Cache_insert c' k v \<and> cache_at c' (butlast es) \<and>
    cache_view c' (butlast es) = butlast (cache_view c es) \<and> ca_cap c' = ca_cap c \<and>
    ca_id c' = ca_id c"
proof -
  have "es \<noteq> []" using at full by (auto simp: cache_at_def)
  then obtain fs e where es: "es = fs @ [e]" by (cases es rule: rev_cases) auto
  have l: "lru_at (ca_list c) (fs @ [e])" using at es by (simp add: cache_at_def)
  from LRUList_remove_last_at [OF l] obtain l' where
    l': "LRUList_remove_last (ca_list c) = Some (Some (snd e), l')" "lru_at l' fs" by auto
  let ?c' = "c\<lparr>ca_list := l', ca_map := (ca_map c)(snd e := None)\<rparr>"
  have "LRUList_count (ca_list c) = ca_cap c"
    using at full by (simp add: cache_at_def lru_at_def LRUList_count_def)
  moreover have "LRUList_count l' < ca_cap c"
    using l'(2) full es by (simp add: lru_at_def LRUList_count_def)
  moreover have "ca_map c (snd e) \<noteq> None" using at es by (auto simp: cache_at_def)
  moreover have new: "snd e \<notin> snd ` set fs" using at es by (simp add: cache_at_def)
  ultimately have "Cache_insert c k v = Cache_insert ?c' k v"
    using l'(1) by (simp add: Cache_insert_def)
  moreover have "cache_at ?c' fs"
    using at l'(2) es new by (auto simp: cache_at_def) (metis image_eqI snd_conv)
  moreover have "cache_view ?c' fs = cache_view c fs"
    using new by (intro cache_view_cong) (simp, blast)
  ultimately show ?thesis using es by (force simp: cache_view_def)
qed

lemma Cache_insert_is:
  assumes "cache_is c kvs" "ca_cap c < 2 ^ 64" "k \<notin> fst ` set kvs"
  shows "\<exists>c'. Cache_insert c k v = Some c' \<and> cache_is c' (lru_insert (ca_cap c) k v kvs) \<and>
    ca_cap c' = ca_cap c \<and> ca_id c' = ca_id c"
proof -
  obtain es where es: "cache_at c es" "kvs = cache_view c es" using assms(1) by (auto simp: cache_is_def)
  have keys: "k \<notin> snd ` set es"
    using assms(3) cache_view_keys [of c es] es(2) by (metis list.set_map)
  have len: "length kvs = length es" "length es \<le> ca_cap c" "0 < ca_cap c"
    using es by (simp_all add: cache_view_def cache_at_def)
  show ?thesis
  proof (cases "length es < ca_cap c")
    case True
    from Cache_insert_room [OF es(1) True assms(2) keys, of v] len True
    show ?thesis by (auto simp: cache_is_def lru_insert_def es(2))
  next
    case False
    then have full: "length es = ca_cap c" using len by simp
    from Cache_evict [OF es(1) full, of k v] obtain c1 where
      c1: "Cache_insert c k v = Cache_insert c1 k v" "cache_at c1 (butlast es)"
        "cache_view c1 (butlast es) = butlast kvs" "ca_cap c1 = ca_cap c" "ca_id c1 = ca_id c"
      using es(2) by auto
    have "k \<notin> snd ` set (butlast es)" using keys by (auto dest: in_set_butlastD)
    from Cache_insert_room [OF c1(2) _ _ this, of v] c1 assms(2) full len show ?thesis
      by (auto simp: cache_is_def lru_insert_def butlast_conv_take)
  qed
qed

section \<open>The interface to the table reader\<close>

text \<open>A cache all of whose entries satisfy \<open>P\<close>, such as being the block its key stands for.\<close>

definition coherent ::
  "('c \<Rightarrow> (CacheKey \<times> 'v) list \<Rightarrow> bool) \<Rightarrow> (CacheKey \<Rightarrow> 'v \<Rightarrow> bool) \<Rightarrow> 'c \<Rightarrow> bool" where
  "coherent holds P c \<longleftrightarrow> (\<exists>kvs. holds c kvs \<and> (\<forall>(k, v) \<in> set kvs. P k v))"

text \<open>
  What a client that reads through the cache relies on: \<open>holds c kvs\<close> says what the cache
  contains, a hit returns what is contained, and an insertion of an absent key takes effect.
\<close>

locale read_cache =
  fixes get :: "'c \<Rightarrow> CacheKey \<Rightarrow> ('v option \<times> 'c) run"
    and insert :: "'c \<Rightarrow> CacheKey \<Rightarrow> 'v \<Rightarrow> 'c run"
    and cap :: nat
    and holds :: "'c \<Rightarrow> (CacheKey \<times> 'v) list \<Rightarrow> bool"
  assumes get_holds: "holds c kvs \<Longrightarrow>
      \<exists>c'. get c k = Some (map_of kvs k, c') \<and> holds c' (lru_touch k kvs)"
    and insert_holds: "holds c kvs \<Longrightarrow> k \<notin> fst ` set kvs \<Longrightarrow>
      \<exists>c'. insert c k v = Some c' \<and> holds c' (lru_insert cap k v kvs)"
    and holds_bound: "holds c kvs \<Longrightarrow> length kvs \<le> cap"
begin

lemma get_coherent:
  assumes "coherent holds P c"
  shows "\<exists>r c'. get c k = Some (r, c') \<and> coherent holds P c' \<and> (\<forall>v. r = Some v \<longrightarrow> P k v) \<and>
    (r = None \<longrightarrow> (\<forall>v. P k v \<longrightarrow> (\<exists>c''. insert c' k v = Some c'' \<and> coherent holds P c'')))"
proof -
  obtain kvs where kvs: "holds c kvs" "\<forall>(k, v) \<in> set kvs. P k v"
    using assms by (auto simp: coherent_def)
  from get_holds [OF kvs(1)] obtain c' where
    c': "get c k = Some (map_of kvs k, c')" "holds c' (lru_touch k kvs)" by blast
  have P: "\<forall>(k, v) \<in> set (lru_touch k kvs). P k v"
    using kvs(2) by (auto dest: map_of_SomeD split: option.splits)
  have "\<exists>c''. insert c' k v = Some c'' \<and> coherent holds P c''" if none: "map_of kvs k = None" and v: "P k v" for v
  proof -
    have touch: "lru_touch k kvs = kvs" using none by simp
    have "k \<notin> fst ` set kvs" using none by (simp add: map_of_eq_None_iff)
    from insert_holds [OF c'(2)] this touch obtain c'' where
      "insert c' k v = Some c''" "holds c'' (lru_insert cap k v kvs)" by force
    then show ?thesis
      using kvs(2) v by (fastforce simp: coherent_def lru_insert_def dest: in_set_takeD)
  qed
  moreover have "\<forall>v. map_of kvs k = Some v \<longrightarrow> P k v"
    using kvs(2) by (auto dest: map_of_SomeD)
  ultimately show ?thesis using c' P by (auto simp: coherent_def simp del: lru_touch.simps)
qed

end

definition cache_holds :: "nat \<Rightarrow> u64 \<Rightarrow> 'v Cache \<Rightarrow> (CacheKey \<times> 'v) list \<Rightarrow> bool" where
  "cache_holds cap i c kvs \<longleftrightarrow> cache_is c kvs \<and> ca_cap c = cap \<and> cap < 2 ^ 64 \<and> ca_id c = i"

interpretation lru_cache: read_cache Cache_get Cache_insert cap "cache_holds cap i" for cap i
proof
  fix c :: "'v Cache" and kvs k v
  assume holds: "cache_holds cap i c kvs"
  then have c: "cache_is c kvs" "ca_cap c = cap" "cap < 2 ^ 64" "ca_id c = i"
    by (simp_all add: cache_holds_def)
  from Cache_get_is [OF c(1), of k] c(2-4)
  show "\<exists>c'. Cache_get c k = Some (map_of kvs k, c') \<and> cache_holds cap i c' (lru_touch k kvs)"
    by (auto simp: cache_holds_def simp del: lru_touch.simps)
  from c show "length kvs \<le> cap"
    by (auto simp: cache_is_def cache_at_def cache_view_def)
  assume "k \<notin> fst ` set kvs"
  from Cache_insert_is [OF c(1) _ this, of v] c(2-4)
  show "\<exists>c'. Cache_insert c k v = Some c' \<and> cache_holds cap i c' (lru_insert cap k v kvs)"
    by (auto simp: cache_holds_def)
qed

lemma Cache_count_view: "cache_is c kvs \<Longrightarrow> Cache_count c = length kvs"
  by (auto simp: cache_is_def cache_at_def lru_at_def cache_view_def Cache_count_def LRUList_count_def)

section \<open>Properties\<close>

text \<open>A run of lookups the way the table reader does them: get, and insert on a miss.\<close>

fun cache_lookups :: "'v Cache \<Rightarrow> (CacheKey \<times> 'v) list \<Rightarrow> ('v option list \<times> 'v Cache) run" where
  "cache_lookups c [] = Some ([], c)"
| "cache_lookups c ((k, v) # ops) =
     do {
       (r, c) \<leftarrow> Cache_get c k;
       c \<leftarrow> (case r of Some _ \<Rightarrow> Some c | None \<Rightarrow> Cache_insert c k v);
       (rs, c) \<leftarrow> cache_lookups c ops;
       Some (r # rs, c)
     }"

text \<open>The same run on the specification, a list of at most \<open>cap\<close> entries.\<close>

fun lru_lookups :: "nat \<Rightarrow> (CacheKey \<times> 'v) list \<Rightarrow> (CacheKey \<times> 'v) list \<Rightarrow>
    'v option list \<times> (CacheKey \<times> 'v) list" where
  "lru_lookups cap kvs [] = ([], kvs)"
| "lru_lookups cap kvs ((k, v) # ops) =
     (let r = map_of kvs k;
          kvs' = (case r of Some _ \<Rightarrow> lru_touch k kvs | None \<Rightarrow> lru_insert cap k v kvs);
          (rs, kvs'') = lru_lookups cap kvs' ops
      in (r # rs, kvs''))"

lemma cache_lookups_holds:
  "cache_holds cap i c kvs \<Longrightarrow>
   \<exists>c'. cache_lookups c ops = Some (fst (lru_lookups cap kvs ops), c') \<and>
     cache_holds cap i c' (snd (lru_lookups cap kvs ops))"
proof (induction ops arbitrary: c kvs)
  case (Cons op ops)
  obtain k v where op: "op = (k, v)" by (cases op)
  from lru_cache.get_holds [OF Cons.prems, of k] obtain c1 where
    c1: "Cache_get c k = Some (map_of kvs k, c1)" "cache_holds cap i c1 (lru_touch k kvs)" by blast
  show ?case
  proof (cases "map_of kvs k")
    case None
    then have "cache_holds cap i c1 kvs" using c1(2) by simp
    moreover have "k \<notin> fst ` set kvs" using None by (simp add: map_of_eq_None_iff)
    ultimately have "cache_holds cap i c1 kvs" "k \<notin> fst ` set kvs" .
    from lru_cache.insert_holds [OF this, of v] obtain c2 where
      "Cache_insert c1 k v = Some c2" "cache_holds cap i c2 (lru_insert cap k v kvs)" by blast
    with Cons.IH [OF this(2)] c1 None show ?thesis by (auto simp: op split_beta Let_def)
  next
    case (Some v')
    with Cons.IH [OF c1(2)] c1 show ?thesis
      by (auto simp: op split_beta Let_def simp del: lru_touch.simps)
  qed
qed auto

text \<open>C24: A cache of any capacity refines the bounded list of the most recently used entries: for
  every run of lookups no operation panics, hits and misses and their values are those of the
  specification, and the number of entries never exceeds the capacity.\<close>

theorem cache_refines_lru:
  assumes "0 < cap" "cap < 2 ^ 64"
  shows "\<exists>c c'. Cache_new cap = Some c \<and>
    cache_lookups c ops = Some (fst (lru_lookups cap [] ops), c') \<and>
    cache_is c' (snd (lru_lookups cap [] ops)) \<and>
    Cache_count c' = length (snd (lru_lookups cap [] ops)) \<and> Cache_count c' \<le> cap"
proof -
  obtain c :: "'a Cache" where c: "Cache_new cap = Some c" "cache_is c []" "ca_cap c = cap"
    using Cache_new_is [OF assms(1)] by blast
  then have "cache_holds cap (ca_id c) c []" using assms(2) by (simp add: cache_holds_def)
  from cache_lookups_holds [OF this, of ops] obtain c' where
    c': "cache_lookups c ops = Some (fst (lru_lookups cap [] ops), c')"
      "cache_holds cap (ca_id c) c' (snd (lru_lookups cap [] ops))" by blast
  then show ?thesis
    using c Cache_count_view [of c'] lru_cache.holds_bound [OF c'(2)]
    by (auto simp: cache_holds_def)
qed

theorem cache_refines_lru_witness:
  "\<exists>c c'. Cache_new 2 = Some c \<and>
    cache_lookups c [([1], 10 :: nat), ([2], 20), ([1], 11), ([3], 30), ([2], 21)] =
      Some ([None, None, Some 10, None, None], c') \<and>
    cache_is c' [([2], 21), ([3], 30)]"
  using cache_refines_lru [of 2 "[([1], 10 :: nat), ([2], 20), ([1], 11), ([3], 30), ([2], 21)]"]
  by (auto simp: lru_insert_def)

lemmas cache_code = Cache_new_def Cache_insert_def Cache_get_def Cache_remove_def LRUList_new_def
  LRUList_count_def LRUList_insert_def LRUList_remove_last_def LRUList_remove_def
  LRUList_reinsert_front_def heap_simps drop_box.simps usize_add_def usize_sub_def Let_def

text \<open>Inserting a key that is already in the cache leaves a second list node for it, so
  that a later eviction panics: a client must look a key up before it inserts it.\<close>

lemma cache_duplicate_insert_panics:
  "(do {
      c \<leftarrow> Cache_new 2;
      c \<leftarrow> Cache_insert c [0] v1;
      c \<leftarrow> Cache_insert c [0] v2;
      c \<leftarrow> Cache_insert c [1] v3;
      Cache_insert c [2] v4
    }) = None"
  by (simp add: cache_code)

text \<open>After removing an entry that is not the least recently used one, an eviction can drop the newest entry
  and free every node, so that the entry that is still in the map refers to freed memory.\<close>

lemma cache_remove_frees_used_node:
  "(do {
      c \<leftarrow> Cache_new 2;
      c \<leftarrow> Cache_insert c [0] v1;
      c \<leftarrow> Cache_insert c [1] v2;
      (_, c) \<leftarrow> Cache_remove c [1];
      c \<leftarrow> Cache_insert c [2] v3;
      c \<leftarrow> Cache_insert c [3] v4;
      (newest, c) \<leftarrow> Cache_get c [2];
      Some (newest, ca_map c [0] \<noteq> None, Cache_get c [0] = None)
    }) = Some (None, True, True)"
  by (simp add: cache_code)

end
