(* ===== verification/SST_TableReader.thy ===== *)
theory SST_TableReader
  imports SST_TableBlock SST_Cache
begin

text \<open>
  \<open>src/table_reader.rs\<close>: opening a table, point lookups and the two-level iterator. The block
  cache that the options share between tables is passed in and returned by every operation that
  takes its lock; the lock is never poisoned, since a panic ends the modelled run. An iterator
  method therefore works on the pair of the iterator and the cache.
\<close>

type_synonym block_cache = "Block Cache"

text \<open>The options together with the cache they hold: the default one, and one of another capacity.\<close>

definition Options_default_block_cache :: "deps \<Rightarrow> (Options \<times> block_cache) run" where
  "Options_default_block_cache D =
     do {
       block_cache \<leftarrow> Cache_new Options_default_cache_capacity;
       Some (Options_default D, block_cache)
     }"

definition Options_with_cache_capacity ::
  "Options \<times> block_cache \<Rightarrow> usize \<Rightarrow> (Options \<times> block_cache) run" where
  "Options_with_cache_capacity self capacity =
     do { block_cache \<leftarrow> Cache_new capacity; Some (fst self, block_cache) }"

section \<open>Tables\<close>

record Table =
  tab_file :: random_access
  tab_cache_id :: u64
  tab_opt :: Options
  tab_footer :: Footer
  tab_index_block :: Block
  tab_filters :: "FilterBlockReader option"

definition read_footer :: "deps \<Rightarrow> random_access \<Rightarrow> usize \<Rightarrow> (Status + Footer) run" where
  "read_footer D f sz =
     do {
       buf \<leftarrow> zeroed_vec FULL_FOOTER_LENGTH;
       off \<leftarrow> usize_sub sz FULL_FOOTER_LENGTH;
       try_bind (f off buf) (\<lambda>(_, buf). do { footer \<leftarrow> Footer_decode D buf; ok footer })
     }"

text \<open>The key the seek finds is not compared with the name looked for.\<close>

definition Table_read_filter_block ::
  "deps \<Rightarrow> Block \<Rightarrow> random_access \<Rightarrow> Options \<Rightarrow> (Status + FilterBlockReader option) run" where
  "Table_read_filter_block D metaix file options =
     do {
       let filter_name = filter_block_name (policy_name (opt_filter_policy options));
       metaindexiter \<leftarrow> Block_iter D metaix;
       metaindexiter \<leftarrow> BlockIter_seek D metaindexiter filter_name;
       kv \<leftarrow> current_key_val BlockIter_current metaindexiter;
       case kv of
         Some (_, val) \<Rightarrow>
           do {
             (filter_block_location, _) \<leftarrow> BlockHandle_decode D val;
             if bh_size filter_block_location > 0 then
               try_bind (read_filter_block D file filter_block_location (opt_filter_policy options))
                 (\<lambda>r. ok (Some r))
             else ok None
           }
       | None \<Rightarrow> ok None
     }"

definition Table_new ::
  "deps \<Rightarrow> Options \<Rightarrow> random_access \<Rightarrow> usize \<Rightarrow> block_cache \<Rightarrow> ((Status + Table) \<times> block_cache) run" where
  "Table_new D opt file sz cache =
     do {
       r \<leftarrow> try_bind (read_footer D file sz) (\<lambda>footer.
            try_bind (read_table_block D opt file (ft_index footer)) (\<lambda>index_block.
            try_bind (read_table_block D opt file (ft_meta_index footer)) (\<lambda>metaindex_block.
            try_bind (Table_read_filter_block D metaindex_block file opt) (\<lambda>filters.
              ok (footer, index_block, filters)))));
       case r of
         Inl e \<Rightarrow> Some (Inl e, cache)
       | Inr (footer, index_block, filters) \<Rightarrow>
           do {
             (cache_id, cache) \<leftarrow> Cache_new_cache_id cache;
             Some (Inr \<lparr>tab_file = file, tab_cache_id = cache_id, tab_opt = opt, tab_footer = footer,
                        tab_index_block = index_block, tab_filters = filters\<rparr>, cache)
           }
     }"

definition block_cache_handle :: "deps \<Rightarrow> Table \<Rightarrow> usize \<Rightarrow> CacheKey" where
  "block_cache_handle D self block_off =
     (let dst = replicate 16 0;
          dst = copy_into dst 0 (encode_fixed64 D (tab_cache_id self))
      in copy_into dst 8 (encode_fixed64 D (usize_as_u64 block_off)))"

definition Table_read_block ::
  "deps \<Rightarrow> Table \<Rightarrow> BlockHandle \<Rightarrow> block_cache \<Rightarrow> ((Status + Block) \<times> block_cache) run" where
  "Table_read_block D self location cache =
     do {
       let cachekey = block_cache_handle D self (bh_offset location);
       (cached, cache) \<leftarrow> Cache_get cache cachekey;
       case cached of
         Some block \<Rightarrow> Some (Inr block, cache)
       | None \<Rightarrow>
           do {
             r \<leftarrow> read_table_block D (tab_opt self) (tab_file self) location;
             case r of
               Inl e \<Rightarrow> Some (Inl e, cache)
             | Inr b \<Rightarrow> do { cache \<leftarrow> Cache_insert cache cachekey b; Some (Inr b, cache) }
           }
     }"

definition Table_approx_offset_of :: "deps \<Rightarrow> Table \<Rightarrow> bytes \<Rightarrow> usize run" where
  "Table_approx_offset_of D self key =
     do {
       iter \<leftarrow> Block_iter D (tab_index_block self);
       iter \<leftarrow> BlockIter_seek D iter key;
       kv \<leftarrow> current_key_val BlockIter_current iter;
       case kv of
         Some (_, val) \<Rightarrow> do { (location, _) \<leftarrow> BlockHandle_decode D val; Some (bh_offset location) }
       | None \<Rightarrow> Some (bh_offset (ft_meta_index (tab_footer self)))
     }"

text \<open>The part of \<open>get\<close> that finds the handle of the only block that may hold the key.\<close>

definition Table_get_handle :: "deps \<Rightarrow> Table \<Rightarrow> bytes \<Rightarrow> BlockHandle option run" where
  "Table_get_handle D self key =
     do {
       index_iter \<leftarrow> Block_iter D (tab_index_block self);
       index_iter \<leftarrow> BlockIter_seek D index_iter key;
       kv \<leftarrow> current_key_val BlockIter_current index_iter;
       case kv of
         Some (last_in_block, h) \<Rightarrow>
           if cmp (opt_cmp (tab_opt self)) key last_in_block = Less
           then do { (handle, _) \<leftarrow> BlockHandle_decode D h; Some (Some handle) }
           else Some None
       | None \<Rightarrow> Some None
     }"

definition Table_get ::
  "deps \<Rightarrow> Table \<Rightarrow> bytes \<Rightarrow> block_cache \<Rightarrow> ((Status + bytes option) \<times> block_cache) run" where
  "Table_get D self key cache =
     do {
       h \<leftarrow> Table_get_handle D self key;
       case h of
         None \<Rightarrow> Some (Inr None, cache)
       | Some handle \<Rightarrow>
           do {
             may_match \<leftarrow> (case tab_filters self of
                 Some filters \<Rightarrow> FilterBlockReader_key_may_match D filters (bh_offset handle) key
               | None \<Rightarrow> Some True);
             if \<not> may_match then Some (Inr None, cache)
             else do {
               (r, cache) \<leftarrow> Table_read_block D self handle cache;
               case r of
                 Inl e \<Rightarrow> Some (Inl e, cache)
               | Inr tb \<Rightarrow>
                   do {
                     iter \<leftarrow> Block_iter D tb;
                     iter \<leftarrow> BlockIter_seek D iter key;
                     kv \<leftarrow> current_key_val BlockIter_current iter;
                     case kv of
                       Some (k, v) \<Rightarrow>
                         if cmp (opt_cmp (tab_opt self)) k key = Equal then Some (Inr (Some v), cache)
                         else Some (Inr None, cache)
                     | None \<Rightarrow> Some (Inr None, cache)
                   }
             }
           }
     }"

section \<open>The iterator\<close>

record TableIterator =
  ti_table :: Table
  ti_current_block :: "BlockIter option"
  ti_current_block_off :: usize
  ti_index_block :: BlockIter

type_synonym table_iter = "TableIterator \<times> block_cache"

definition Table_iter :: "deps \<Rightarrow> Table \<Rightarrow> TableIterator run" where
  "Table_iter D self =
     do {
       index_block \<leftarrow> Block_iter D (tab_index_block self);
       Some \<lparr>ti_table = self, ti_current_block = None, ti_current_block_off = 0,
             ti_index_block = index_block\<rparr>
     }"

fun TableIterator_reset :: "table_iter \<Rightarrow> table_iter" where
  "TableIterator_reset (self, cache) =
     (self\<lparr>ti_index_block := BlockIter_reset (ti_index_block self), ti_current_block := None\<rparr>, cache)"

fun load_block :: "deps \<Rightarrow> table_iter \<Rightarrow> bytes \<Rightarrow> ((Status + unit) \<times> table_iter) run" where
  "load_block D (self, cache) handle =
     do {
       (new_block_handle, _) \<leftarrow> BlockHandle_decode D handle;
       (r, cache) \<leftarrow> Table_read_block D (ti_table self) new_block_handle cache;
       case r of
         Inl e \<Rightarrow> Some (Inl e, self, cache)
       | Inr block \<Rightarrow>
           do {
             iter \<leftarrow> Block_iter D block;
             Some (Inr (), self\<lparr>ti_current_block := Some iter,
                                ti_current_block_off := bh_offset new_block_handle\<rparr>, cache)
           }
     }"

fun skip_to_next_entry :: "deps \<Rightarrow> table_iter \<Rightarrow> ((Status + bool) \<times> table_iter) run" where
  "skip_to_next_entry D (self, cache) =
     do {
       (r, index_block) \<leftarrow> BlockIter_next D (ti_index_block self);
       let self = self\<lparr>ti_index_block := index_block\<rparr>;
       case r of
         Some (_, val) \<Rightarrow>
           do {
             (r, it) \<leftarrow> load_block D (self, cache) val;
             Some (case r of Inl e \<Rightarrow> Inl e | Inr _ \<Rightarrow> Inr True, it)
           }
       | None \<Rightarrow> Some (Inr False, self, cache)
     }"

text \<open>The call of the current block's \<open>advance\<close>, if there is a current block.\<close>

fun advance_current :: "deps \<Rightarrow> table_iter \<Rightarrow> (bool \<times> table_iter) run" where
  "advance_current D (self, cache) =
     (case ti_current_block self of
        None \<Rightarrow> Some (False, self, cache)
      | Some cb \<Rightarrow>
          do {
            (b, cb) \<leftarrow> BlockIter_advance D cb;
            Some (b, self\<lparr>ti_current_block := Some cb\<rparr>, cache)
          })"

fun drop_current :: "table_iter \<Rightarrow> table_iter" where
  "drop_current (self, cache) = (self\<lparr>ti_current_block := None\<rparr>, cache)"

text \<open>
  A block that fails to load is skipped. Both places that load the next block continue in the
  same way; the first one is reached without a current block.
\<close>

partial_function (option) TableIterator_advance :: "deps \<Rightarrow> table_iter \<Rightarrow> (bool \<times> table_iter) run" where
  "TableIterator_advance D it =
     (if ti_current_block (fst it) = None then
        do {
          (r, it) \<leftarrow> skip_to_next_entry D it;
          case r of
            Inl e \<Rightarrow> TableIterator_advance D it
          | Inr loaded \<Rightarrow>
              if loaded then TableIterator_advance D it else Some (False, TableIterator_reset it)
        }
      else
        do {
          (b, it) \<leftarrow> advance_current D it;
          if b then Some (True, it)
          else do {
            (r, it) \<leftarrow> skip_to_next_entry D (drop_current it);
            case r of
              Inl e \<Rightarrow> TableIterator_advance D it
            | Inr loaded \<Rightarrow>
                if loaded then TableIterator_advance D it else Some (False, TableIterator_reset it)
          }
        })"

declare TableIterator_advance.simps [code]

fun TableIterator_seek :: "deps \<Rightarrow> table_iter \<Rightarrow> bytes \<Rightarrow> table_iter run" where
  "TableIterator_seek D (self, cache) to =
     do {
       index_block \<leftarrow> BlockIter_seek D (ti_index_block self) to;
       let self = self\<lparr>ti_index_block := index_block\<rparr>;
       kv \<leftarrow> current_key_val BlockIter_current index_block;
       case kv of
         None \<Rightarrow> Some (TableIterator_reset (self, cache))
       | Some (past_block, handle) \<Rightarrow>
           if cmp (opt_cmp (tab_opt (ti_table self))) to past_block \<le> Equal then
             do {
               (r, self, cache) \<leftarrow> load_block D (self, cache) handle;
               case r of
                 Inl e \<Rightarrow> Some (TableIterator_reset (self, cache))
               | Inr _ \<Rightarrow>
                   do {
                     cb \<leftarrow> ti_current_block self;
                     cb \<leftarrow> BlockIter_seek D cb to;
                     Some (self\<lparr>ti_current_block := Some cb\<rparr>, cache)
                   }
             }
           else Some (TableIterator_reset (self, cache))
     }"

text \<open>The call of the current block's \<open>prev\<close>, if there is a current block.\<close>

fun prev_current :: "deps \<Rightarrow> table_iter \<Rightarrow> (bool \<times> table_iter) run" where
  "prev_current D (self, cache) =
     (case ti_current_block self of
        None \<Rightarrow> Some (False, self, cache)
      | Some cb \<Rightarrow>
          do {
            (b, cb) \<leftarrow> BlockIter_prev D cb;
            Some (b, self\<lparr>ti_current_block := Some cb\<rparr>, cache)
          })"

fun TableIterator_prev :: "deps \<Rightarrow> table_iter \<Rightarrow> (bool \<times> table_iter) run" where
  "TableIterator_prev D it =
     do {
       (b, self, cache) \<leftarrow> prev_current D it;
       if b then Some (True, self, cache)
       else do {
         (b, index_block) \<leftarrow> BlockIter_prev D (ti_index_block self);
         let self = self\<lparr>ti_index_block := index_block\<rparr>;
         if \<not> b then Some (False, self, cache)
         else do {
           kv \<leftarrow> current_key_val BlockIter_current index_block;
           case kv of
             None \<Rightarrow> Some (False, self, cache)
           | Some (_, handle) \<Rightarrow>
               do {
                 (r, self, cache) \<leftarrow> load_block D (self, cache) handle;
                 case r of
                   Inl e \<Rightarrow> Some (False, TableIterator_reset (self, cache))
                 | Inr _ \<Rightarrow>
                     do {
                       cb \<leftarrow> ti_current_block self;
                       cb \<leftarrow> BlockIter_seek_to_last D cb;
                       Some (BlockIter_valid cb, self\<lparr>ti_current_block := Some cb\<rparr>, cache)
                     }
               }
         }
       }
     }"

fun TableIterator_valid :: "table_iter \<Rightarrow> bool" where
  "TableIterator_valid (self, cache) =
     (case ti_current_block self of None \<Rightarrow> False | Some cb \<Rightarrow> BlockIter_valid cb)"

fun TableIterator_current :: "table_iter \<Rightarrow> bytes \<Rightarrow> bytes \<Rightarrow> (bool \<times> bytes \<times> bytes) run" where
  "TableIterator_current (self, cache) key val =
     (case ti_current_block self of
        None \<Rightarrow> Some (False, key, val)
      | Some cb \<Rightarrow> BlockIter_current cb key val)"

fun TableIterator_current_key :: "table_iter \<Rightarrow> bytes option" where
  "TableIterator_current_key (self, cache) =
     (case ti_current_block self of None \<Rightarrow> None | Some cb \<Rightarrow> BlockIter_current_key cb)"

end
