(* ===== verification/SST_TableRead.thy ===== *)
theory SST_TableRead
  imports SST_TableReader SST_TableFormat SST_BlockProps
begin

text \<open>
  The reader on a file with the format of a table: opening succeeds, blocks are read through
  the cache, \<open>get\<close> looks keys up, and the iterator walks over the entries. \<open>table_view\<close> relates
  an opened table to the data blocks of its file.
\<close>

section \<open>Opening blocks\<close>

lemma holds_entries_length:
  assumes "integer_codec D" "holds_entries D contents kvs"
  shows "4 < length contents"
  using assms(2) integer_codec.block_bytes_length [OF assms(1)] restarts_ok_0
  by (auto simp: holds_entries_def block_layout_def)

lemma Block_iter_holds:
  assumes oc: "ordered_codec D C" and opt: "opt_cmp opt = C"
    and holds: "holds_entries D contents kvs" and keys: "[] \<notin> fst ` set kvs"
    and asc: "ascending C (map fst kvs)"
  shows "\<exists>it. Block_iter D \<lparr>blk_contents = contents, blk_opt = opt\<rparr> = Some it \<and> block_at D C kvs None it"
proof -
  have codec: "integer_codec D" using oc by (simp add: ordered_codec_def)
  obtain es rs where es: "block_layout D es rs contents" "map snd es = kvs"
    using holds by (auto simp: holds_entries_def)
  have "\<forall>e \<in> set es. ent_key e \<noteq> []"
    using keys unfolding es(2) [symmetric] image_set [symmetric] list.map_comp by force
  from integer_codec.layout_open [OF codec es(1) this, of opt] obtain it where
    it: "(Block_new opt contents \<bind> Block_iter D) = Some it" "bi_at D es rs None it" "bi_opt it = opt"
    by blast
  have "4 < length contents" by (rule holds_entries_length [OF codec holds])
  then have "Block_iter D \<lparr>blk_contents = contents, blk_opt = opt\<rparr> = Some it"
    using it(1) by (simp add: Block_new_def)
  moreover have "block_at D C kvs None it"
    using block_atI [OF oc _ _ it(2)] it(3) opt asc es(2) by (auto simp: comp_def)
  ultimately show ?thesis by blast
qed

section \<open>Looking a key up in ascending entries\<close>

text \<open>The first entry not below the key is the one with the key, if there is one.\<close>

definition lookup :: "Cmp \<Rightarrow> bytes \<Rightarrow> (bytes \<times> bytes) list \<Rightarrow> bytes option" where
  "lookup C key kvs = map_option snd (find (\<lambda>e. cmp C (fst e) key = Equal) kvs)"

definition lower_bound :: "Cmp \<Rightarrow> bytes \<Rightarrow> (bytes \<times> 'v) list \<Rightarrow> (bytes \<times> 'v) option" where
  "lower_bound C key kvs = find (\<lambda>e. cmp C (fst e) key \<noteq> Less) kvs"

lemma lookup_append:
  "lookup C key (xs @ ys) = (case lookup C key xs of None \<Rightarrow> lookup C key ys | Some v \<Rightarrow> Some v)"
  by (induction xs) (auto simp: lookup_def)

lemma lookup_None_iff: "lookup C key kvs = None \<longleftrightarrow> (\<forall>k \<in> fst ` set kvs. cmp C k key \<noteq> Equal)"
  by (induction kvs) (auto simp: lookup_def)

context comparator
begin

lemma lookup_lower_bound:
  assumes "ascending C (map fst kvs)"
  shows "lookup C key kvs =
    (case lower_bound C key kvs of
       None \<Rightarrow> None
     | Some (k, v) \<Rightarrow> if cmp C k key = Equal then Some v else None)"
  using assms
proof (induction kvs)
  case (Cons e kvs)
  obtain k v where e: "e = (k, v)" by (cases e)
  show ?case
  proof (cases "cmp C k key")
    case Greater
    have "cmp C k' key \<noteq> Equal" if "k' \<in> fst ` set kvs" for k'
    proof -
      have "cmp C k k' = Less" using Cons.prems that e by (auto simp: ascending_def)
      then show ?thesis using Greater cmp_less_le_trans [of k k' key] by auto
    qed
    then have "lookup C key kvs = None" by (simp add: lookup_None_iff)
    then show ?thesis using Greater e by (simp add: lookup_def lower_bound_def)
  qed (use Cons e in \<open>auto simp: lookup_def lower_bound_def ascending_def\<close>)
qed (simp add: lookup_def lower_bound_def)

end

section \<open>Opening a table\<close>

definition table_view ::
  "deps \<Rightarrow> Options \<Rightarrow> bytes \<Rightarrow> data_block list \<Rightarrow> bytes list \<Rightarrow> Table \<Rightarrow> bool" where
  "table_view D opt file blocks fs t \<longleftrightarrow>
     tab_opt t = opt \<and> random_access_file (tab_file t) file \<and> length file < 2 ^ 29 \<and>
     data_blocks D (opt_cmp opt) file blocks \<and>
     (\<exists>index. tab_index_block t = \<lparr>blk_contents = index, blk_opt = opt\<rparr> \<and>
        holds_entries D index (index_entries D blocks)) \<and>
     tab_filters t = Some (reader_of D (opt_filter_policy opt) fs) \<and>
     filters_for (opt_filter_policy opt) fs (table_records blocks) \<and>
     length (filter_block_bytes D fs) < 2 ^ 29"

text \<open>The part of it that does not speak of the data blocks.\<close>

definition table_parts ::
  "deps \<Rightarrow> Options \<Rightarrow> bytes \<Rightarrow> data_block list \<Rightarrow> bytes list \<Rightarrow> Table \<Rightarrow> bool" where
  "table_parts D opt file blocks fs t \<longleftrightarrow>
     tab_opt t = opt \<and> random_access_file (tab_file t) file \<and> length file < 2 ^ 29 \<and>
     (\<exists>index. tab_index_block t = \<lparr>blk_contents = index, blk_opt = opt\<rparr> \<and>
        holds_entries D index (index_entries D blocks)) \<and>
     tab_filters t = Some (reader_of D (opt_filter_policy opt) fs) \<and>
     filters_for (opt_filter_policy opt) fs (table_records blocks) \<and>
     length (filter_block_bytes D fs) < 2 ^ 29"

lemma table_view_parts:
  "table_view D opt file blocks fs t \<longleftrightarrow>
   table_parts D opt file blocks fs t \<and> data_blocks D (opt_cmp opt) file blocks"
  by (auto simp: table_view_def table_parts_def)

lemma table_view_handles:
  assumes "table_view D opt file blocks fs t"
  shows "(\<forall>b \<in> set blocks. handle_ok (db_handle b)) \<and> distinct (map (\<lambda>b. bh_offset (db_handle b)) blocks)"
  using assms by (auto simp: table_view_def data_blocks_def data_ok_def dest: laid_out_distinct)

locale table_reader = third_party_laws D + comparator C for D :: deps and C :: Cmp
begin

lemma ordered: "ordered_codec D C"
  using integer_codec_axioms comparator_axioms by (simp add: ordered_codec_def)

lemma read_footer_eq:
  assumes "random_access_file read_at (body @ footer_bytes D ft)" "footer_ok ft"
  shows "read_footer D read_at (length (body @ footer_bytes D ft)) = ok ft"
  using random_access_file.read_inside [OF assms(1), of "length body" "replicate 48 0"]
    footer_bytes_length [OF assms(2)] Footer_decode_eq [OF assms(2)]
  by (simp add: read_footer_def footer_consts zeroed_vec_def run_simps)

text \<open>The seek in the metaindex block finds the filter's handle, and its bytes are read back.\<close>

lemma seek_single:
  assumes opt: "opt_cmp opt = C" and holds: "holds_entries D contents [(k, v)]" and k: "k \<noteq> []"
  shows "\<exists>it it'. Block_iter D \<lparr>blk_contents = contents, blk_opt = opt\<rparr> = Some it \<and>
    BlockIter_seek D it k = Some it' \<and> current_key_val BlockIter_current it' = Some (Some (k, v))"
proof -
  from Block_iter_holds [OF ordered opt holds] k obtain it where
    it: "Block_iter D \<lparr>blk_contents = contents, blk_opt = opt\<rparr> = Some it" "block_at D C [(k, v)] None it"
    by (auto simp: ascending_def)
  from block_iter.seek_current [OF it(2), of k] it(1) show ?thesis
    by (auto simp: cmp_refl)
qed

lemma Table_read_filter_block_eq:
  assumes opt: "opt_cmp opt = C"
    and meta: "holds_entries D meta
      [(filter_block_name (policy_name (opt_filter_policy opt)), handle_bytes D fh)]"
    and fl: "random_access_file read_at (pre @ filter_block_bytes D fs @ rest)"
    and fh: "fh = BlockHandle_new (length pre) (length (filter_block_bytes D fs))" "handle_ok fh"
    and len: "length (filter_block_bytes D fs) < 2 ^ 29"
  shows "Table_read_filter_block D \<lparr>blk_contents = meta, blk_opt = opt\<rparr> read_at opt =
    ok (Some (reader_of D (opt_filter_policy opt) fs))"
proof -
  have "filter_block_name (policy_name (opt_filter_policy opt)) \<noteq> []"
    by (simp add: filter_block_name_def as_bytes_def)
  from seek_single [OF opt meta this] obtain it it' where
    it: "Block_iter D \<lparr>blk_contents = meta, blk_opt = opt\<rparr> = Some it"
      "BlockIter_seek D it (filter_block_name (policy_name (opt_filter_policy opt))) = Some it'"
      "current_key_val BlockIter_current it' =
        Some (Some (filter_block_name (policy_name (opt_filter_policy opt)), handle_bytes D fh))"
    by blast
  have sz: "0 < bh_size fh" using fh(1) filter_block_bytes_length [of fs] by simp
  have "read_bytes read_at fh = ok (filter_block_bytes D fs)"
    using read_bytes_inside [OF fl, of fh] fh(1) len by simp
  moreover have "FilterBlockReader_new D (opt_filter_policy opt) (filter_block_bytes D fs) =
      Some (reader_of D (opt_filter_policy opt) fs)"
    using reader_new [of fs] len by simp
  ultimately have "read_filter_block D read_at fh (opt_filter_policy opt) =
      ok (reader_of D (opt_filter_policy opt) fs)"
    using sz by (simp add: read_filter_block_def)
  then show ?thesis
    using it sz decode_handle_bytes [OF fh(2), of "[]"]
    by (simp add: Table_read_filter_block_def)
qed

text \<open>Opening a table reads only what follows its data blocks.\<close>

lemma Table_new_parts:
  assumes opt: "opt_cmp opt = C" and fl: "random_access_file read_at file"
    and tail: "table_tail D opt n file blocks ft" and len: "length file < 2 ^ 29"
    and id: "unat (ca_id cache) + 1 < 2 ^ 64"
  shows "\<exists>t fs. Table_new D opt read_at (length file) cache =
      Some (Inr t, cache\<lparr>ca_id := ca_id cache + 1\<rparr>) \<and>
    table_parts D opt file blocks fs t \<and> tab_cache_id t = ca_id cache + 1 \<and>
    tab_file t = read_at \<and> tab_footer t = ft \<and>
    fs = filters_of (opt_filter_policy opt) (table_records blocks) n"
proof -
  let ?P = "opt_filter_policy opt"
  obtain fh fs index meta body pre rest where t:
    "file = body @ footer_bytes D ft" "footer_ok ft"
    "stored D file (ft_index ft) index" "holds_entries D index (index_entries D blocks)"
    "stored D file (ft_meta_index ft) meta"
    "holds_entries D meta [(filter_block_name (policy_name ?P), handle_bytes D fh)]"
    "file = pre @ filter_block_bytes D fs @ rest"
    "fh = BlockHandle_new (length pre) (length (filter_block_bytes D fs))" "handle_ok fh"
    "filters_for ?P fs (table_records blocks)" "fs = filters_of ?P (table_records blocks) n"
    using tail unfolding table_tail_def by (elim conjE exE)
  have len63: "length file < 2 ^ 63" using len by simp
  have "read_footer D read_at (length file) = ok ft"
    using read_footer_eq [OF _ t(2), of read_at body] fl t(1) by simp
  moreover have "read_table_block D opt read_at (ft_index ft) = ok \<lparr>blk_contents = index, blk_opt = opt\<rparr>"
    by (rule read_table_block_stored [OF third_party_laws_axioms fl t(3)
          holds_entries_length [OF integer_codec_axioms t(4)] len63])
  moreover have "read_table_block D opt read_at (ft_meta_index ft) = ok \<lparr>blk_contents = meta, blk_opt = opt\<rparr>"
    by (rule read_table_block_stored [OF third_party_laws_axioms fl t(5)
          holds_entries_length [OF integer_codec_axioms t(6)] len63])
  moreover have flen: "length (filter_block_bytes D fs) < 2 ^ 29" using len t(7) by simp
  moreover have "Table_read_filter_block D \<lparr>blk_contents = meta, blk_opt = opt\<rparr> read_at opt =
      ok (Some (reader_of D ?P fs))"
    by (rule Table_read_filter_block_eq [OF opt t(6) fl [unfolded t(7)] t(8,9) flen])
  moreover have "Cache_new_cache_id cache = Some (ca_id cache + 1, cache\<lparr>ca_id := ca_id cache + 1\<rparr>)"
    using id by (simp add: Cache_new_cache_id_def)
  ultimately have "Table_new D opt read_at (length file) cache =
      Some (Inr \<lparr>tab_file = read_at, tab_cache_id = ca_id cache + 1, tab_opt = opt, tab_footer = ft,
        tab_index_block = \<lparr>blk_contents = index, blk_opt = opt\<rparr>,
        tab_filters = Some (reader_of D ?P fs)\<rparr>, cache\<lparr>ca_id := ca_id cache + 1\<rparr>)"
    by (simp add: Table_new_def ok_def)
  then show ?thesis
    using t flen fl len by (auto simp: table_parts_def)
qed

lemma Table_new_view:
  assumes opt: "opt_cmp opt = C" and fl: "random_access_file read_at file"
    and table: "table_file D opt file blocks" and len: "length file < 2 ^ 29"
    and id: "unat (ca_id cache) + 1 < 2 ^ 64"
  shows "\<exists>t fs. Table_new D opt read_at (length file) cache =
      Some (Inr t, cache\<lparr>ca_id := ca_id cache + 1\<rparr>) \<and>
    table_view D opt file blocks fs t \<and> tab_cache_id t = ca_id cache + 1"
proof -
  obtain n ft where "table_tail D opt n file blocks ft" "data_blocks D (opt_cmp opt) file blocks"
    using table by (auto simp: table_file_def)
  with Table_new_parts [OF opt fl _ len id] show ?thesis unfolding table_view_parts by blast
qed

end

section \<open>Tables that share a cache\<close>

text \<open>
  Several tables use one cache, each under an identifier of its own. A cached block under the
  key of a data block of one of the tables holds the entries of that data block.
\<close>

type_synonym opened = "Table \<times> data_block list"

definition block_for :: "deps \<Rightarrow> opened \<Rightarrow> CacheKey \<Rightarrow> Block \<Rightarrow> bool" where
  "block_for D tb k v \<longleftrightarrow>
     (\<forall>b \<in> set (snd tb). k = block_cache_handle D (fst tb) (bh_offset (db_handle b)) \<longrightarrow>
        (\<exists>contents. v = \<lparr>blk_contents = contents, blk_opt = tab_opt (fst tb)\<rparr> \<and>
           holds_entries D contents (db_entries b)))"

definition cache_ok :: "deps \<Rightarrow> opened set \<Rightarrow> CacheKey \<Rightarrow> Block \<Rightarrow> bool" where
  "cache_ok D T k v \<longleftrightarrow>
     (\<forall>tb \<in> T. block_for D tb k v) \<and> (\<exists>tb \<in> T. \<exists>off. k = block_cache_handle D (fst tb) off)"

definition tables_ok :: "opened set \<Rightarrow> u64 \<Rightarrow> bool" where
  "tables_ok T i \<longleftrightarrow>
     (\<forall>(t, blocks) \<in> T. tab_cache_id t \<le> i \<and> (\<forall>b \<in> set blocks. handle_ok (db_handle b)) \<and>
        distinct (map (\<lambda>b. bh_offset (db_handle b)) blocks)) \<and>
     inj_on (\<lambda>tb. tab_cache_id (fst tb)) T"

definition cache_inv :: "deps \<Rightarrow> nat \<Rightarrow> u64 \<Rightarrow> opened set \<Rightarrow> block_cache \<Rightarrow> bool" where
  "cache_inv D cap cid T c \<longleftrightarrow> coherent (cache_holds cap cid) (cache_ok D T) c \<and> tables_ok T cid"

lemma cache_inv_id: "cache_inv D cap cid T c \<Longrightarrow> ca_id c = cid"
  by (auto simp: cache_inv_def coherent_def cache_holds_def)

lemma cache_inv_new:
  assumes "0 < cap" "cap < 2 ^ 64"
  shows "\<exists>c. Cache_new cap = Some c \<and> cache_inv D cap 0 {} c"
proof -
  obtain c where c: "Cache_new cap = Some (c :: block_cache)" "cache_is c []" "ca_cap c = cap"
    using Cache_new_is [OF assms(1)] by blast
  have "ca_id c = 0" using c(1) assms(1) by (auto simp: Cache_new_def)
  with c assms show ?thesis
    by (auto simp: cache_inv_def coherent_def cache_holds_def tables_ok_def intro!: exI [of _ "[]"])
qed

context integer_codec
begin

lemma block_cache_handle_eq:
  "block_cache_handle D t off = encode_fixed64 D (tab_cache_id t) @ encode_fixed64 D (usize_as_u64 off)"
  by (simp add: block_cache_handle_def copy_into_def length_encode_fixed64 Let_def)

lemma block_cache_handle_inject:
  assumes "block_cache_handle D t off = block_cache_handle D t' off'"
  shows "tab_cache_id t = tab_cache_id t' \<and> usize_as_u64 off = usize_as_u64 off'"
proof -
  have eqs: "encode_fixed64 D (tab_cache_id t) = encode_fixed64 D (tab_cache_id t')"
    "encode_fixed64 D (usize_as_u64 off) = encode_fixed64 D (usize_as_u64 off')"
    using assms unfolding block_cache_handle_eq
    by (simp_all add: append_eq_append_conv length_encode_fixed64)
  show ?thesis
    using encode_fixed64_inject [OF eqs(1)] encode_fixed64_inject [OF eqs(2)] by (rule conjI)
qed

lemma usize_as_u64_inject:
  assumes "off < 2 ^ 64" "off' < 2 ^ 64" "usize_as_u64 off = usize_as_u64 off'"
  shows "off = off'"
  using arg_cong [OF assms(3), of unat]
  unfolding unat_usize_as_u64 [OF assms(1)] unat_usize_as_u64 [OF assms(2)] .

text \<open>A block that was read for a data block may be cached: no other key is the same.\<close>

lemma cache_ok_insert:
  assumes T: "tables_ok T i" "(t, blocks) \<in> T" and b: "b \<in> set blocks"
    and v: "v = \<lparr>blk_contents = contents, blk_opt = tab_opt t\<rparr>" "holds_entries D contents (db_entries b)"
  shows "cache_ok D T (block_cache_handle D t (bh_offset (db_handle b))) v"
proof -
  let ?k = "block_cache_handle D t (bh_offset (db_handle b))"
  have "block_for D (t', blocks') ?k v" if tb: "(t', blocks') \<in> T" for t' blocks'
    unfolding block_for_def
  proof (intro ballI impI)
    fix b' assume b': "b' \<in> set (snd (t', blocks'))"
      and k: "?k = block_cache_handle D (fst (t', blocks')) (bh_offset (db_handle b'))"
    from block_cache_handle_inject [OF k] have ids: "tab_cache_id t = tab_cache_id t'"
      and offs: "usize_as_u64 (bh_offset (db_handle b)) = usize_as_u64 (bh_offset (db_handle b'))"
      by simp_all
    have "inj_on (\<lambda>tb. tab_cache_id (fst tb)) T" using T(1) by (simp add: tables_ok_def)
    from inj_onD [OF this _ tb T(2)] ids have same: "(t', blocks') = (t, blocks)" by simp
    have "handle_ok (db_handle b)" "handle_ok (db_handle b')"
      "distinct (map (\<lambda>b. bh_offset (db_handle b)) blocks)"
      using T b b' same by (auto simp: tables_ok_def)
    then have "b' = b"
      using usize_as_u64_inject [OF _ _ offs] b b' same by (auto simp: handle_ok_def distinct_map inj_on_def)
    then show "\<exists>contents. v = \<lparr>blk_contents = contents, blk_opt = tab_opt (fst (t', blocks'))\<rparr> \<and>
        holds_entries D contents (db_entries b')"
      using v same by auto
  qed
  then show ?thesis using T(2) by (force simp: cache_ok_def)
qed

text \<open>A newly opened table has no blocks in the cache.\<close>

lemma cache_inv_open:
  assumes inv: "cache_inv D cap cid T c" and id: "unat cid + 1 < 2 ^ 64"
    and t: "tab_cache_id t = cid + 1" "\<forall>b \<in> set blocks. handle_ok (db_handle b)"
      "distinct (map (\<lambda>b. bh_offset (db_handle b)) blocks)"
  shows "cache_inv D cap (cid + 1) (insert (t, blocks) T) (c\<lparr>ca_id := cid + 1\<rparr>)"
proof -
  obtain kvs where kvs: "cache_holds cap cid c kvs" "\<forall>(k, v) \<in> set kvs. cache_ok D T k v" "tables_ok T cid"
    using inv by (auto simp: cache_inv_def coherent_def)
  have below: "tab_cache_id t' < tab_cache_id t" if "(t', blocks') \<in> T" for t' blocks'
  proof -
    have "tab_cache_id t' \<le> cid" using kvs(3) that by (auto simp: tables_ok_def)
    moreover have "unat (cid + 1) = unat cid + 1"
      using id by (simp add: unat_word_ariths)
    ultimately show ?thesis unfolding t(1) word_less_nat_alt word_le_nat_alt by simp
  qed
  have "block_for D (t, blocks) k v" if kv: "(k, v) \<in> set kvs" for k v
  proof -
    obtain t' blocks' off where t': "(t', blocks') \<in> T" "k = block_cache_handle D t' off"
      using kvs(2) kv by (fastforce simp: cache_ok_def)
    then have "k \<noteq> block_cache_handle D t off'" for off'
      using below [OF t'(1)] block_cache_handle_inject [of t' off t off'] by auto
    then show ?thesis by (simp add: block_for_def)
  qed
  then have "\<forall>(k, v) \<in> set kvs. cache_ok D (insert (t, blocks) T) k v"
    using kvs(2) by (fastforce simp: cache_ok_def)
  moreover have "cache_holds cap (cid + 1) (c\<lparr>ca_id := cid + 1\<rparr>) kvs"
    using kvs(1) by (simp add: cache_holds_def cache_is_id)
  moreover have "tables_ok (insert (t, blocks) T) (cid + 1)"
    using kvs(3) t below unfolding tables_ok_def by (fastforce simp: inj_on_def)
  ultimately show ?thesis by (auto simp: cache_inv_def coherent_def)
qed

end

section \<open>Reading a data block through the cache\<close>

context table_reader
begin

lemma Table_read_block_inv:
  assumes view: "table_view D opt file blocks fs t" and T: "(t, blocks) \<in> T"
    and inv: "cache_inv D cap cid T c" and b: "b \<in> set blocks"
  shows "\<exists>contents c'. Table_read_block D t (db_handle b) c =
      Some (Inr \<lparr>blk_contents = contents, blk_opt = opt\<rparr>, c') \<and>
    holds_entries D contents (db_entries b) \<and> cache_inv D cap cid T c'"
proof -
  let ?k = "block_cache_handle D t (bh_offset (db_handle b))"
  have i: "coherent (cache_holds cap cid) (cache_ok D T) c" "tables_ok T cid"
    using inv by (simp_all add: cache_inv_def)
  from lru_cache.get_coherent [OF i(1), of ?k] obtain r c1 where
    c1: "Cache_get c ?k = Some (r, c1)" "coherent (cache_holds cap cid) (cache_ok D T) c1"
      "\<forall>v. r = Some v \<longrightarrow> cache_ok D T ?k v"
      "r = None \<longrightarrow> (\<forall>v. cache_ok D T ?k v \<longrightarrow>
        (\<exists>c2. Cache_insert c1 ?k v = Some c2 \<and> coherent (cache_holds cap cid) (cache_ok D T) c2))"
    by auto
  have t: "tab_opt t = opt" "random_access_file (tab_file t) file" "length file < 2 ^ 63"
    using view by (auto simp: table_view_def)
  show ?thesis
  proof (cases r)
    case (Some v)
    then have "block_for D (t, blocks) ?k v" using c1(3) T by (auto simp: cache_ok_def)
    then obtain contents where "v = \<lparr>blk_contents = contents, blk_opt = opt\<rparr>"
      "holds_entries D contents (db_entries b)"
      using b t(1) by (auto simp: block_for_def)
    then show ?thesis
      using Some c1(1,2) i(2) by (auto simp: Table_read_block_def cache_inv_def)
  next
    case None
    obtain contents where contents: "stored D file (db_handle b) contents"
      "holds_entries D contents (db_entries b)"
      using view b by (auto simp: table_view_def data_blocks_def data_ok_def)
    let ?v = "\<lparr>blk_contents = contents, blk_opt = opt\<rparr>"
    have read: "read_table_block D opt (tab_file t) (db_handle b) = ok ?v"
      by (rule read_table_block_stored [OF third_party_laws_axioms t(2) contents(1)
            holds_entries_length [OF integer_codec_axioms contents(2)] t(3)])
    have "?v = \<lparr>blk_contents = contents, blk_opt = tab_opt t\<rparr>" using t(1) by simp
    from cache_ok_insert [OF i(2) T b this contents(2)] None c1(4) obtain c2 where
      "Cache_insert c1 ?k ?v = Some c2" "coherent (cache_holds cap cid) (cache_ok D T) c2" by blast
    then show ?thesis
      using None c1(1) read t(1) contents(2) i(2)
      by (auto simp: Table_read_block_def ok_def cache_inv_def)
  qed
qed

text \<open>The filter never rejects a key at the offset of its data block, and never panics there.\<close>

lemma filters_may_match:
  assumes P: "nonempty_filter_policy P" and flt: "filters_for P fs (table_records blocks)"
    and len: "length (filter_block_bytes D fs) < 2 ^ 29"
    and b: "b \<in> set blocks" "db_entries b \<noteq> []" and key: "length key < 2 ^ 32"
  shows "\<exists>m. FilterBlockReader_key_may_match D (reader_of D P fs) (bh_offset (db_handle b)) key = Some m \<and>
    (key \<in> db_keys b \<longrightarrow> m)"
proof -
  obtain groups fb where st: "fbb_state P fb fs groups []" "recorded fs groups [] (table_records blocks)"
    using flt by (auto simp: filters_for_def)
  let ?off = "bh_offset (db_handle b)" and ?i = "bh_offset (db_handle b) div 2048"
  have recs: "(?off, k) \<in> set (table_records blocks)" if "k \<in> db_keys b" for k
    using b(1) that by (auto simp: table_records_def)
  then have mem: "?i < length fs \<and> k \<in> set (groups ! ?i)" if "k \<in> db_keys b" for k
    using recorded_all(1) [OF st(2)] recs that by blast
  obtain k0 where "k0 \<in> db_keys b" using b(2) by (cases "db_entries b") auto
  with mem have i: "?i < length fs" "groups ! ?i \<noteq> []" by force+
  then have f: "create_filter P (concat (groups ! ?i)) (offsets_from 0 (groups ! ?i)) = Some (fs ! ?i)"
    using st(1) by (simp add: fbb_state_def)
  have "fs ! ?i \<noteq> []" by (rule nonempty_filter_policy.create_nonempty [OF P f])
  then have lookup: "FilterBlockReader_key_may_match D (reader_of D P fs) ?off key = key_may_match P key (fs ! ?i)"
    using reader_lookup [OF _ i(1) refl, of P key] len by simp
  have "length (fs ! ?i) < 2 ^ 29"
    using st(1) i(1) by (simp add: fbb_state_def)
  with nonempty_filter_policy.match_total [OF P f _ key]
    filter_policy.no_false_negative [OF nonempty_filter_policy.axioms(1) [OF P] f] mem lookup
  show ?thesis by force
qed

end

interpretation ref_reader: table_reader reference_deps DefaultCmp
  by unfold_locales

end
