(* ===== verification/SST_TableGet.thy ===== *)
theory SST_TableGet
  imports SST_TableRead
begin

text \<open>
  Point lookups: which block the index selects for a key, and what \<open>get\<close> and
  \<open>approx_offset_of\<close> return on a table whose file has the table format.
\<close>

section \<open>The block that the index selects\<close>

text \<open>The first block whose separator is not below the key.\<close>

definition block_of :: "Cmp \<Rightarrow> bytes \<Rightarrow> data_block list \<Rightarrow> data_block option" where
  "block_of C key blocks = find (\<lambda>b. cmp C (db_sep b) key \<noteq> Less) blocks"

lemma find_map: "find P (map f xs) = map_option f (find (P \<circ> f) xs)"
  by (induction xs) auto

lemma find_append: "find P (xs @ ys) = (case find P xs of None \<Rightarrow> find P ys | Some x \<Rightarrow> Some x)"
  by (induction xs) auto

lemma find_index_entries:
  "find (\<lambda>e. cmp C (fst e) key \<noteq> Less) (index_entries D blocks) =
   map_option (\<lambda>b. (db_sep b, handle_bytes D (db_handle b))) (block_of C key blocks)"
  by (simp add: index_entries_def find_map block_of_def comp_def)

lemma block_of_mem: "block_of C key blocks = Some b \<Longrightarrow> b \<in> set blocks \<and> cmp C (db_sep b) key \<noteq> Less"
  by (auto simp: block_of_def find_Some_iff)

lemma all_entries_Cons [simp]: "all_entries (b # bs) = db_entries b @ all_entries bs"
  by (simp add: all_entries_def)

lemma all_entries_set: "set (all_entries blocks) = (\<Union>b \<in> set blocks. set (db_entries b))"
  by (simp add: all_entries_def)

context comparator
begin

lemma separated_Cons:
  "separated C (b # bs) \<longleftrightarrow>
   separated C bs \<and> (\<forall>k \<in> db_keys b. cmp C k (db_sep b) = Less) \<and>
   (\<forall>b' \<in> set bs. \<forall>k \<in> db_keys b'. sep_before C b k)"
  by (auto simp: separated_def)

text \<open>Keys of blocks whose separator is below the key are below the key.\<close>

lemma lookup_below:
  assumes "\<forall>k \<in> fst ` set kvs. cmp C k s = Less" "cmp C s key \<noteq> Greater"
  shows "lookup C key kvs = None"
  unfolding lookup_None_iff
proof
  fix k assume "k \<in> fst ` set kvs"
  then have "cmp C k key = Less" using assms cmp_less_le_trans by blast
  then show "cmp C k key \<noteq> Equal" by simp
qed

lemma lookup_above:
  assumes "\<forall>k \<in> fst ` set kvs. cmp C s k \<noteq> Greater" "cmp C s key = Greater"
  shows "lookup C key kvs = None"
  unfolding lookup_None_iff
proof
  fix k assume "k \<in> fst ` set kvs"
  then have "cmp C s k \<noteq> Greater" using assms(1) by blast
  moreover have "cmp C key s = Less" using assms(2) cmp_swap by blast
  ultimately have "cmp C key k = Less" using cmp_less_le_trans by blast
  then have "cmp C k key = Greater" using cmp_swap by blast
  then show "cmp C k key \<noteq> Equal" by simp
qed

text \<open>Unless the key is itself a separator, only the selected block can hold it.\<close>

lemma lookup_block_of:
  "separated C blocks \<Longrightarrow>
   (\<And>b. block_of C key blocks = Some b \<Longrightarrow> cmp C (db_sep b) key \<noteq> Equal) \<Longrightarrow>
   lookup C key (all_entries blocks) =
     (case block_of C key blocks of None \<Rightarrow> None | Some b \<Rightarrow> lookup C key (db_entries b))"
proof (induction blocks)
  case Nil
  then show ?case by (simp add: block_of_def lookup_def)
next
  case (Cons b bs)
  have sep: "separated C bs" "\<forall>k \<in> db_keys b. cmp C k (db_sep b) = Less"
    "\<forall>b' \<in> set bs. \<forall>k \<in> db_keys b'. sep_before C b k"
    using Cons.prems(1) by (auto simp: separated_Cons)
  show ?case
  proof (cases "cmp C (db_sep b) key = Less")
    case True
    then have b: "block_of C key (b # bs) = block_of C key bs" by (simp add: block_of_def)
    have "lookup C key (db_entries b) = None"
      by (rule lookup_below [OF sep(2)]) (simp add: True)
    with Cons.IH [OF sep(1)] Cons.prems(2) b show ?thesis by (simp add: lookup_append)
  next
    case False
    then have b: "block_of C key (b # bs) = Some b" by (simp add: block_of_def)
    with Cons.prems(2) False have gt: "cmp C (db_sep b) key = Greater" by (cases "cmp C (db_sep b) key") auto
    have "\<forall>k \<in> fst ` set (all_entries bs). cmp C (db_sep b) k \<noteq> Greater"
      using sep(3) sep_before_upto by (auto simp: all_entries_set)
    then have "lookup C key (all_entries bs) = None" by (rule lookup_above) (rule gt)
    then show ?thesis using b by (simp add: lookup_append split: option.splits)
  qed
qed

end

section \<open>Lookups in a table\<close>

lemma ascending_all_entries:
  assumes "ascending C (map fst (all_entries blocks))" "b \<in> set blocks"
  shows "ascending C (map fst (db_entries b))"
proof -
  obtain bs cs where "blocks = bs @ b # cs" using assms(2) by (auto simp: in_set_conv_decomp)
  then show ?thesis
    using assms(1) by (simp add: all_entries_def ascending_def sorted_wrt_append)
qed

context table_reader
begin

lemma index_iter:
  assumes view: "table_view D opt file blocks fs t" and opt: "opt_cmp opt = C"
  shows "\<exists>it. Block_iter D (tab_index_block t) = Some it \<and> block_at D C (index_entries D blocks) None it"
proof -
  obtain index where index: "tab_index_block t = \<lparr>blk_contents = index, blk_opt = opt\<rparr>"
    "holds_entries D index (index_entries D blocks)"
    using view by (auto simp: table_view_def)
  have blocks: "separated C blocks" "\<forall>b \<in> set blocks. db_entries b \<noteq> []" "[] \<notin> db_sep ` set blocks"
    using view opt by (auto simp: table_view_def data_blocks_def data_ok_def)
  have fsts: "map fst (index_entries D blocks) = map db_sep blocks"
    by (simp add: index_entries_def comp_def)
  then have keys: "[] \<notin> fst ` set (index_entries D blocks)"
    using blocks(3) by (metis list.set_map)
  have "ascending C (map fst (index_entries D blocks))"
    unfolding fsts by (rule separated_ascending [OF comparator_axioms blocks(1,2)])
  from Block_iter_holds [OF ordered opt index(2) keys this] show ?thesis by (simp add: index(1))
qed

lemma view_blocks:
  assumes "table_view D opt file blocks fs t" "opt_cmp opt = C"
  shows "tab_opt t = opt" "separated C blocks" "ascending C (map fst (all_entries blocks))"
    "[] \<notin> fst ` set (all_entries blocks)"
    "\<And>b. b \<in> set blocks \<Longrightarrow> db_entries b \<noteq> []" "\<And>b. b \<in> set blocks \<Longrightarrow> handle_ok (db_handle b)"
    "filters_for (opt_filter_policy opt) fs (table_records blocks)"
    "length (filter_block_bytes D fs) < 2 ^ 29"
    "tab_filters t = Some (reader_of D (opt_filter_policy opt) fs)"
  using assms by (auto simp: table_view_def data_blocks_def data_ok_def)

lemma index_seek:
  assumes view: "table_view D opt file blocks fs t" and opt: "opt_cmp opt = C"
  shows "\<exists>it it'. Block_iter D (tab_index_block t) = Some it \<and> BlockIter_seek D it key = Some it' \<and>
    current_key_val BlockIter_current it' =
      Some (map_option (\<lambda>b. (db_sep b, handle_bytes D (db_handle b))) (block_of C key blocks))"
  using index_iter [OF view opt] block_iter.seek_current [of D C "index_entries D blocks" None _ key]
  by (auto simp: find_index_entries)

lemma Table_approx_offset_of_eq:
  assumes view: "table_view D opt file blocks fs t" and opt: "opt_cmp opt = C"
  shows "Table_approx_offset_of D t key =
    Some (case block_of C key blocks of
       Some b \<Rightarrow> bh_offset (db_handle b)
     | None \<Rightarrow> bh_offset (ft_meta_index (tab_footer t)))"
proof (cases "block_of C key blocks")
  case None
  with index_seek [OF view opt, of key] show ?thesis by (auto simp: Table_approx_offset_of_def)
next
  case (Some b)
  then have "handle_ok (db_handle b)"
    using view_blocks(6) [OF view opt] block_of_mem by blast
  then have "BlockHandle_decode D (handle_bytes D (db_handle b) @ []) =
      Some (db_handle b, length (handle_bytes D (db_handle b)))"
    by (rule decode_handle_bytes)
  with Some index_seek [OF view opt, of key] show ?thesis
    by (auto simp: Table_approx_offset_of_def)
qed

lemma Table_get_handle_eq:
  assumes view: "table_view D opt file blocks fs t" and opt: "opt_cmp opt = C"
  shows "Table_get_handle D t key =
    Some (case block_of C key blocks of
       Some b \<Rightarrow> if cmp C (db_sep b) key = Greater then Some (db_handle b) else None
     | None \<Rightarrow> None)"
proof (cases "block_of C key blocks")
  case None
  with index_seek [OF view opt, of key] show ?thesis by (auto simp: Table_get_handle_def)
next
  case (Some b)
  then have "handle_ok (db_handle b)"
    using view_blocks(6) [OF view opt] block_of_mem by blast
  then have "BlockHandle_decode D (handle_bytes D (db_handle b) @ []) =
      Some (db_handle b, length (handle_bytes D (db_handle b)))"
    by (rule decode_handle_bytes)
  moreover have "cmp C key (db_sep b) = Less \<longleftrightarrow> cmp C (db_sep b) key = Greater"
    by (rule cmp_swap)
  ultimately show ?thesis
    using Some index_seek [OF view opt, of key] view_blocks(1) [OF view opt] opt
    by (auto simp: Table_get_handle_def)
qed

end

text \<open>
  \<open>get\<close> never panics or fails on such a table. It returns the value stored for the key, unless
  the key is itself a separator of the index: then it returns nothing.
\<close>

definition get_result :: "Cmp \<Rightarrow> bytes \<Rightarrow> data_block list \<Rightarrow> bytes option" where
  "get_result C key blocks =
     (if \<exists>b \<in> set blocks. cmp C (db_sep b) key = Equal then None else lookup C key (all_entries blocks))"

context comparator
begin

lemma get_result_block_of:
  assumes "separated C blocks" "\<forall>b \<in> set blocks. db_entries b \<noteq> []"
  shows "get_result C key blocks =
    (case block_of C key blocks of
       None \<Rightarrow> None
     | Some b \<Rightarrow> if cmp C (db_sep b) key = Greater then lookup C key (db_entries b) else None)"
proof (cases "\<exists>b \<in> set blocks. cmp C (db_sep b) key = Equal")
  case True
  have asc: "sorted_wrt (\<lambda>b b'. cmp C (db_sep b) (db_sep b') = Less) blocks"
    using separated_ascending [OF comparator_axioms assms] by (simp add: ascending_def sorted_wrt_map)
  obtain b bs cs where b: "blocks = bs @ b # cs" "cmp C (db_sep b) key = Equal"
    using True by (auto simp: in_set_conv_decomp)
  have "cmp C (db_sep b') key = Less" if "b' \<in> set bs" for b'
  proof (rule cmp_less_le_trans)
    show "cmp C (db_sep b') (db_sep b) = Less" using asc that b(1) by (simp add: sorted_wrt_append)
    show "cmp C (db_sep b) key \<noteq> Greater" using b(2) by simp
  qed
  then have "block_of C key blocks = Some b"
    using b find_None_iff [of "\<lambda>b. cmp C (db_sep b) key \<noteq> Less" bs]
    by (simp add: block_of_def find_append)
  then show ?thesis using True b(2) by (simp add: get_result_def)
next
  case False
  then have "block_of C key blocks = Some b \<Longrightarrow> cmp C (db_sep b) key = Greater" for b
    using block_of_mem by (cases "cmp C (db_sep b) key") auto
  with lookup_block_of [OF assms(1), of key] False show ?thesis
    by (auto simp: get_result_def split: option.splits)
qed

end

context table_reader
begin

lemma block_lookup:
  assumes opt: "opt_cmp opt = C" and holds: "holds_entries D contents kvs"
    and keys: "[] \<notin> fst ` set kvs" and asc: "ascending C (map fst kvs)"
  shows "\<exists>it it'. Block_iter D \<lparr>blk_contents = contents, blk_opt = opt\<rparr> = Some it \<and>
    BlockIter_seek D it key = Some it' \<and>
    current_key_val BlockIter_current it' = Some (lower_bound C key kvs)"
  using Block_iter_holds [OF ordered opt holds keys asc] block_iter.seek_current [of D C kvs None _ key]
  by (auto simp: lower_bound_def)

lemma Table_get_inv:
  assumes view: "table_view D opt file blocks fs t" and opt: "opt_cmp opt = C"
    and P: "nonempty_filter_policy (opt_filter_policy opt)"
    and exact: "\<forall>k. cmp C k key = Equal \<longrightarrow> k = key" and key: "length key < 2 ^ 32"
    and T: "(t, blocks) \<in> T" and inv: "cache_inv D cap cid T c"
  shows "\<exists>c'. Table_get D t key c = Some (Inr (get_result C key blocks), c') \<and> cache_inv D cap cid T c'"
proof -
  note v = view_blocks [OF view opt]
  note handle = Table_get_handle_eq [OF view opt, of key]
  have result: "get_result C key blocks = (case block_of C key blocks of None \<Rightarrow> None
      | Some b \<Rightarrow> if cmp C (db_sep b) key = Greater then lookup C key (db_entries b) else None)"
    using get_result_block_of [OF v(2)] v(5) by blast
  show ?thesis
  proof (cases "\<exists>b. block_of C key blocks = Some b \<and> cmp C (db_sep b) key = Greater")
    case False
    with handle result inv show ?thesis by (auto simp: Table_get_def split: option.splits)
  next
    case True
    then obtain b where b: "block_of C key blocks = Some b" "cmp C (db_sep b) key = Greater" by blast
    then have mem: "b \<in> set blocks" using block_of_mem by blast
    note handle = handle [unfolded b(1) option.case b(2) simp_thms if_True]
    note result = result [unfolded b(1) option.case b(2) simp_thms if_True]
    obtain m where m: "FilterBlockReader_key_may_match D (reader_of D (opt_filter_policy opt) fs)
        (bh_offset (db_handle b)) key = Some m" "key \<in> db_keys b \<longrightarrow> m"
      using filters_may_match [OF P v(7,8) mem v(5) [OF mem] key] by blast
    show ?thesis
    proof (cases m)
      case False
      with m(2) exact have "lookup C key (db_entries b) = None" by (auto simp: lookup_None_iff)
      with handle result m(1) False v(9) inv show ?thesis by (simp add: Table_get_def)
    next
      case may: True
      obtain contents c' where c': "Table_read_block D t (db_handle b) c =
          Some (Inr \<lparr>blk_contents = contents, blk_opt = opt\<rparr>, c')"
        "holds_entries D contents (db_entries b)" "cache_inv D cap cid T c'"
        using Table_read_block_inv [OF view T inv mem] by blast
      have asc: "ascending C (map fst (db_entries b))" by (rule ascending_all_entries [OF v(3) mem])
      have "[] \<notin> db_keys b" using v(4) mem by (auto simp: all_entries_set)
      from block_lookup [OF opt c'(2) this asc, of key] obtain it it' where
        it: "Block_iter D \<lparr>blk_contents = contents, blk_opt = opt\<rparr> = Some it"
        "BlockIter_seek D it key = Some it'"
        "current_key_val BlockIter_current it' = Some (lower_bound C key (db_entries b))" by blast
      have "Table_get D t key c = Some (Inr (lookup C key (db_entries b)), c')"
        using handle m(1) may v(1,9) c'(1) it opt
        by (simp add: Table_get_def lookup_lower_bound [OF asc] split: option.split)
      with result c'(3) show ?thesis by simp
    qed
  qed
qed

end

end
