(* ===== verification/SST_TableIter.thy ===== *)
theory SST_TableIter
  imports SST_TableGet
begin

text \<open>
  The two-level iterator on a table whose file has the table format. Moving forward it meets the
  contract of the iterator trait over all entries of the table; \<open>prev\<close> and \<open>seek\<close> meet it only
  inside the bounds that the lemmas below state.
\<close>

section \<open>Positions\<close>

definition reading ::
  "deps \<Rightarrow> Cmp \<Rightarrow> nat \<Rightarrow> u64 \<Rightarrow> opened set \<Rightarrow> data_block list \<Rightarrow> Table \<Rightarrow> block_cache \<Rightarrow> bool" where
  "reading D C cap cid T blocks t c \<longleftrightarrow>
     table_reader D C \<and> (\<exists>opt file fs. opt_cmp opt = C \<and> table_view D opt file blocks fs t) \<and>
     (t, blocks) \<in> T \<and> cache_inv D cap cid T c"

text \<open>The iterator has loaded block \<open>i\<close> and stands at \<open>q\<close> in it.\<close>

definition in_block ::
  "deps \<Rightarrow> Cmp \<Rightarrow> data_block list \<Rightarrow> nat \<Rightarrow> nat option \<Rightarrow> TableIterator \<Rightarrow> bool" where
  "in_block D C blocks i q self \<longleftrightarrow>
     i < length blocks \<and> block_at D C (index_entries D blocks) (Some i) (ti_index_block self) \<and>
     ti_current_block_off self = bh_offset (db_handle (blocks ! i)) \<and>
     (\<exists>cb. ti_current_block self = Some cb \<and> block_at D C (db_entries (blocks ! i)) q cb)"

definition before_blocks :: "deps \<Rightarrow> Cmp \<Rightarrow> data_block list \<Rightarrow> TableIterator \<Rightarrow> bool" where
  "before_blocks D C blocks self \<longleftrightarrow>
     ti_current_block self = None \<and> block_at D C (index_entries D blocks) None (ti_index_block self)"

text \<open>The position of entry \<open>j\<close> of block \<open>i\<close> among all entries.\<close>

definition flat :: "data_block list \<Rightarrow> nat \<Rightarrow> nat \<Rightarrow> nat" where
  "flat blocks i j = length (all_entries (take i blocks)) + j"

definition table_at ::
  "deps \<Rightarrow> Cmp \<Rightarrow> nat \<Rightarrow> u64 \<Rightarrow> opened set \<Rightarrow> data_block list \<Rightarrow>
   (bytes \<times> bytes) list \<Rightarrow> nat option \<Rightarrow> table_iter \<Rightarrow> bool" where
  "table_at D C cap cid T blocks es p it \<longleftrightarrow>
     es = all_entries blocks \<and> reading D C cap cid T blocks (ti_table (fst it)) (snd it) \<and>
     (case p of
        None \<Rightarrow> before_blocks D C blocks (fst it)
      | Some n \<Rightarrow> \<exists>i j. n = flat blocks i j \<and> in_block D C blocks i (Some j) (fst it))"

lemma flat_Suc: "i < length blocks \<Longrightarrow> flat blocks (Suc i) j = flat blocks i (length (db_entries (blocks ! i)) + j)"
  by (simp add: flat_def take_Suc_conv_app_nth)

lemma flat_split:
  assumes "i < length blocks"
  shows "all_entries blocks =
    all_entries (take i blocks) @ db_entries (blocks ! i) @ all_entries (drop (Suc i) blocks)"
proof -
  have "all_entries blocks = all_entries (take i blocks @ blocks ! i # drop (Suc i) blocks)"
    using id_take_nth_drop [OF assms] by simp
  then show ?thesis by (simp add: all_entries_def)
qed

lemma flat_nth:
  assumes "i < length blocks" "j < length (db_entries (blocks ! i))"
  shows "flat blocks i j < length (all_entries blocks)"
    "all_entries blocks ! flat blocks i j = db_entries (blocks ! i) ! j"
  using assms by (simp_all add: flat_split [of i blocks] flat_def nth_append)

lemma flat_end:
  assumes "length blocks \<le> Suc i" "i < length blocks" "length (db_entries (blocks ! i)) \<le> j"
  shows "length (all_entries blocks) \<le> flat blocks i j"
  using assms by (simp add: flat_split [of i blocks] flat_def)

section \<open>Loading blocks\<close>

lemma reading_blocks:
  assumes "reading D C cap cid T blocks t c"
  shows "\<And>b. b \<in> set blocks \<Longrightarrow> db_entries b \<noteq> []"
    "ascending C (map fst (all_entries blocks))" "[] \<notin> fst ` set (all_entries blocks)"
    "separated C blocks" "opt_cmp (tab_opt t) = C" "comparator C"
proof -
  obtain opt f fs where view: "table_view D opt f blocks fs t" "opt_cmp opt = C"
    and tr: "table_reader D C" using assms by (auto simp: reading_def)
  note v = table_reader.view_blocks [OF tr view]
  show "\<And>b. b \<in> set blocks \<Longrightarrow> db_entries b \<noteq> []"
    "ascending C (map fst (all_entries blocks))" "[] \<notin> fst ` set (all_entries blocks)"
    "separated C blocks" "opt_cmp (tab_opt t) = C" "comparator C"
    using v(1-5) view(2) tr by (auto simp: table_reader_def)
qed

text \<open>What the read of a block does to the cache.\<close>

definition read_step :: "deps \<Rightarrow> Table \<Rightarrow> data_block \<Rightarrow> block_cache \<Rightarrow> block_cache \<Rightarrow> bool" where
  "read_step D t b c c' \<longleftrightarrow> (\<exists>block. Table_read_block D t (db_handle b) c = Some (Inr block, c'))"

lemma load_block_at:
  assumes rd: "reading D C cap cid T blocks (ti_table self) c" and b: "b \<in> set blocks"
  shows "\<exists>cb c'. load_block D (self, c) (handle_bytes D (db_handle b)) =
      Some (Inr (), self\<lparr>ti_current_block := Some cb,
        ti_current_block_off := bh_offset (db_handle b)\<rparr>, c') \<and>
    block_at D C (db_entries b) None cb \<and> reading D C cap cid T blocks (ti_table self) c' \<and>
    read_step D (ti_table self) b c c'"
proof -
  obtain opt f fs where view: "table_view D opt f blocks fs (ti_table self)" "opt_cmp opt = C"
    and tr: "table_reader D C" and T: "(ti_table self, blocks) \<in> T" and inv: "cache_inv D cap cid T c"
    using rd by (auto simp: reading_def)
  note v = table_reader.view_blocks [OF tr view]
  obtain contents c' where c': "Table_read_block D (ti_table self) (db_handle b) c =
      Some (Inr \<lparr>blk_contents = contents, blk_opt = opt\<rparr>, c')"
    "holds_entries D contents (db_entries b)" "cache_inv D cap cid T c'"
    using table_reader.Table_read_block_inv [OF tr view(1) T inv b] by blast
  have "ascending C (map fst (db_entries b))" by (rule ascending_all_entries [OF v(3) b])
  moreover have "[] \<notin> db_keys b" using v(4) b by (auto simp: all_entries_set)
  ultimately obtain cb where cb: "Block_iter D \<lparr>blk_contents = contents, blk_opt = opt\<rparr> = Some cb"
    "block_at D C (db_entries b) None cb"
    using Block_iter_holds [OF table_reader.ordered [OF tr] view(2) c'(2)] by blast
  have "integer_codec D" using tr by (simp add: table_reader_def third_party_laws_def)
  then have "BlockHandle_decode D (handle_bytes D (db_handle b) @ []) =
      Some (db_handle b, length (handle_bytes D (db_handle b)))"
    by (rule integer_codec.decode_handle_bytes) (rule v(6) [OF b])
  with c' cb view T tr show ?thesis by (auto simp: reading_def read_step_def)
qed

lemma index_next:
  assumes "block_at D C (index_entries D blocks) p ix"
  shows "next_pos p < length blocks \<Longrightarrow>
      \<exists>ix'. BlockIter_next D ix = Some (Some (index_entries D blocks ! next_pos p), ix') \<and>
        block_at D C (index_entries D blocks) (Some (next_pos p)) ix'"
    and "length blocks \<le> next_pos p \<Longrightarrow>
      \<exists>ix'. BlockIter_next D ix = Some (None, ix') \<and> block_at D C (index_entries D blocks) None ix'"
  using block_iter.next_inside [OF assms] block_iter.next_end [OF assms]
  by (simp_all add: BlockIter_next_def index_entries_def)

lemma skip_inside:
  assumes rd: "reading D C cap cid T blocks (ti_table self) c"
    and ix: "block_at D C (index_entries D blocks) p (ti_index_block self)"
    and i: "next_pos p < length blocks"
  shows "\<exists>self' c'. skip_to_next_entry D (self, c) = Some (Inr True, self', c') \<and>
    in_block D C blocks (next_pos p) None self' \<and> reading D C cap cid T blocks (ti_table self') c' \<and>
    ti_table self' = ti_table self \<and> read_step D (ti_table self) (blocks ! next_pos p) c c'"
proof -
  let ?b = "blocks ! next_pos p"
  obtain ix' where ix': "BlockIter_next D (ti_index_block self) =
      Some (Some (index_entries D blocks ! next_pos p), ix')"
    "block_at D C (index_entries D blocks) (Some (next_pos p)) ix'"
    using index_next(1) [OF ix i] by blast
  have entry: "index_entries D blocks ! next_pos p = (db_sep ?b, handle_bytes D (db_handle ?b))"
    using i by (simp add: index_entries_def)
  let ?self = "self\<lparr>ti_index_block := ix'\<rparr>"
  have "reading D C cap cid T blocks (ti_table ?self) c" "?b \<in> set blocks" using rd i by simp_all
  from load_block_at [OF this] obtain cb c' where
    "load_block D (?self, c) (handle_bytes D (db_handle ?b)) =
      Some (Inr (), ?self\<lparr>ti_current_block := Some cb,
        ti_current_block_off := bh_offset (db_handle ?b)\<rparr>, c')"
    "block_at D C (db_entries ?b) None cb" "reading D C cap cid T blocks (ti_table ?self) c'"
    "read_step D (ti_table ?self) ?b c c'" by blast
  with ix' entry i show ?thesis
    by (simp add: in_block_def del: load_block.simps)
qed

lemma skip_end:
  assumes ix: "block_at D C (index_entries D blocks) p (ti_index_block self)"
    and i: "length blocks \<le> next_pos p"
  shows "\<exists>ix'. skip_to_next_entry D (self, c) = Some (Inr False, self\<lparr>ti_index_block := ix'\<rparr>, c) \<and>
    block_at D C (index_entries D blocks) None ix'"
  using index_next(2) [OF ix i] by auto

section \<open>Moving forward\<close>

lemma advance_current_at:
  assumes "in_block D C blocks i q self"
  shows "\<exists>b self'. advance_current D (self, c) = Some (b, self', c) \<and>
    ti_table self' = ti_table self \<and>
    (b \<longleftrightarrow> next_pos q < length (db_entries (blocks ! i))) \<and>
    (if b then in_block D C blocks i (Some (next_pos q)) self' else in_block D C blocks i None self')"
proof -
  obtain cb where cb: "ti_current_block self = Some cb" "block_at D C (db_entries (blocks ! i)) q cb"
    using assms by (auto simp: in_block_def)
  from block_at_advance [OF cb(2)] obtain cb' where
    "BlockIter_advance D cb = Some (next_pos q < length (db_entries (blocks ! i)), cb')"
    "block_at D C (db_entries (blocks ! i))
       (if next_pos q < length (db_entries (blocks ! i)) then Some (next_pos q) else None) cb'" by blast
  with cb assms show ?thesis by (auto simp: in_block_def)
qed

lemma advance_in_block:
  assumes "in_block D C blocks i q self" "next_pos q < length (db_entries (blocks ! i))"
  shows "\<exists>self'. TableIterator_advance D (self, c) = Some (True, self', c) \<and>
    ti_table self' = ti_table self \<and> in_block D C blocks i (Some (next_pos q)) self'"
proof -
  from advance_current_at [OF assms(1), of c] assms(2) obtain self' where
    "advance_current D (self, c) = Some (True, self', c)" "ti_table self' = ti_table self"
    "in_block D C blocks i (Some (next_pos q)) self'" by auto
  moreover obtain cb where "ti_current_block self = Some cb" using assms(1) by (auto simp: in_block_def)
  ultimately show ?thesis
    by (subst TableIterator_advance.simps) (simp del: advance_current.simps)
qed

text \<open>After the blocks before \<open>i\<close>, the iterator goes on with the first entry of block \<open>i\<close>, if any.\<close>

lemma advance_skip:
  assumes rd: "reading D C cap cid T blocks (ti_table self) c"
    and ix: "block_at D C (index_entries D blocks) p (ti_index_block self)"
  shows "next_pos p < length blocks \<Longrightarrow>
      \<exists>self1 c1 self' c'. skip_to_next_entry D (self, c) = Some (Inr True, self1, c1) \<and>
        TableIterator_advance D (self1, c1) = Some (True, self', c') \<and>
        reading D C cap cid T blocks (ti_table self') c' \<and> in_block D C blocks (next_pos p) (Some 0) self' \<and>
        ti_table self' = ti_table self \<and> read_step D (ti_table self) (blocks ! next_pos p) c c'"
    and "length blocks \<le> next_pos p \<Longrightarrow>
      \<exists>self1. skip_to_next_entry D (self, c) = Some (Inr False, self1, c) \<and>
        ti_table self1 = ti_table self \<and>
        block_at D C (index_entries D blocks) None (ti_index_block self1)"
proof -
  assume i: "next_pos p < length blocks"
  from skip_inside [OF rd ix i] obtain self1 c1 where
    1: "skip_to_next_entry D (self, c) = Some (Inr True, self1, c1)"
      "in_block D C blocks (next_pos p) None self1" "reading D C cap cid T blocks (ti_table self1) c1"
      "ti_table self1 = ti_table self" "read_step D (ti_table self) (blocks ! next_pos p) c c1" by blast
  have "db_entries (blocks ! next_pos p) \<noteq> []" using reading_blocks(1) [OF rd] i by simp
  then have "next_pos None < length (db_entries (blocks ! next_pos p))" by simp
  from advance_in_block [OF 1(2) this, of c1] 1 show "\<exists>self1 c1 self' c'.
      skip_to_next_entry D (self, c) = Some (Inr True, self1, c1) \<and>
      TableIterator_advance D (self1, c1) = Some (True, self', c') \<and>
      reading D C cap cid T blocks (ti_table self') c' \<and> in_block D C blocks (next_pos p) (Some 0) self' \<and>
      ti_table self' = ti_table self \<and> read_step D (ti_table self) (blocks ! next_pos p) c c'"
    by (fastforce simp del: skip_to_next_entry.simps)
next
  assume "length blocks \<le> next_pos p"
  from skip_end [OF ix this, of c] show "\<exists>self1. skip_to_next_entry D (self, c) = Some (Inr False, self1, c) \<and>
      ti_table self1 = ti_table self \<and> block_at D C (index_entries D blocks) None (ti_index_block self1)"
    by fastforce
qed

lemma reset_before:
  assumes "block_at D C (index_entries D blocks) p (ti_index_block self)"
  shows "before_blocks D C blocks (fst (TableIterator_reset (self, c)))"
  using block_at_reset [OF assms] by (simp add: before_blocks_def)

lemma advance_from_start:
  assumes rd: "reading D C cap cid T blocks (ti_table self) c" and before: "before_blocks D C blocks self"
  shows "blocks \<noteq> [] \<Longrightarrow> \<exists>self' c'. TableIterator_advance D (self, c) = Some (True, self', c') \<and>
      reading D C cap cid T blocks (ti_table self') c' \<and> in_block D C blocks 0 (Some 0) self' \<and>
      ti_table self' = ti_table self \<and> read_step D (ti_table self) (blocks ! 0) c c'"
    and "blocks = [] \<Longrightarrow> \<exists>self'. TableIterator_advance D (self, c) = Some (False, self', c) \<and>
      reading D C cap cid T blocks (ti_table self') c \<and> before_blocks D C blocks self'"
proof -
  have cur: "ti_current_block self = None"
    and ix: "block_at D C (index_entries D blocks) None (ti_index_block self)"
    using before by (simp_all add: before_blocks_def)
  {
    assume "blocks \<noteq> []"
    then have "next_pos None < length blocks" by simp
    from advance_skip(1) [OF rd ix this] obtain self1 c1 self' c' where
      "skip_to_next_entry D (self, c) = Some (Inr True, self1, c1)"
      "TableIterator_advance D (self1, c1) = Some (True, self', c')"
      "reading D C cap cid T blocks (ti_table self') c'" "in_block D C blocks 0 (Some 0) self'"
      "ti_table self' = ti_table self" "read_step D (ti_table self) (blocks ! 0) c c'" by auto
    then show "\<exists>self' c'. TableIterator_advance D (self, c) = Some (True, self', c') \<and>
        reading D C cap cid T blocks (ti_table self') c' \<and> in_block D C blocks 0 (Some 0) self' \<and>
      ti_table self' = ti_table self \<and> read_step D (ti_table self) (blocks ! 0) c c'"
      using cur by (subst TableIterator_advance.simps) (simp del: skip_to_next_entry.simps)
  next
    assume "blocks = []"
    then have "length blocks \<le> next_pos None" by simp
    from advance_skip(2) [OF rd ix this] obtain self1 where
      "skip_to_next_entry D (self, c) = Some (Inr False, self1, c)" "ti_table self1 = ti_table self"
      "block_at D C (index_entries D blocks) None (ti_index_block self1)" by blast
    then show "\<exists>self'. TableIterator_advance D (self, c) = Some (False, self', c) \<and>
        reading D C cap cid T blocks (ti_table self') c \<and> before_blocks D C blocks self'"
      using cur rd reset_before
      by (subst TableIterator_advance.simps) (simp add: before_blocks_def del: skip_to_next_entry.simps)
  }
qed

lemma advance_over:
  assumes rd: "reading D C cap cid T blocks (ti_table self) c" and at: "in_block D C blocks i q self"
    and over: "length (db_entries (blocks ! i)) \<le> next_pos q"
  shows "Suc i < length blocks \<Longrightarrow> \<exists>self' c'. TableIterator_advance D (self, c) = Some (True, self', c') \<and>
      reading D C cap cid T blocks (ti_table self') c' \<and> in_block D C blocks (Suc i) (Some 0) self' \<and>
      ti_table self' = ti_table self \<and> read_step D (ti_table self) (blocks ! Suc i) c c'"
    and "length blocks \<le> Suc i \<Longrightarrow> \<exists>self'. TableIterator_advance D (self, c) = Some (False, self', c) \<and>
      reading D C cap cid T blocks (ti_table self') c \<and> before_blocks D C blocks self'"
proof -
  obtain cb where cur: "ti_current_block self = Some cb" using at by (auto simp: in_block_def)
  obtain self1 where 1: "advance_current D (self, c) = Some (False, self1, c)"
    "ti_table self1 = ti_table self" "in_block D C blocks i None self1"
    using advance_current_at [OF at, of c] over by auto
  let ?self = "self1\<lparr>ti_current_block := None\<rparr>"
  have rd1: "reading D C cap cid T blocks (ti_table ?self) c" using rd 1(2) by simp
  have ix: "block_at D C (index_entries D blocks) (Some i) (ti_index_block ?self)"
    using 1(3) by (simp add: in_block_def)
  {
    assume "Suc i < length blocks"
    then have "next_pos (Some i) < length blocks" by simp
    from advance_skip(1) [OF rd1 ix this] obtain self2 c2 self' c' where
      "skip_to_next_entry D (?self, c) = Some (Inr True, self2, c2)"
      "TableIterator_advance D (self2, c2) = Some (True, self', c')"
      "reading D C cap cid T blocks (ti_table self') c'" "in_block D C blocks (Suc i) (Some 0) self'"
      "ti_table self' = ti_table self" "read_step D (ti_table self) (blocks ! Suc i) c c'" using 1(2) by auto
    then show "\<exists>self' c'. TableIterator_advance D (self, c) = Some (True, self', c') \<and>
        reading D C cap cid T blocks (ti_table self') c' \<and> in_block D C blocks (Suc i) (Some 0) self' \<and>
      ti_table self' = ti_table self \<and> read_step D (ti_table self) (blocks ! Suc i) c c'"
      using cur 1(1)
      by (subst TableIterator_advance.simps) (simp del: skip_to_next_entry.simps advance_current.simps)
  next
    assume "length blocks \<le> Suc i"
    then have "length blocks \<le> next_pos (Some i)" by simp
    from advance_skip(2) [OF rd1 ix this] obtain self2 where
      "skip_to_next_entry D (?self, c) = Some (Inr False, self2, c)" "ti_table self2 = ti_table ?self"
      "block_at D C (index_entries D blocks) None (ti_index_block self2)" by blast
    then show "\<exists>self'. TableIterator_advance D (self, c) = Some (False, self', c) \<and>
        reading D C cap cid T blocks (ti_table self') c \<and> before_blocks D C blocks self'"
      using cur 1(1) rd1 reset_before
      by (subst TableIterator_advance.simps)
        (simp add: before_blocks_def del: skip_to_next_entry.simps advance_current.simps)
  }
qed

lemma table_atI:
  assumes "reading D C cap cid T blocks (ti_table self) c" "in_block D C blocks i (Some j) self"
  shows "table_at D C cap cid T blocks (all_entries blocks) (Some (flat blocks i j)) (self, c)"
  using assms by (auto simp: table_at_def)

lemma table_at_someE:
  assumes "table_at D C cap cid T blocks es (Some n) (self, c)"
  obtains i j where "es = all_entries blocks" "reading D C cap cid T blocks (ti_table self) c"
    "n = flat blocks i j" "in_block D C blocks i (Some j) self" "i < length blocks"
    "j < length (db_entries (blocks ! i))"
  using assms block_iter.at_bounds that by (fastforce simp: table_at_def in_block_def)

lemma table_at_none:
  "table_at D C cap cid T blocks es None (self, c) \<longleftrightarrow>
   es = all_entries blocks \<and> reading D C cap cid T blocks (ti_table self) c \<and> before_blocks D C blocks self"
  by (simp add: table_at_def)

lemma all_entries_empty: "\<lbrakk>\<And>b. b \<in> set blocks \<Longrightarrow> db_entries b \<noteq> []\<rbrakk> \<Longrightarrow> all_entries blocks = [] \<longleftrightarrow> blocks = []"
  by (auto simp: all_entries_def)

lemma table_advance_some:
  assumes at: "table_at D C cap cid T blocks es (Some n) (self, c)"
  shows "Suc n < length es \<Longrightarrow> \<exists>it'. TableIterator_advance D (self, c) = Some (True, it') \<and>
      table_at D C cap cid T blocks es (Some (Suc n)) it'"
    and "length es \<le> Suc n \<Longrightarrow> \<exists>it'. TableIterator_advance D (self, c) = Some (False, it') \<and>
      table_at D C cap cid T blocks es None it'"
proof -
  obtain i j where ij: "es = all_entries blocks" "reading D C cap cid T blocks (ti_table self) c"
    "n = flat blocks i j" "in_block D C blocks i (Some j) self" "i < length blocks"
    "j < length (db_entries (blocks ! i))"
    by (rule table_at_someE [OF at])
  have n: "Suc n = flat blocks i (Suc j)" using ij(3) by (simp add: flat_def)
  {
    assume less: "Suc n < length es"
    show "\<exists>it'. TableIterator_advance D (self, c) = Some (True, it') \<and>
        table_at D C cap cid T blocks es (Some (Suc n)) it'"
    proof (cases "Suc j < length (db_entries (blocks ! i))")
      case True
      with advance_in_block [OF ij(4), of c] obtain self' where
        "TableIterator_advance D (self, c) = Some (True, self', c)" "ti_table self' = ti_table self"
        "in_block D C blocks i (Some (Suc j)) self'" by auto
      with ij(1,2) table_atI [of D C cap cid T blocks self' c i "Suc j"] show ?thesis unfolding n by auto
    next
      case False
      then have j: "Suc j = length (db_entries (blocks ! i))" using ij(6) by simp
      have "Suc i < length blocks"
        using less flat_end [of blocks i "Suc j"] j ij(1,5) unfolding n
        by (cases "Suc i < length blocks") (simp_all add: not_less)
      with advance_over(1) [OF ij(2,4)] j obtain self' c' where
        "TableIterator_advance D (self, c) = Some (True, self', c')"
        "reading D C cap cid T blocks (ti_table self') c'" "in_block D C blocks (Suc i) (Some 0) self'" by auto
      with ij(1,5) table_atI [of D C cap cid T blocks self' c' "Suc i" 0] j show ?thesis
        unfolding n by (auto simp: flat_Suc)
    qed
  next
    assume le: "length es \<le> Suc n"
    have j: "length (db_entries (blocks ! i)) \<le> Suc j"
    proof (rule ccontr)
      assume "\<not> ?thesis"
      then have "flat blocks i (Suc j) < length es" using flat_nth(1) [OF ij(5)] ij(1) by simp
      then show False using le n by simp
    qed
    have "length blocks \<le> Suc i"
    proof (rule ccontr)
      assume "\<not> ?thesis"
      then have "Suc i < length blocks" by simp
      moreover from this have "db_entries (blocks ! Suc i) \<noteq> []" using reading_blocks(1) [OF ij(2)] by simp
      ultimately have "flat blocks (Suc i) 0 < length es" using flat_nth(1) [of "Suc i" blocks 0] ij(1) by simp
      then show False using le n j ij(5,6) flat_Suc [OF ij(5), of 0] by (simp add: flat_def)
    qed
    with advance_over(2) [OF ij(2,4)] j ij(1) show "\<exists>it'. TableIterator_advance D (self, c) = Some (False, it') \<and>
        table_at D C cap cid T blocks es None it'"
      by (fastforce simp: table_at_none)
  }
qed

lemma table_advance_none:
  assumes at: "table_at D C cap cid T blocks es None (self, c)"
  shows "0 < length es \<Longrightarrow> \<exists>it'. TableIterator_advance D (self, c) = Some (True, it') \<and>
      table_at D C cap cid T blocks es (Some 0) it'"
    and "length es \<le> 0 \<Longrightarrow> \<exists>it'. TableIterator_advance D (self, c) = Some (False, it') \<and>
      table_at D C cap cid T blocks es None it'"
proof -
  have it: "es = all_entries blocks" "reading D C cap cid T blocks (ti_table self) c"
    "before_blocks D C blocks self" using at by (simp_all add: table_at_none)
  {
    assume "0 < length es"
    then have "blocks \<noteq> []" using it(1) by auto
    with advance_from_start(1) [OF it(2,3)] obtain self' c' where
      1: "TableIterator_advance D (self, c) = Some (True, self', c')"
      "reading D C cap cid T blocks (ti_table self') c'" "in_block D C blocks 0 (Some 0) self'" by blast
    have "flat blocks 0 0 = 0" by (simp add: flat_def)
    with table_atI [OF 1(2,3)] 1(1) it(1) show "\<exists>it'. TableIterator_advance D (self, c) = Some (True, it') \<and>
        table_at D C cap cid T blocks es (Some 0) it'" by auto
  next
    assume "length es \<le> 0"
    then have "blocks = []" using it(1) all_entries_empty reading_blocks(1) [OF it(2)] by fastforce
    with advance_from_start(2) [OF it(2,3)] it(1) show "\<exists>it'.
        TableIterator_advance D (self, c) = Some (False, it') \<and> table_at D C cap cid T blocks es None it'"
      by (fastforce simp: table_at_none)
  }
qed

section \<open>The contract\<close>

interpretation table_iterator: forward_iterator "TableIterator_advance D" TableIterator_current
  TableIterator_reset TableIterator_valid "table_at D C cap cid T blocks" for D C cap cid T blocks
proof
  fix es p and it :: table_iter
  obtain self c where it: "it = (self, c)" by (cases it)
  assume at: "table_at D C cap cid T blocks es p it"
  show "next_pos p < length es \<Longrightarrow> \<exists>it'. TableIterator_advance D it = Some (True, it') \<and>
      table_at D C cap cid T blocks es (Some (next_pos p)) it'"
    and "length es \<le> next_pos p \<Longrightarrow> \<exists>it'. TableIterator_advance D it = Some (False, it') \<and>
      table_at D C cap cid T blocks es None it'"
    using at table_advance_none table_advance_some unfolding it by (cases p; fastforce)+
  show "TableIterator_valid it \<longleftrightarrow> p \<noteq> None"
    using at block_iter.valid_iff unfolding it
    by (cases p) (fastforce simp: table_at_def before_blocks_def in_block_def)+
  have "\<exists>q. block_at D C (index_entries D blocks) q (ti_index_block self)"
    using at unfolding it by (cases p) (auto simp: table_at_def before_blocks_def in_block_def)
  then show "table_at D C cap cid T blocks es None (TableIterator_reset it)"
    using at reset_before unfolding it by (auto simp: table_at_def)
next
  fix es i k v and it :: table_iter
  obtain self c where it: "it = (self, c)" by (cases it)
  assume at: "table_at D C cap cid T blocks es (Some i) it"
  then obtain m j where ij: "es = all_entries blocks" "reading D C cap cid T blocks (ti_table self) c"
    "i = flat blocks m j" "in_block D C blocks m (Some j) self" "m < length blocks"
    "j < length (db_entries (blocks ! m))"
    unfolding it by (rule table_at_someE)
  obtain cb where "ti_current_block self = Some cb" "block_at D C (db_entries (blocks ! m)) (Some j) cb"
    using ij(4) by (auto simp: in_block_def)
  then show "TableIterator_current it k v = Some (True, fst (es ! i), snd (es ! i))"
    using ij block_iter.current_at flat_nth(2) [OF ij(5,6)] by (simp add: it)
  show "i < length es" using flat_nth(1) [OF ij(5,6)] ij(1,3) by simp
next
  fix es k v and it :: table_iter
  assume "table_at D C cap cid T blocks es None it"
  then show "TableIterator_current it k v = Some (False, k, v)"
    by (cases it) (simp add: table_at_none before_blocks_def)
qed

section \<open>Stepping back\<close>

lemma prev_in_block:
  assumes "in_block D C blocks i (Some j) self"
  shows "\<exists>self'. prev_current D (self, c) = Some (j \<noteq> 0, self', c) \<and> ti_table self' = ti_table self \<and>
    in_block D C blocks i (if j = 0 then None else Some (j - 1)) self'"
proof -
  obtain cb where cb: "ti_current_block self = Some cb"
    "block_at D C (db_entries (blocks ! i)) (Some j) cb"
    using assms by (auto simp: in_block_def)
  from block_at_prev [OF cb(2)] obtain cb' where "BlockIter_prev D cb = Some (j \<noteq> 0, cb')"
    "block_at D C (db_entries (blocks ! i)) (if j = 0 then None else Some (j - 1)) cb'" by blast
  with cb(1) assms show ?thesis by (auto simp: in_block_def)
qed

lemma prev_block:
  assumes rd: "reading D C cap cid T blocks (ti_table self) c" and at: "in_block D C blocks (Suc i) (Some 0) self"
  shows "\<exists>self' c'. TableIterator_prev D (self, c) = Some (True, self', c') \<and>
    reading D C cap cid T blocks (ti_table self') c' \<and>
    in_block D C blocks i (Some (length (db_entries (blocks ! i)) - 1)) self'"
proof -
  let ?b = "blocks ! i"
  from prev_in_block [OF at, of c] obtain self1 where
    1: "prev_current D (self, c) = Some (False, self1, c)" "ti_table self1 = ti_table self"
      "in_block D C blocks (Suc i) None self1" by auto
  then have i: "Suc i < length blocks"
    and ix: "block_at D C (index_entries D blocks) (Some (Suc i)) (ti_index_block self1)"
    by (simp_all add: in_block_def)
  from block_iter.prev_inside [OF ix] obtain ix' where
    ix': "BlockIter_prev D (ti_index_block self1) = Some (True, ix')"
      "block_at D C (index_entries D blocks) (Some i) ix'" by blast
  have kv: "current_key_val BlockIter_current ix' = Some (Some (db_sep ?b, handle_bytes D (db_handle ?b)))"
    using block_iter.current_key_val_at [OF ix'(2)] i by (simp add: index_entries_def)
  let ?self = "self1\<lparr>ti_index_block := ix'\<rparr>"
  have "reading D C cap cid T blocks (ti_table ?self) c" "?b \<in> set blocks" using rd 1(2) i by simp_all
  from load_block_at [OF this] obtain cb c' where
    load: "load_block D (?self, c) (handle_bytes D (db_handle ?b)) =
      Some (Inr (), ?self\<lparr>ti_current_block := Some cb,
        ti_current_block_off := bh_offset (db_handle ?b)\<rparr>, c')"
    "block_at D C (db_entries ?b) None cb" "reading D C cap cid T blocks (ti_table ?self) c'" by blast
  have "db_entries ?b \<noteq> []" using reading_blocks(1) [OF rd] i by simp
  from block_at_last [OF load(2) this] obtain cb' where
    cb': "BlockIter_seek_to_last D cb = Some cb'"
      "block_at D C (db_entries ?b) (Some (length (db_entries ?b) - 1)) cb'" by blast
  then have "BlockIter_valid cb'" using block_iter.valid_iff by blast
  with cb' 1(1) ix' kv load i show ?thesis
    by (simp add: in_block_def del: load_block.simps prev_current.simps)
qed

text \<open>Before the first entry, the first block stays loaded while the index starts again.\<close>

definition before_first :: "deps \<Rightarrow> Cmp \<Rightarrow> data_block list \<Rightarrow> nat option \<Rightarrow> TableIterator \<Rightarrow> bool" where
  "before_first D C blocks q self \<longleftrightarrow>
     blocks \<noteq> [] \<and> block_at D C (index_entries D blocks) None (ti_index_block self) \<and>
     (\<exists>cb. ti_current_block self = Some cb \<and> block_at D C (db_entries (hd blocks)) q cb)"

lemma prev_first_block:
  assumes rd: "reading D C cap cid T blocks (ti_table self) c" and at: "in_block D C blocks 0 (Some 0) self"
  shows "\<exists>self'. TableIterator_prev D (self, c) = Some (False, self', c) \<and>
    ti_table self' = ti_table self \<and> before_first D C blocks None self'"
proof -
  from prev_in_block [OF at, of c] obtain self1 where
    1: "prev_current D (self, c) = Some (False, self1, c)" "ti_table self1 = ti_table self"
      "in_block D C blocks 0 None self1" by auto
  then have ix: "block_at D C (index_entries D blocks) (Some 0) (ti_index_block self1)"
    and ne: "blocks \<noteq> []" by (auto simp: in_block_def)
  from block_iter.prev_first [OF ix] obtain ix' where
    "BlockIter_prev D (ti_index_block self1) = Some (False, ix')"
    "block_at D C (index_entries D blocks) None ix'" by blast
  with 1 ne show ?thesis
    by (auto simp: in_block_def before_first_def hd_conv_nth simp del: prev_current.simps)
qed

lemma table_prev_inside:
  assumes at: "table_at D C cap cid T blocks es (Some (Suc n)) (self, c)"
  shows "\<exists>it'. TableIterator_prev D (self, c) = Some (True, it') \<and> table_at D C cap cid T blocks es (Some n) it'"
proof -
  obtain i j where ij: "es = all_entries blocks" "reading D C cap cid T blocks (ti_table self) c"
    "Suc n = flat blocks i j" "in_block D C blocks i (Some j) self" "i < length blocks"
    "j < length (db_entries (blocks ! i))"
    by (rule table_at_someE [OF at])
  show ?thesis
  proof (cases j)
    case (Suc m)
    with prev_in_block [OF ij(4), of c] obtain self' where
      "prev_current D (self, c) = Some (True, self', c)" "ti_table self' = ti_table self"
      "in_block D C blocks i (Some m) self'" by auto
    moreover have "n = flat blocks i m" using ij(3) Suc by (simp add: flat_def)
    ultimately show ?thesis
      using ij(1,2) table_atI [of D C cap cid T blocks self' c i m] by (simp del: prev_current.simps)
  next
    case 0
    then obtain m where m: "i = Suc m" using ij(3) by (cases i) (auto simp: flat_def)
    have "db_entries (blocks ! m) \<noteq> []" using reading_blocks(1) [OF ij(2)] ij(5) m by simp
    then have n: "n = flat blocks m (length (db_entries (blocks ! m)) - 1)"
      using ij(3,5) 0 m flat_Suc [of m blocks 0] by (cases "db_entries (blocks ! m)") (auto simp: flat_def)
    from prev_block [OF ij(2) ij(4) [unfolded 0 m]] obtain self' c' where
      "TableIterator_prev D (self, c) = Some (True, self', c')"
      "reading D C cap cid T blocks (ti_table self') c'"
      "in_block D C blocks m (Some (length (db_entries (blocks ! m)) - 1)) self'" by blast
    with ij(1) n table_atI show ?thesis by (auto simp del: TableIterator_prev.simps)
  qed
qed

lemma table_prev_first:
  assumes at: "table_at D C cap cid T blocks es (Some 0) (self, c)"
  shows "\<exists>self'. TableIterator_prev D (self, c) = Some (False, self', c) \<and>
    ti_table self' = ti_table self \<and> before_first D C blocks None self'"
proof -
  obtain i j where ij: "es = all_entries blocks" "reading D C cap cid T blocks (ti_table self) c"
    "0 = flat blocks i j" "in_block D C blocks i (Some j) self" "i < length blocks"
    "j < length (db_entries (blocks ! i))"
    by (rule table_at_someE [OF at])
  have "i = 0"
  proof (rule ccontr)
    assume "i \<noteq> 0"
    then obtain b bs where b: "blocks = b # bs" using ij(5) by (cases blocks) auto
    then have "db_entries b = []" using ij(3) \<open>i \<noteq> 0\<close> by (cases i) (auto simp: flat_def)
    then show False using reading_blocks(1) [OF ij(2), of b] b by simp
  qed
  moreover have "j = 0" using ij(3) by (simp add: flat_def)
  ultimately show ?thesis using prev_first_block [OF ij(2)] ij(4) by simp
qed

text \<open>From there the iterator walks through the first block and then through the whole table.\<close>

lemma before_first_step:
  assumes rd: "reading D C cap cid T blocks (ti_table self) c" and at: "before_first D C blocks q self"
  shows "next_pos q < length (db_entries (hd blocks)) \<Longrightarrow>
      \<exists>self'. SSIterator_next (TableIterator_advance D) TableIterator_current (self, c) =
          Some (Some (db_entries (hd blocks) ! next_pos q), self', c) \<and>
        ti_table self' = ti_table self \<and> before_first D C blocks (Some (next_pos q)) self'"
    and "length (db_entries (hd blocks)) \<le> next_pos q \<Longrightarrow>
      \<exists>it'. TableIterator_advance D (self, c) = Some (True, it') \<and>
        table_at D C cap cid T blocks (all_entries blocks) (Some 0) it'"
proof -
  obtain cb where cb: "ti_current_block self = Some cb" "block_at D C (db_entries (hd blocks)) q cb"
    and ix: "block_at D C (index_entries D blocks) None (ti_index_block self)" and ne: "blocks \<noteq> []"
    using at by (auto simp: before_first_def)
  {
    assume "next_pos q < length (db_entries (hd blocks))"
    with block_iter.advance_inside [OF cb(2)] obtain cb' where
      cb': "BlockIter_advance D cb = Some (True, cb')"
        "block_at D C (db_entries (hd blocks)) (Some (next_pos q)) cb'" by blast
    then have "TableIterator_advance D (self, c) = Some (True, self\<lparr>ti_current_block := Some cb'\<rparr>, c)"
      using cb(1) by (subst TableIterator_advance.simps) simp
    with cb' at show "\<exists>self'. SSIterator_next (TableIterator_advance D) TableIterator_current (self, c) =
          Some (Some (db_entries (hd blocks) ! next_pos q), self', c) \<and>
        ti_table self' = ti_table self \<and> before_first D C blocks (Some (next_pos q)) self'"
      by (simp add: SSIterator_next_def before_first_def block_iter.current_at [OF cb'(2)])
  next
    assume "length (db_entries (hd blocks)) \<le> next_pos q"
    with block_iter.advance_end [OF cb(2)] obtain cb' where
      cb': "BlockIter_advance D cb = Some (False, cb')" by blast
    let ?self = "self\<lparr>ti_current_block := None\<rparr>"
    have "reading D C cap cid T blocks (ti_table ?self) c"
      "block_at D C (index_entries D blocks) None (ti_index_block ?self)"
      "next_pos None < length blocks" using rd ix ne by simp_all
    from advance_skip(1) [OF this] obtain self1 c1 self' c' where
      1: "skip_to_next_entry D (?self, c) = Some (Inr True, self1, c1)"
      "TableIterator_advance D (self1, c1) = Some (True, self', c')"
      "reading D C cap cid T blocks (ti_table self') c'" "in_block D C blocks 0 (Some 0) self'" by auto
    then have "TableIterator_advance D (self, c) = Some (True, self', c')"
      using cb(1) cb' by (subst TableIterator_advance.simps) (simp del: skip_to_next_entry.simps)
    moreover have "flat blocks 0 0 = 0" by (simp add: flat_def)
    ultimately show "\<exists>it'. TableIterator_advance D (self, c) = Some (True, it') \<and>
        table_at D C cap cid T blocks (all_entries blocks) (Some 0) it'"
      using table_atI [OF 1(3,4)] by auto
  }
qed

lemma drain_before_first:
  "reading D C cap cid T blocks (ti_table self) c \<Longrightarrow> before_first D C blocks q self \<Longrightarrow>
   \<exists>it'. drain (TableIterator_advance D) TableIterator_current (self, c) =
     Some (drop (next_pos q) (db_entries (hd blocks)) @ all_entries blocks, it')"
proof (induction "length (db_entries (hd blocks)) - next_pos q" arbitrary: q self)
  case 0
  let ?es = "all_entries blocks"
  from 0(1) have "length (db_entries (hd blocks)) \<le> next_pos q" by simp
  from before_first_step(2) [OF 0(2,3) this] obtain it where
    it: "TableIterator_advance D (self, c) = Some (True, it)"
      "table_at D C cap cid T blocks ?es (Some 0) it" by blast
  have "0 < length ?es" by (rule table_iterator.at_bounds [OF it(2)])
  then have es: "?es = ?es ! 0 # drop 1 ?es" by (simp add: Cons_nth_drop_Suc)
  from table_iterator.drain_from [OF it(2)] obtain it' where
    "drain (TableIterator_advance D) TableIterator_current it = Some (drop 1 ?es, it')" by auto
  moreover have "SSIterator_next (TableIterator_advance D) TableIterator_current (self, c) =
      Some (Some (?es ! 0), it)"
    using it(1) table_iterator.current_at [OF it(2)] by (simp add: SSIterator_next_def)
  ultimately have "drain (TableIterator_advance D) TableIterator_current (self, c) =
      Some (?es ! 0 # drop 1 ?es, it')"
    by (simp add: drain.simps [of _ _ "(self, c)"])
  then show ?case using es 0(1) by simp
next
  case (Suc n)
  then have less: "next_pos q < length (db_entries (hd blocks))" by simp
  from before_first_step(1) [OF Suc.prems less] obtain self' where
    1: "SSIterator_next (TableIterator_advance D) TableIterator_current (self, c) =
        Some (Some (db_entries (hd blocks) ! next_pos q), self', c)"
      "ti_table self' = ti_table self" "before_first D C blocks (Some (next_pos q)) self'" by blast
  have "n = length (db_entries (hd blocks)) - next_pos (Some (next_pos q))" using Suc.hyps(2) by simp
  from Suc.hyps(1) [OF this _ 1(3)] 1(1,2) Suc.prems(1) less show ?case
    by (auto simp: drain.simps [of _ _ "(self, c)"] Cons_nth_drop_Suc)
qed

section \<open>Seeking\<close>

lemma seek_index_append:
  "seek_index C k (xs @ ys) =
   (if seek_index C k xs < length xs then seek_index C k xs else length xs + seek_index C k ys)"
  unfolding seek_index_def
proof -
  let ?P = "\<lambda>e. cmp C (fst e) k = Less"
  show "length (takeWhile ?P (xs @ ys)) = (if length (takeWhile ?P xs) < length xs
      then length (takeWhile ?P xs) else length xs + length (takeWhile ?P ys))"
    by (induction xs) auto
qed

lemma seek_index_below: "seek_index C k xs = length xs \<longleftrightarrow> (\<forall>e \<in> set xs. cmp C (fst e) k = Less)"
  unfolding seek_index_def by (induction xs) auto

lemma seek_index_le: "seek_index C k xs \<le> length xs"
  by (simp add: seek_index_def length_takeWhile_le)

text \<open>Blocks whose separators are below the key are skipped with all of their entries.\<close>

lemma below_separators:
  assumes C: "comparator C" and sep: "separated C blocks" and below: "\<forall>b \<in> set bs. cmp C (db_sep b) k = Less"
    and bs: "set bs \<subseteq> set blocks"
  shows "seek_index C k (all_entries bs) = length (all_entries bs)"
  unfolding seek_index_below
proof
  fix e assume "e \<in> set (all_entries bs)"
  then obtain b where b: "b \<in> set bs" "e \<in> set (db_entries b)" by (auto simp: all_entries_set)
  then have "cmp C (fst e) (db_sep b) = Less" using sep bs by (auto simp: separated_def)
  with below b show "cmp C (fst e) k = Less" using comparator.cmp_less_trans [OF C] by blast
qed

text \<open>A key above the last entry of the block that the index selects for it.\<close>

definition seek_gap :: "Cmp \<Rightarrow> bytes \<Rightarrow> data_block list \<Rightarrow> bool" where
  "seek_gap C k blocks \<longleftrightarrow>
     (case block_of C k blocks of None \<Rightarrow> False | Some b \<Rightarrow> \<forall>x \<in> db_keys b. cmp C x k = Less)"

lemma block_of_None:
  assumes "block_of C k blocks = None"
  shows "seek_pos C k (index_entries D blocks) = None" "\<forall>b \<in> set blocks. cmp C (db_sep b) k = Less"
proof -
  show below: "\<forall>b \<in> set blocks. cmp C (db_sep b) k = Less"
    using assms by (simp add: block_of_def find_None_iff)
  then have "\<forall>e \<in> set (index_entries D blocks). cmp C (fst e) k = Less" by (auto simp: index_entries_def)
  then have "seek_index C k (index_entries D blocks) = length (index_entries D blocks)"
    by (simp only: seek_index_below)
  then show "seek_pos C k (index_entries D blocks) = None" by (simp add: seek_pos_def)
qed

lemma block_of_Some:
  assumes "block_of C k blocks = Some b"
  obtains i where "i < length blocks" "blocks ! i = b" "seek_pos C k (index_entries D blocks) = Some i"
    "\<forall>b' \<in> set (take i blocks). cmp C (db_sep b') k = Less" "cmp C (db_sep b) k \<noteq> Less"
proof -
  obtain i where i: "i < length blocks" "cmp C (db_sep b) k \<noteq> Less" "b = blocks ! i"
    "\<forall>j<i. cmp C (db_sep (blocks ! j)) k = Less"
    using assms by (auto simp: block_of_def find_Some_iff)
  have "takeWhile (\<lambda>e. cmp C (fst e) k = Less) (index_entries D blocks) = take i (index_entries D blocks)"
    using i by (intro takeWhile_eq_take_P_nth) (simp_all add: index_entries_def)
  then have "seek_index C k (index_entries D blocks) = i"
    using i(1) by (simp add: seek_index_def index_entries_def)
  then have "seek_pos C k (index_entries D blocks) = Some i"
    using i(1) by (simp add: seek_pos_def) (simp add: index_entries_def)
  moreover have "\<forall>b' \<in> set (take i blocks). cmp C (db_sep b') k = Less"
    using i(4) by (auto simp: in_set_conv_nth)
  ultimately show thesis using that [of i] i by blast
qed

text \<open>The position in the selected block is the position among all entries.\<close>

lemma seek_pos_block:
  assumes "comparator C" "separated C blocks" "i < length blocks"
    "\<forall>b \<in> set (take i blocks). cmp C (db_sep b) k = Less" "seek_pos C k (db_entries (blocks ! i)) = Some j"
  shows "seek_pos C k (all_entries blocks) = Some (flat blocks i j)"
proof -
  have j: "seek_index C k (db_entries (blocks ! i)) = j" "j < length (db_entries (blocks ! i))"
    using assms(5) by (auto simp: seek_pos_def Let_def split: if_splits)
  have "seek_index C k (all_entries (take i blocks)) = length (all_entries (take i blocks))"
    by (rule below_separators [OF assms(1,2,4) set_take_subset])
  then have "seek_index C k (all_entries blocks) = flat blocks i j"
    using j unfolding flat_split [OF assms(3)] by (simp add: seek_index_append flat_def)
  then show ?thesis using flat_nth(1) [OF assms(3) j(2)] by (simp add: seek_pos_def)
qed

lemma seek_at_block:
  assumes rd: "reading D C cap cid T blocks (ti_table self) c"
    and ix: "block_at D C (index_entries D blocks) p (ti_index_block self)"
    and b: "block_of C k blocks = Some b"
  shows "\<exists>i self' c'. TableIterator_seek D (self, c) k = Some (self', c') \<and> i < length blocks \<and>
    blocks ! i = b \<and> (\<forall>b' \<in> set (take i blocks). cmp C (db_sep b') k = Less) \<and>
    reading D C cap cid T blocks (ti_table self') c' \<and>
    in_block D C blocks i (seek_pos C k (db_entries b)) self'"
proof -
  obtain i where i: "i < length blocks" "blocks ! i = b" "seek_pos C k (index_entries D blocks) = Some i"
    "\<forall>b' \<in> set (take i blocks). cmp C (db_sep b') k = Less" "cmp C (db_sep b) k \<noteq> Less"
    by (rule block_of_Some [OF b])
  from block_iter.seek_at [OF ix, of k] i(3) obtain ix' where
    ix': "BlockIter_seek D (ti_index_block self) k = Some ix'"
      "block_at D C (index_entries D blocks) (Some i) ix'" by auto
  have kv: "current_key_val BlockIter_current ix' = Some (Some (db_sep b, handle_bytes D (db_handle b)))"
    using block_iter.current_key_val_at [OF ix'(2)] i(1,2) by (simp add: index_entries_def)
  let ?self = "self\<lparr>ti_index_block := ix'\<rparr>"
  have "reading D C cap cid T blocks (ti_table ?self) c" "b \<in> set blocks" using rd i by auto
  from load_block_at [OF this] obtain cb c' where
    load: "load_block D (?self, c) (handle_bytes D (db_handle b)) =
      Some (Inr (), ?self\<lparr>ti_current_block := Some cb,
        ti_current_block_off := bh_offset (db_handle b)\<rparr>, c')"
    "block_at D C (db_entries b) None cb" "reading D C cap cid T blocks (ti_table ?self) c'" by blast
  from block_iter.seek_at [OF load(2), of k] obtain cb' where
    cb': "BlockIter_seek D cb k = Some cb'"
      "block_at D C (db_entries b) (seek_pos C k (db_entries b)) cb'" by blast
  have "cmp C k (db_sep b) \<noteq> Greater"
    using i(5) comparator.cmp_swap [OF reading_blocks(6) [OF rd]] by blast
  then have le: "cmp (opt_cmp (tab_opt (ti_table self))) k (db_sep b) \<le> Equal"
    using reading_blocks(5) [OF rd] by (cases "cmp C k (db_sep b)") simp_all
  with ix' kv load cb' i show ?thesis
    by (intro exI [of _ i] exI) (auto simp: in_block_def simp del: load_block.simps)
qed

text \<open>
  Seeking stops at the first entry that is not below the key, unless the key falls into a gap:
  then the iterator is not valid, and stands before the first entry of the selected block.
\<close>

lemma table_seek:
  assumes rd: "reading D C cap cid T blocks (ti_table self) c"
    and ix: "block_at D C (index_entries D blocks) p (ti_index_block self)"
    and gap: "\<not> seek_gap C k blocks"
  shows "\<exists>it'. TableIterator_seek D (self, c) k = Some it' \<and>
    table_at D C cap cid T blocks (all_entries blocks) (seek_pos C k (all_entries blocks)) it'"
proof (cases "block_of C k blocks")
  case None
  note none = block_of_None [OF None]
  note blocks = reading_blocks [OF rd]
  from block_iter.seek_at [OF ix, of k] none(1) obtain ix' where
    ix': "BlockIter_seek D (ti_index_block self) k = Some ix'"
      "block_at D C (index_entries D blocks) None ix'" by auto
  have "seek_index C k (all_entries blocks) = length (all_entries blocks)"
    by (rule below_separators [OF blocks(6,4) none(2) subset_refl])
  then have "seek_pos C k (all_entries blocks) = None" by (simp add: seek_pos_def)
  then show ?thesis
    using ix' block_iter.current_key_val_none [OF ix'(2)] rd block_at_reset [OF ix'(2)]
    by (simp add: table_at_none before_blocks_def)
next
  case (Some b)
  from seek_at_block [OF rd ix this] obtain i self' c' where
    1: "TableIterator_seek D (self, c) k = Some (self', c')" "i < length blocks" "blocks ! i = b"
    "\<forall>b' \<in> set (take i blocks). cmp C (db_sep b') k = Less"
    "reading D C cap cid T blocks (ti_table self') c'"
    "in_block D C blocks i (seek_pos C k (db_entries b)) self'" by blast
  have "\<not> (\<forall>e \<in> set (db_entries b). cmp C (fst e) k = Less)" using gap Some by (auto simp: seek_gap_def)
  then have "seek_index C k (db_entries b) \<noteq> length (db_entries b)" by (simp only: seek_index_below not_False_eq_True)
  then obtain j where j: "seek_pos C k (db_entries b) = Some j"
    using seek_index_le [of C k "db_entries b"] by (auto simp: seek_pos_def Let_def)
  then have "seek_pos C k (all_entries blocks) = Some (flat blocks i j)"
    using seek_pos_block [OF reading_blocks(6,4) [OF rd] 1(2,4)] 1(3) by simp
  with 1 j table_atI show ?thesis by auto
qed

lemma table_seek_gap:
  assumes rd: "reading D C cap cid T blocks (ti_table self) c"
    and ix: "block_at D C (index_entries D blocks) p (ti_index_block self)"
    and gap: "seek_gap C k blocks"
  shows "\<exists>i self' c'. TableIterator_seek D (self, c) k = Some (self', c') \<and> i < length blocks \<and>
    block_of C k blocks = Some (blocks ! i) \<and>
    \<not> TableIterator_valid (self', c') \<and> reading D C cap cid T blocks (ti_table self') c' \<and>
    in_block D C blocks i None self'"
proof -
  obtain b where b: "block_of C k blocks = Some b" "\<forall>e \<in> set (db_entries b). cmp C (fst e) k = Less"
    using gap by (auto simp: seek_gap_def split: option.splits)
  have "seek_index C k (db_entries b) = length (db_entries b)" using b(2) by (simp only: seek_index_below)
  then have none: "seek_pos C k (db_entries b) = None" by (simp add: seek_pos_def)
  from seek_at_block [OF rd ix b(1)] none obtain i self' c' where
    1: "TableIterator_seek D (self, c) k = Some (self', c')" "i < length blocks" "blocks ! i = b"
    "reading D C cap cid T blocks (ti_table self') c'" "in_block D C blocks i None self'" by auto
  then have "\<not> TableIterator_valid (self', c')"
    using block_iter.valid_iff by (fastforce simp: in_block_def)
  with 1 b(1) show ?thesis by auto
qed

end
