(* ===== verification/SST_TableProps.thy ===== *)
theory SST_TableProps
  imports SST_TableBuild SST_TableIter
begin

text \<open>
  Writer and reader of a table together: a table is built into a byte vector, opened from it,
  looked up and iterated over.
\<close>

section \<open>Building and opening\<close>

definition build_file :: "deps \<Rightarrow> Options \<Rightarrow> (bytes \<times> bytes) list \<Rightarrow> (Status + bytes) run" where
  "build_file D opt kvs =
     do {
       (r, self) \<leftarrow> build_table D (vec_write D) opt [] kvs;
       Some (case r of Inl e \<Rightarrow> Inl e | Inr _ \<Rightarrow> Inr (tb_dst self))
     }"

definition open_file ::
  "deps \<Rightarrow> Options \<Rightarrow> bytes \<Rightarrow> block_cache \<Rightarrow> ((Status + Table) \<times> block_cache) run" where
  "open_file D opt file cache = Table_new D opt (BufferBackedFile_read_at file) (length file) cache"

text \<open>Entries that make a table of less than 512 MiB.\<close>

definition table_fits :: "Options \<Rightarrow> (bytes \<times> bytes) list \<Rightarrow> bool" where
  "table_fits opt kvs \<longleftrightarrow>
     table_input opt kvs \<and>
     (\<exists>c. filter_growth (opt_filter_policy opt) c \<and> table_size_bound opt c (table_weight kvs) < 2 ^ 29)"

lemma build_file_table:
  assumes D: "third_party_laws D" and C: "short_comparator (opt_cmp opt)" and input: "table_input opt kvs"
  shows "\<exists>file blocks. build_file D opt kvs = Some (Inr file) \<and>
    table_exact D opt file blocks \<and> all_entries blocks = kvs \<and> file = ref_file D opt kvs \<and>
    blocks = table_blocks D opt kvs \<and>
    (\<forall>c. filter_growth (opt_filter_policy opt) c \<longrightarrow>
       length file \<le> table_size_bound opt c (table_weight kvs))"
  using table_env.build_table_file [OF vec_table_envI [OF D C] refl input, of "[]"]
  by (auto simp: build_file_def)

text \<open>A file that was built, and everything that is known of it.\<close>

lemma built_exact:
  assumes D: "third_party_laws D" and C: "short_comparator (opt_cmp opt)" and fits: "table_fits opt kvs"
  shows "build_file D opt kvs = Some (Inr (ref_file D opt kvs))" "all_entries (table_blocks D opt kvs) = kvs"
    "data_blocks D (opt_cmp opt) (ref_file D opt kvs) (table_blocks D opt kvs)"
    "table_tail D opt (length (ref_data D opt (ref_cut D opt [] kvs))) (ref_file D opt kvs) (table_blocks D opt kvs)
      (ref_footer D opt (ref_cut D opt [] kvs))"
    "length (ref_file D opt kvs) < 2 ^ 29"
proof -
  obtain c where c: "filter_growth (opt_filter_policy opt) c"
    "table_size_bound opt c (table_weight kvs) < 2 ^ 29" and input: "table_input opt kvs"
    using fits by (auto simp: table_fits_def)
  from build_file_table [OF D C input] obtain tbl blocks where
    fl: "build_file D opt kvs = Some (Inr tbl)" "table_exact D opt tbl blocks" "all_entries blocks = kvs"
      "length tbl \<le> table_size_bound opt c (table_weight kvs)" "blocks = table_blocks D opt kvs"
      "tbl = ref_file D opt kvs"
    using c(1) by blast
  have "length tbl < 2 ^ 29" using fl(4) c(2) by linarith
  with fl show "build_file D opt kvs = Some (Inr (ref_file D opt kvs))"
    "all_entries (table_blocks D opt kvs) = kvs" "length (ref_file D opt kvs) < 2 ^ 29"
    "data_blocks D (opt_cmp opt) (ref_file D opt kvs) (table_blocks D opt kvs)"
    "table_tail D opt (length (ref_data D opt (ref_cut D opt [] kvs))) (ref_file D opt kvs) (table_blocks D opt kvs)
      (ref_footer D opt (ref_cut D opt [] kvs))"
    by (simp_all add: table_exact_def)
qed

lemma built_file:
  assumes D: "third_party_laws D" and C: "short_comparator (opt_cmp opt)" and fits: "table_fits opt kvs"
  obtains tbl n blocks ft where "build_file D opt kvs = Some (Inr tbl)" "all_entries blocks = kvs"
    "data_blocks D (opt_cmp opt) tbl blocks" "table_tail D opt n tbl blocks ft" "length tbl < 2 ^ 29"
    "blocks = table_blocks D opt kvs" "tbl = ref_file D opt kvs"
  using built_exact [OF assms] that by blast

lemma table_tail_reader:
  "table_tail D opt n file blocks ft \<Longrightarrow> opt_filter_policy ropt = opt_filter_policy opt \<Longrightarrow>
   table_tail D ropt n file blocks ft"
  by (simp add: table_tail_def)

text \<open>The footer and the filters of a table that was opened from the reference file.\<close>

definition reference_parts :: "deps \<Rightarrow> Options \<Rightarrow> (bytes \<times> bytes) list \<Rightarrow> Table \<Rightarrow> bool" where
  "reference_parts D opt kvs t \<longleftrightarrow>
     tab_footer t = ref_footer D opt (ref_cut D opt [] kvs) \<and>
     tab_filters t = Some (reader_of D (opt_filter_policy opt)
       (filters_of (opt_filter_policy opt) (table_records (table_blocks D opt kvs))
         (length (ref_data D opt (ref_cut D opt [] kvs)))))"

lemma build_open:
  assumes D: "third_party_laws D" and C: "short_comparator (opt_cmp opt)" and fits: "table_fits opt kvs"
    and same: "opt_cmp ropt = opt_cmp opt" "opt_filter_policy ropt = opt_filter_policy opt"
    and id: "unat (ca_id cache) + 1 < 2 ^ 64"
  shows "\<exists>file t blocks fs. build_file D opt kvs = Some (Inr file) \<and>
    open_file D ropt file cache = Some (Inr t, cache\<lparr>ca_id := ca_id cache + 1\<rparr>) \<and>
    table_view D ropt file blocks fs t \<and> tab_cache_id t = ca_id cache + 1 \<and> all_entries blocks = kvs \<and>
    blocks = table_blocks D opt kvs \<and> reference_parts D opt kvs t"
proof -
  obtain c where c: "filter_growth (opt_filter_policy opt) c"
    "table_size_bound opt c (table_weight kvs) < 2 ^ 29" and input: "table_input opt kvs"
    using fits by (auto simp: table_fits_def)
  from build_file_table [OF D C input] obtain data blocks where
    fl: "build_file D opt kvs = Some (Inr data)" "table_exact D opt data blocks" "all_entries blocks = kvs"
      "length data \<le> table_size_bound opt c (table_weight kvs)" "blocks = table_blocks D opt kvs"
    using c(1) by blast
  then have len: "length data < 2 ^ 29" using c(2) by linarith
  have "table_reader D (opt_cmp opt)"
    using D C by (simp add: table_reader_def short_comparator_def)
  note new = table_reader.Table_new_parts [OF this same(1) buffer_file.random_access_file_axioms _ len id]
  have "table_tail D opt (length (ref_data D opt (map db_entries blocks))) data blocks
      (ref_footer D opt (map db_entries blocks))" using fl(2) by (simp add: table_exact_def)
  from new [OF table_tail_reader [OF this same(2)]] obtain t fs where t: "open_file D ropt data cache = Some (Inr t, cache\<lparr>ca_id := ca_id cache + 1\<rparr>)"
    "table_parts D ropt data blocks fs t" "tab_cache_id t = ca_id cache + 1"
    "tab_footer t = ref_footer D opt (map db_entries blocks)"
    "fs = filters_of (opt_filter_policy ropt) (table_records blocks) (length (ref_data D opt (map db_entries blocks)))"
    by (auto simp: open_file_def)
  moreover have "table_view D ropt data blocks fs t"
    using t(2) fl(2) same(1) by (simp add: table_view_parts table_exact_def)
  moreover have "reference_parts D opt kvs t"
    using t(2,4,5) fl(5) same(2) by (simp add: reference_parts_def table_parts_def)
  ultimately show ?thesis using fl(1,3,5) by blast
qed

section \<open>Keys that are separators\<close>

text \<open>
  The default comparator's separator of two blocks is a stored key only when the second block
  starts with the last key of the first one, followed by a zero byte.
\<close>

definition zero_extended :: "(bytes \<times> bytes) list \<Rightarrow> bool" where
  "zero_extended kvs \<longleftrightarrow> (\<exists>k \<in> fst ` set kvs. k @ [0] \<in> fst ` set kvs)"

lemma cmp_default_eq [simp]: "cmp DefaultCmp a b = Equal \<longleftrightarrow> a = b"
  by (simp add: DefaultCmp_def)

lemma sep_before_default:
  assumes "sep_before DefaultCmp b k" "cmp DefaultCmp (db_sep b) k \<noteq> Less" "db_entries b \<noteq> []"
  shows "db_sep b = k \<and> k = fst (last (db_entries b)) @ [0]"
proof -
  let ?l = "fst (last (db_entries b))"
  obtain x where x: "slice_cmp ?l x = Less" "DefaultCmp_find_shortest_sep ?l x = Some (db_sep b)"
    "slice_cmp x k \<noteq> Greater"
    using assms(1) by (auto simp: sep_before_def DefaultCmp_def)
  from find_shortest_sep_between [OF x(1)] x(2)
  have upto: "slice_cmp (db_sep b) x = (if x = ?l @ [0] then Equal else Less)" by auto
  have "x = ?l @ [0]"
  proof (rule ccontr)
    assume "x \<noteq> ?l @ [0]"
    then have "slice_cmp (db_sep b) x = Less" using upto by simp
    then have "cmp DefaultCmp (db_sep b) k = Less"
      using x(3) default_cmp.cmp_less_le_trans [of "db_sep b" x k] by (simp add: DefaultCmp_def)
    then show False using assms(2) by simp
  qed
  then have sep: "db_sep b = ?l @ [0]" using upto by simp
  then have "slice_cmp (?l @ [0]) k \<noteq> Greater" using x(3) \<open>x = ?l @ [0]\<close> by simp
  then have "slice_cmp (?l @ [0]) k = Equal"
    using assms(2) sep by (cases "slice_cmp (?l @ [0]) k") (auto simp: DefaultCmp_def)
  then show ?thesis using sep by simp
qed

text \<open>The block that the index selects for a stored key holds it.\<close>

lemma block_of_stored:
  assumes sep: "separated DefaultCmp blocks" and ne: "\<forall>b \<in> set blocks. db_entries b \<noteq> []"
    and zero: "\<not> zero_extended (all_entries blocks)" and k: "k \<in> fst ` set (all_entries blocks)"
  shows "\<exists>b. block_of DefaultCmp k blocks = Some b \<and> k \<in> db_keys b \<and>
    cmp DefaultCmp (db_sep b) k = Greater"
  using assms
proof (induction blocks)
  case (Cons b bs)
  have parts: "separated DefaultCmp bs" "\<forall>k \<in> db_keys b. cmp DefaultCmp k (db_sep b) = Less"
    "\<forall>b' \<in> set bs. \<forall>k \<in> db_keys b'. sep_before DefaultCmp b k"
    using Cons.prems(1) by (auto simp: default_cmp.separated_Cons)
  show ?case
  proof (cases "k \<in> db_keys b")
    case True
    then have "cmp DefaultCmp k (db_sep b) = Less" using parts(2) by blast
    then have "cmp DefaultCmp (db_sep b) k = Greater" using default_cmp.cmp_swap by blast
    then show ?thesis using True by (simp add: block_of_def)
  next
    case False
    then have k: "k \<in> fst ` set (all_entries bs)" using Cons.prems(4) by auto
    then have before: "sep_before DefaultCmp b k" using parts(3) by (auto simp: all_entries_set)
    have "cmp DefaultCmp (db_sep b) k = Less"
    proof (rule ccontr)
      assume "cmp DefaultCmp (db_sep b) k \<noteq> Less"
      from sep_before_default [OF before this] Cons.prems(2) have "k = fst (last (db_entries b)) @ [0]" by simp
      moreover have "fst (last (db_entries b)) \<in> fst ` set (all_entries (b # bs))"
        using Cons.prems(2) by simp
      ultimately show False using Cons.prems(3,4) unfolding zero_extended_def by blast
    qed
    moreover have "\<not> zero_extended (all_entries bs)"
      using Cons.prems(3) by (auto simp: zero_extended_def)
    ultimately show ?thesis
      using Cons.IH [OF parts(1) _ _ k] Cons.prems(2) by (simp add: block_of_def)
  qed
qed simp

lemma lookup_default: "lookup DefaultCmp key kvs = map_of kvs key"
  by (induction kvs) (auto simp: lookup_def)

lemma get_result_default:
  assumes sep: "separated DefaultCmp blocks" and ne: "\<forall>b \<in> set blocks. db_entries b \<noteq> []"
    and zero: "\<not> zero_extended (all_entries blocks)"
  shows "get_result DefaultCmp key blocks = map_of (all_entries blocks) key"
proof (cases "key \<in> fst ` set (all_entries blocks)")
  case True
  from block_of_stored [OF assms True] obtain b where
    b: "block_of DefaultCmp key blocks = Some b" "cmp DefaultCmp (db_sep b) key = Greater" by blast
  then have "lookup DefaultCmp key (all_entries blocks) = lookup DefaultCmp key (db_entries b)"
    using default_cmp.lookup_block_of [OF sep, of key] by (simp del: cmp_default_eq)
  with b default_cmp.get_result_block_of [OF sep ne, of key] show ?thesis by (simp add: lookup_default)
next
  case False
  then have "map_of (all_entries blocks) key = None" by (simp add: map_of_eq_None_iff)
  then show ?thesis by (simp add: get_result_def lookup_default)
qed

text \<open>Nothing lies between a key and the key followed by a zero byte.\<close>

lemma zero_successor:
  assumes "slice_cmp a x = Less"
  shows "slice_cmp (a @ [0]) x \<noteq> Greater"
  using assms
proof (cases rule: slice_cmp_LessE)
  case (extend v)
  then show ?thesis using append_zero_upto [of v a] by simp
next
  case (diverge p x u y v)
  then show ?thesis by simp
qed

lemma ascending_distinct:
  assumes "comparator C" "ascending C ks"
  shows "distinct ks"
  using assms(2) comparator.cmp_less_irrefl [OF assms(1)] unfolding ascending_def
  by (induction ks) auto

lemma separated_earlier:
  assumes C: "comparator C" and sep: "separated C blocks" and ij: "i < j" "j < length blocks"
    and k: "k \<in> db_keys (blocks ! i)" and s: "k' \<in> db_keys (blocks ! j)"
  shows "cmp C k (db_sep (blocks ! i)) = Less" "sep_before C (blocks ! i) k'" "cmp C k k' = Less"
proof -
  show 1: "cmp C k (db_sep (blocks ! i)) = Less" using sep ij k by (auto simp: separated_def)
  show 2: "sep_before C (blocks ! i) k'"
    using sep ij s sorted_wrt_nth_less [OF _ ij] unfolding separated_def by blast
  show "cmp C k k' = Less"
    by (rule comparator.cmp_less_le_trans [OF C 1 comparator.sep_before_upto [OF C 2]])
qed

lemma separated_unique:
  assumes C: "comparator C" and sep: "separated C blocks" and ij: "i < length blocks" "j < length blocks"
    and k: "k \<in> db_keys (blocks ! i)" "k \<in> db_keys (blocks ! j)"
  shows "i = j"
  using separated_earlier(3) [OF C sep _ ij(1) k(2,1)] separated_earlier(3) [OF C sep _ ij(2) k]
    comparator.cmp_less_irrefl [OF C] by (metis linorder_neqE_nat)

text \<open>Among stored keys, the separators are the keys that extend the last key of the block before
  theirs by a zero byte.\<close>

definition after_boundary :: "bytes \<Rightarrow> data_block list \<Rightarrow> bool" where
  "after_boundary key blocks \<longleftrightarrow>
     (\<exists>i. Suc i < length blocks \<and> key = fst (last (db_entries (blocks ! i))) @ [0])"

lemma stored_separator_iff:
  assumes sep: "separated DefaultCmp blocks" and ne: "\<forall>b \<in> set blocks. db_entries b \<noteq> []"
    and asc: "ascending DefaultCmp (map fst (all_entries blocks))" and key: "key \<in> fst ` set (all_entries blocks)"
  shows "(\<exists>b \<in> set blocks. db_sep b = key) \<longleftrightarrow> after_boundary key blocks"
proof -
  note C = default_cmp.comparator_axioms
  obtain j where j: "j < length blocks" "key \<in> db_keys (blocks ! j)"
    using key unfolding all_entries_set image_UN by (metis UN_E in_set_conv_nth)
  have last: "fst (last (db_entries (blocks ! i))) \<in> db_keys (blocks ! i)" if "i < length blocks" for i
    using ne that by simp
  have below: "cmp DefaultCmp k (db_sep (blocks ! i)) = Less" if "i < length blocks" "k \<in> db_keys (blocks ! i)" for i k
    using sep that nth_mem unfolding separated_def by blast
  have "after_boundary key blocks" if b: "b \<in> set blocks" "db_sep b = key" for b
  proof -
    obtain i where i: "i < length blocks" "b = blocks ! i" using b(1) by (auto simp: in_set_conv_nth)
    have "i < j"
    proof (rule ccontr)
      assume "\<not> i < j"
      then have "cmp DefaultCmp key (fst (last (db_entries b))) \<noteq> Greater \<or> j = i"
        using separated_earlier(3) [OF C sep _ i(1) j(2) last [OF i(1)]] i(2) by (cases "j = i") simp_all
      moreover have "cmp DefaultCmp (fst (last (db_entries b))) key = Less"
        using below [OF i(1) last [OF i(1)]] i(2) b(2) by simp
      moreover have "cmp DefaultCmp key key = Less" if "j = i" using below [OF j] that b(2) i(2) by simp
      ultimately show False using default_cmp.cmp_swap default_cmp.cmp_less_irrefl by blast
    qed
    with sep_before_default [OF separated_earlier(2) [OF C sep _ j(1) last [OF i(1)] j(2)]] b i j ne
    show ?thesis by (force simp: after_boundary_def default_cmp.cmp_refl)
  qed
  moreover have "\<exists>b \<in> set blocks. db_sep b = key" if "after_boundary key blocks"
  proof -
    obtain i where i: "Suc i < length blocks" "key = fst (last (db_entries (blocks ! i))) @ [0]"
      using \<open>after_boundary key blocks\<close> by (auto simp: after_boundary_def)
    then have il: "i < length blocks" by simp
    have above: "cmp DefaultCmp (fst (last (db_entries (blocks ! i)))) key = Less"
      using append_zero_upto i(2) by (simp add: DefaultCmp_def)
    have "i < j"
    proof (rule ccontr)
      assume "\<not> i < j"
      then have "cmp DefaultCmp key (fst (last (db_entries (blocks ! i)))) \<noteq> Greater"
      proof (cases "j = i")
        case True
        have "ascending DefaultCmp (map fst (db_entries (blocks ! i)))"
          using asc il by (auto intro: ascending_all_entries)
        then show ?thesis using j(2) True ne il
          by (cases "db_entries (blocks ! i)" rule: rev_cases)
            (auto simp: ascending_def sorted_wrt_append default_cmp.cmp_refl)
      next
        case False
        then show ?thesis using separated_earlier(3) [OF C sep _ il j(2) last [OF il]] \<open>\<not> i < j\<close> by simp
      qed
      then show False using above default_cmp.cmp_swap by blast
    qed
    then obtain x where x: "slice_cmp (fst (last (db_entries (blocks ! i)))) x = Less"
      "DefaultCmp_find_shortest_sep (fst (last (db_entries (blocks ! i)))) x = Some (db_sep (blocks ! i))"
      "slice_cmp x key \<noteq> Greater"
      using separated_earlier(2) [OF C sep _ j(1) last [OF il] j(2)] by (auto simp: sep_before_def DefaultCmp_def)
    then have "x = key"
      using zero_successor [OF x(1)] i(2) default_cmp.cmp_swap [of x key]
      by (cases "slice_cmp x key") (auto simp: DefaultCmp_def)
    then have "db_sep (blocks ! i) = key" using find_shortest_sep_between [OF x(1)] x(2) i(2) by auto
    then show ?thesis using il by auto
  qed
  ultimately show ?thesis by blast
qed

lemma get_result_stored:
  assumes "separated DefaultCmp blocks" "\<forall>b \<in> set blocks. db_entries b \<noteq> []"
    and "ascending DefaultCmp (map fst (all_entries blocks))"
  shows "get_result DefaultCmp key blocks =
    (if after_boundary key blocks then None else map_of (all_entries blocks) key)"
proof (cases "key \<in> fst ` set (all_entries blocks)")
  case True
  then show ?thesis using stored_separator_iff [OF assms True] by (simp add: get_result_def lookup_default)
next
  case False
  then have "map_of (all_entries blocks) key = None" by (simp add: map_of_eq_None_iff)
  then show ?thesis by (simp add: get_result_def lookup_default)
qed

section \<open>A freshly opened table\<close>

text \<open>The run that builds a table in memory and opens it with a cache of its own.\<close>

definition open_new :: "deps \<Rightarrow> Options \<Rightarrow> nat \<Rightarrow> (bytes \<times> bytes) list \<Rightarrow> ((Status + Table) \<times> block_cache) run" where
  "open_new D opt cap kvs =
     do {
       cache \<leftarrow> Cache_new cap;
       r \<leftarrow> build_file D opt kvs;
       case r of
         Inl e \<Rightarrow> Some (Inl e, cache)
       | Inr data \<Rightarrow> open_file D opt data cache
     }"

definition opened_with ::
  "deps \<Rightarrow> Options \<Rightarrow> nat \<Rightarrow> (bytes \<times> bytes) list \<Rightarrow> data_block list \<Rightarrow> Table \<Rightarrow> block_cache \<Rightarrow> bool" where
  "opened_with D opt cap kvs blocks t c \<longleftrightarrow>
     (\<exists>data fs. table_view D opt data blocks fs t) \<and> all_entries blocks = kvs \<and>
     cache_inv D cap 1 {(t, blocks)} c"

text \<open>The reader must agree with the builder on the comparator and the filter policy, not on the rest of
  the options.\<close>

lemma open_written:
  assumes D: "third_party_laws D" and C: "short_comparator (opt_cmp opt)" and fits: "table_fits opt kvs"
    and cap: "0 < cap" "cap < 2 ^ 64"
    and same: "opt_cmp ropt = opt_cmp opt" "opt_filter_policy ropt = opt_filter_policy opt"
  shows "\<exists>tbl cache t c blocks. build_file D opt kvs = Some (Inr tbl) \<and> Cache_new cap = Some cache \<and>
    open_file D ropt tbl cache = Some (Inr t, c) \<and> opened_with D ropt cap kvs blocks t c \<and>
    blocks = table_blocks D opt kvs \<and> cache_holds cap 1 c [] \<and> reference_parts D opt kvs t"
proof -
  obtain c0 where c0: "Cache_new cap = Some (c0 :: block_cache)" "cache_inv D cap 0 {} c0"
    using cache_inv_new [OF cap] by blast
  obtain c1 :: block_cache where "Cache_new cap = Some c1" "cache_is c1 []" "ca_cap c1 = cap"
    using Cache_new_is [OF cap(1)] by blast
  then have "cache_is c0 []" "ca_cap c0 = cap" using c0(1) by simp_all
  then have empty: "cache_holds cap 1 (c0\<lparr>ca_id := 0 + 1\<rparr>) []"
    using cap(2) by (simp add: cache_holds_def cache_is_id)
  have id: "ca_id c0 = 0" using c0(2) by (rule cache_inv_id)
  then have "unat (ca_id c0) + 1 < 2 ^ 64" by simp
  from build_open [OF D C fits same this] id obtain data t blocks fs where
    t: "build_file D opt kvs = Some (Inr data)"
      "open_file D ropt data c0 = Some (Inr t, c0\<lparr>ca_id := 0 + 1\<rparr>)"
      "table_view D ropt data blocks fs t" "tab_cache_id t = 0 + 1" "all_entries blocks = kvs"
      "blocks = table_blocks D opt kvs" "reference_parts D opt kvs t"
    by auto
  have "(\<forall>b \<in> set blocks. handle_ok (db_handle b)) \<and> distinct (map (\<lambda>b. bh_offset (db_handle b)) blocks)"
    by (rule table_view_handles [OF t(3)])
  then have "cache_inv D cap (0 + 1) {(t, blocks)} (c0\<lparr>ca_id := 0 + 1\<rparr>)"
    using integer_codec.cache_inv_open [OF third_party_laws.axioms(1) [OF D] c0(2) _ t(4)] by simp
  then have "opened_with D ropt cap kvs blocks t (c0\<lparr>ca_id := 0 + 1\<rparr>)"
    using t(3,5) by (auto simp: opened_with_def)
  with c0(1) t empty show ?thesis by blast
qed

lemma open_new_opened:
  assumes D: "third_party_laws D" and C: "short_comparator (opt_cmp opt)" and fits: "table_fits opt kvs"
    and cap: "0 < cap" "cap < 2 ^ 64"
  shows "\<exists>t c blocks. open_new D opt cap kvs = Some (Inr t, c) \<and> opened_with D opt cap kvs blocks t c \<and>
    blocks = table_blocks D opt kvs \<and> cache_holds cap 1 c [] \<and> reference_parts D opt kvs t"
  using open_written [OF assms refl refl] by (fastforce simp: open_new_def)

lemma opened_reader:
  "third_party_laws D \<Longrightarrow> short_comparator C \<Longrightarrow> table_reader D C"
  by (simp add: table_reader_def short_comparator_def)

lemma opened_reading:
  assumes D: "third_party_laws D" and C: "short_comparator (opt_cmp opt)"
    and at: "opened_with D opt cap kvs blocks t c"
  shows "reading D (opt_cmp opt) cap 1 {(t, blocks)} blocks t c"
  using assms opened_reader [OF D C] by (auto simp: opened_with_def reading_def)

lemma opened_get:
  assumes D: "third_party_laws D" and C: "short_comparator (opt_cmp opt)"
    and at: "opened_with D opt cap kvs blocks t c"
    and P: "nonempty_filter_policy (opt_filter_policy opt)"
    and exact: "\<forall>k. cmp (opt_cmp opt) k key = Equal \<longrightarrow> k = key" and key: "length key < 2 ^ 32"
  shows "\<exists>c'. Table_get D t key c = Some (Inr (get_result (opt_cmp opt) key blocks), c') \<and>
    opened_with D opt cap kvs blocks t c'"
proof -
  obtain data fs where view: "table_view D opt data blocks fs t" and inv: "cache_inv D cap 1 {(t, blocks)} c"
    using at by (auto simp: opened_with_def)
  from table_reader.Table_get_inv [OF opened_reader [OF D C] view refl P exact key _ inv]
  show ?thesis using at view by (auto simp: opened_with_def)
qed

lemma opened_iter:
  assumes D: "third_party_laws D" and C: "short_comparator (opt_cmp opt)"
    and at: "opened_with D opt cap kvs blocks t c"
  shows "\<exists>it. Table_iter D t = Some it \<and> ti_table it = t \<and>
    table_at D (opt_cmp opt) cap 1 {(t, blocks)} blocks kvs None (it, c)"
proof -
  obtain data fs where view: "table_view D opt data blocks fs t" and kvs: "all_entries blocks = kvs"
    using at by (auto simp: opened_with_def)
  from table_reader.index_iter [OF opened_reader [OF D C] view refl] obtain ix where
    "Block_iter D (tab_index_block t) = Some ix"
    "block_at D (opt_cmp opt) (index_entries D blocks) None ix" by blast
  then show ?thesis
    using opened_reading [OF assms] kvs by (simp add: Table_iter_def table_at_none before_blocks_def)
qed

lemma opened_blocks:
  assumes D: "third_party_laws D" and C: "short_comparator (opt_cmp opt)"
    and at: "opened_with D opt cap kvs blocks t c"
  shows "separated (opt_cmp opt) blocks" "\<forall>b \<in> set blocks. db_entries b \<noteq> []" "all_entries blocks = kvs"
    "ascending (opt_cmp opt) (map fst kvs)"
  using reading_blocks [OF opened_reading [OF assms]] at by (auto simp: opened_with_def)

section \<open>Steps of an iterator\<close>

lemma next_step:
  assumes "table_at D C cap cid T bs es p it"
  shows "\<exists>it'. SSIterator_next (TableIterator_advance D) TableIterator_current it =
      Some (if next_pos p < length es then Some (es ! next_pos p) else None, it') \<and>
    table_at D C cap cid T bs es (if next_pos p < length es then Some (next_pos p) else None) it'"
  using table_iterator.next_inside [OF assms] table_iterator.next_end [OF assms]
  by (cases "next_pos p < length es") auto

lemma current_step:
  assumes "table_at D C cap cid T bs es p it"
  shows "current_key_val TableIterator_current it = Some (map_option (\<lambda>i. es ! i) p)"
  using assms table_iterator.current_key_val_at table_iterator.current_key_val_none
  by (cases p) auto

lemma seek_step:
  assumes at: "table_at D DefaultCmp cap cid T bs (all_entries bs) p (self, c)"
    and zero: "\<not> zero_extended (all_entries bs)" and k: "k \<in> fst ` set (all_entries bs)"
  shows "\<exists>it'. TableIterator_seek D (self, c) k = Some it' \<and>
    table_at D DefaultCmp cap cid T bs (all_entries bs) (seek_pos DefaultCmp k (all_entries bs)) it'"
proof -
  have rd: "reading D DefaultCmp cap cid T bs (ti_table self) c" using at by (simp add: table_at_def)
  have "\<exists>q. block_at D DefaultCmp (index_entries D bs) q (ti_index_block self)"
    using at by (cases p) (auto simp: table_at_def before_blocks_def in_block_def)
  then obtain q where q: "block_at D DefaultCmp (index_entries D bs) q (ti_index_block self)" by blast
  obtain b where b: "block_of DefaultCmp k bs = Some b" "k \<in> db_keys b"
    using block_of_stored [OF reading_blocks(4) [OF rd] _ zero k] reading_blocks(1) [OF rd] by blast
  have "\<not> seek_gap DefaultCmp k bs"
  proof
    assume "seek_gap DefaultCmp k bs"
    then have "cmp DefaultCmp k k = Less" using b by (auto simp: seek_gap_def)
    then show False by (simp add: default_cmp.cmp_less_irrefl)
  qed
  then show ?thesis by (rule table_seek [OF rd q])
qed

lemma reset_step:
  assumes "table_at D C cap cid T bs es p it"
  shows "table_at D C cap cid T bs es None (TableIterator_reset it)"
  using assms by (rule table_iterator.at_reset)

lemma prev_step:
  assumes "table_at D C cap cid T bs es (Some (Suc n)) it"
  shows "\<exists>it'. TableIterator_prev D it = Some (True, it') \<and> table_at D C cap cid T bs es (Some n) it'"
  using assms table_prev_inside by (cases it) blast

section \<open>Seeking and stepping back\<close>

lemma seek_step_at:
  assumes at: "table_at D DefaultCmp cap cid T bs es p it" and zero: "\<not> zero_extended es" and i: "i < length es"
  shows "\<exists>it'. TableIterator_seek D it (fst (es ! i)) = Some it' \<and>
    table_at D DefaultCmp cap cid T bs es (Some i) it'"
proof -
  obtain self c where it: "it = (self, c)" by (cases it)
  have es: "es = all_entries bs" and rd: "reading D DefaultCmp cap cid T bs (ti_table self) c"
    using at by (simp_all add: table_at_def it)
  have "fst (es ! i) \<in> fst ` set (all_entries bs)" using i es by simp
  from seek_step [OF at [unfolded it es] zero [unfolded es] this]
  show ?thesis using default_cmp.seek_pos_stored [OF reading_blocks(2) [OF rd]] i by (simp add: it es)
qed

lemma current_key_step:
  assumes "table_at D C cap cid T bs es (Some n) it"
  shows "TableIterator_current_key it = Some (fst (es ! n))"
proof -
  obtain self c where it: "it = (self, c)" by (cases it)
  have cur: "TableIterator_current it [] [] = Some (True, fst (es ! n), snd (es ! n))"
    by (rule table_iterator.current_at [OF assms])
  then obtain cb where cb: "ti_current_block self = Some cb"
    by (cases "ti_current_block self") (simp_all add: it)
  with cur have "BlockIter_current cb [] [] = Some (True, fst (es ! n), snd (es ! n))" by (simp add: it)
  from current_key_current [OF this] cb show ?thesis by (simp add: it)
qed

interpretation table_seeks: stored_seek_iterator "TableIterator_advance D" TableIterator_current
  TableIterator_reset TableIterator_valid
  "\<lambda>es p it. table_at D DefaultCmp cap cid T blocks es p it \<and> \<not> zero_extended es"
  TableIterator_current_key "TableIterator_seek D" "TableIterator_prev D" for D cap cid T blocks
proof (unfold_locales, goal_cases)
  case (1 es p it)
  then show ?case using table_iterator.advance_inside by blast
next
  case (2 es p it)
  then show ?case using table_iterator.advance_end by blast
next
  case (3 es i it k v)
  then show ?case using table_iterator.current_at by blast
next
  case (4 es it k v)
  then show ?case using table_iterator.current_none by blast
next
  case (5 es i it)
  then show ?case using table_iterator.at_bounds by blast
next
  case (6 es p it)
  then show ?case using table_iterator.valid_iff by blast
next
  case (7 es p it)
  then show ?case using table_iterator.at_reset by blast
next
  case (8 es i it)
  then show ?case using current_key_step by blast
next
  case (9 es p it i)
  then show ?case using seek_step_at by blast
next
  case (10 es i it)
  then show ?case by (cases it) (metis table_prev_inside)
next
  case (11 es it)
  obtain self c where it: "it = (self, c)" by (cases it)
  from 11 have "table_at D DefaultCmp cap cid T blocks es (Some 0) (self, c)" by (simp add: it)
  from table_prev_first [OF this] show ?case
    using block_iter.valid_iff by (fastforce simp: it before_first_def)
qed

end
