(* ===== verification/SST_TableThms.thy ===== *)
theory SST_TableThms
  imports SST_TableProps
begin

text \<open>The properties of a table, from the builder's input to what a reader sees of it.\<close>

section \<open>Tables with the default options\<close>

lemma bloom_fits:
  assumes "opt_filter_policy opt = BloomPolicy_new D bits" "table_options opt"
    and "ascending (opt_cmp opt) (map fst kvs)" "[] \<notin> fst ` set kvs" "\<forall>k \<in> fst ` set kvs. length k < 2 ^ 32"
    and "length kvs * unat bits < 2 ^ 31" "table_weight kvs < 2 ^ 30"
    and "table_size_bound opt (unat bits + 9) (table_weight kvs) < 2 ^ 29"
  shows "table_fits opt kvs"
  using assms bloom_creates [of "fst ` set kvs" "length kvs" bits D] bloom_growth [of D bits]
  by (auto simp: table_fits_def table_input_def)

definition small_opt :: Options where
  "small_opt = (Options_default reference_deps)\<lparr>block_size := 8\<rparr>"

lemma small_opt_simps [simp]:
  "opt_cmp small_opt = DefaultCmp" "block_size small_opt = 8" "block_restart_interval small_opt = 16"
  "opt_filter_policy small_opt = BloomPolicy_new reference_deps 10"
  by (simp_all add: small_opt_def Options_default_def DEFAULT_BITS_PER_KEY_def)

lemma small_short: "short_comparator (opt_cmp small_opt)"
  by (simp add: default_cmp.short_comparator_axioms)

lemma small_policy: "nonempty_filter_policy (opt_filter_policy small_opt)"
  by (simp add: bloom.nonempty_filter_policy_axioms)

lemma small_options: "table_options small_opt"
  by (simp add: table_options_def BloomPolicy_new_def)

lemma small_fits:
  assumes "ascending DefaultCmp (map fst kvs)" "[] \<notin> fst ` set kvs" "\<forall>k \<in> fst ` set kvs. length k < 2 ^ 32"
    and "length kvs < 1000" "table_weight kvs < 1000000"
  shows "table_fits small_opt kvs"
  using assms
  by (intro bloom_fits [of _ reference_deps 10])
    (simp_all add: small_options table_size_bound_def BloomPolicy_new_def)

lemma sample_fits: "table_fits small_opt sample_kvs"
  by (rule small_fits)
    (simp_all add: sample_kvs_def ascending_def DefaultCmp_def entry_weight_def)

lemma sample_exact: "\<forall>k. cmp (opt_cmp small_opt) k key = Equal \<longrightarrow> k = key"
  by simp

section \<open>Building\<close>

text \<open>C11: Building a table in memory from ascending entries within the limits never panics or fails, and
  the file is at most linear in the size of the entries.\<close>

theorem table_build_total:
  assumes "third_party_laws D" "short_comparator (opt_cmp opt)" "table_input opt kvs"
    and "filter_growth (opt_filter_policy opt) c"
  shows "\<exists>file. build_file D opt kvs = Some (Inr file) \<and>
    length file \<le> table_size_bound opt c (table_weight kvs)"
  using build_file_table [OF assms(1-3)] assms(4) by blast

theorem table_build_total_witness:
  "\<exists>file. build_file reference_deps small_opt sample_kvs = Some (Inr file) \<and>
    length file \<le> table_size_bound small_opt 19 (table_weight sample_kvs)"
  using table_build_total [OF ref_deps.third_party_laws_axioms small_short, of sample_kvs 19]
    sample_fits bloom_growth [of reference_deps 10]
  by (simp add: table_fits_def)

text \<open>C3: The file that the builder writes, one entry at a time and to any destination that accepts everything,
  is byte for byte the reference file of the entries: the same blocks with the same prefix compression,
  separators, handles, filters, index, metaindex and footer.\<close>

theorem table_build_reference:
  assumes "third_party_laws D" "short_comparator (opt_cmp opt)" "table_input opt kvs"
    and "append_writer D W out" "out dst = []"
  shows "\<exists>self. build_table D W opt dst kvs = Some (Inr (length (ref_file D opt kvs)), self) \<and>
    out (tb_dst self) = ref_file D opt kvs"
proof -
  have "table_env D W out (opt_cmp opt)"
    using assms(1,2,4) by (simp add: table_env_def table_writer_def third_party_laws_def)
  from table_env.build_table_file [OF this refl assms(3,5)] show ?thesis by force
qed

theorem table_build_reference_witness:
  "\<exists>self. build_table reference_deps (vec_write reference_deps) small_opt [] sample_kvs =
      Some (Inr (length (ref_file reference_deps small_opt sample_kvs)), self) \<and>
    tb_dst self = ref_file reference_deps small_opt sample_kvs"
  using table_build_reference [OF ref_deps.third_party_laws_axioms small_short _ vec_writer.append_writer_axioms refl]
    sample_fits by (simp add: table_fits_def)

section \<open>Lookups\<close>

text \<open>C4: In a table that was built from entries and opened again, \<open>get\<close> finds exactly the stored
  value of every key, when no stored key is another one followed by a zero byte; with the
  default comparator.\<close>

theorem table_get_map_of:
  assumes "third_party_laws D" "opt_cmp opt = DefaultCmp" "table_fits opt kvs" "\<not> zero_extended kvs"
    and "nonempty_filter_policy (opt_filter_policy opt)" "0 < cap" "cap < 2 ^ 64" "length key < 2 ^ 32"
  shows "\<exists>t c c'. open_new D opt cap kvs = Some (Inr t, c) \<and>
    Table_get D t key c = Some (Inr (map_of kvs key), c')"
proof -
  have C: "short_comparator (opt_cmp opt)" using assms(2) default_cmp.short_comparator_axioms by simp
  obtain t c blocks where t: "open_new D opt cap kvs = Some (Inr t, c)" "opened_with D opt cap kvs blocks t c"
    using open_new_opened [OF assms(1) C assms(3,6,7)] by blast
  note b = opened_blocks [OF assms(1) C t(2), unfolded assms(2)]
  have "get_result DefaultCmp key blocks = map_of kvs key"
    using get_result_default [OF b(1,2), of key] b(3) assms(4) by simp
  with opened_get [OF assms(1) C t(2) assms(5) _ assms(8)] t(1) assms(2) show ?thesis by fastforce
qed

theorem table_get_map_of_witness:
  "\<exists>t c c'. open_new reference_deps small_opt 2 sample_kvs = Some (Inr t, c) \<and>
    Table_get reference_deps t [1, 3] c = Some (Inr (Some [8, 9]), c')"
  using table_get_map_of [OF ref_deps.third_party_laws_axioms _ sample_fits, of 2 "[1, 3]"] small_policy
  by (simp add: zero_extended_def sample_kvs_def)

text \<open>For any comparator, \<open>get\<close> finds a stored key unless it is itself a separator of the index:
  then it returns nothing. It never panics.\<close>

lemma table_get_unless_separator:
  assumes "third_party_laws D" "short_comparator (opt_cmp opt)" "table_fits opt kvs"
    and "nonempty_filter_policy (opt_filter_policy opt)" "0 < cap" "cap < 2 ^ 64"
    and "\<forall>a b. cmp (opt_cmp opt) a b = Equal \<longrightarrow> a = b"
  shows "\<exists>t c seps. open_new D opt cap kvs = Some (Inr t, c) \<and>
    (\<forall>key. length key < 2 ^ 32 \<longrightarrow>
       (\<exists>c'. Table_get D t key c =
          Some (Inr (if key \<in> seps then None else lookup (opt_cmp opt) key kvs), c')))"
proof -
  obtain t c blocks where t: "open_new D opt cap kvs = Some (Inr t, c)" "opened_with D opt cap kvs blocks t c"
    using open_new_opened [OF assms(1,2,3,5,6)] by blast
  have kvs: "all_entries blocks = kvs" using t(2) by (simp add: opened_with_def)
  have refl: "cmp (opt_cmp opt) key key = Equal" for key
    using assms(2) by (simp add: short_comparator_def comparator.cmp_refl)
  then have "get_result (opt_cmp opt) key blocks =
      (if key \<in> db_sep ` set blocks then None else lookup (opt_cmp opt) key kvs)" for key
    using assms(7) kvs by (auto simp: get_result_def)
  with opened_get [OF assms(1,2) t(2) assms(4)] assms(7) t(1) show ?thesis
    by (intro exI [of _ t] exI [of _ c] exI [of _ "db_sep ` set blocks"]) fastforce
qed

text \<open>With the smallest block size, the blocks are the single entries.\<close>

lemma ref_cut_single:
  assumes D: "integer_codec D" and opt: "block_size opt = 8"
  shows "ref_cut D opt [e] kvs = map (\<lambda>e. [e]) (e # kvs)"
proof (induction kvs arbitrary: e)
  case (Cons e' kvs)
  show ?case using ref_block_size [OF D, of "[e]" opt] Cons [of e'] opt by simp
qed simp

lemma small_two_entries:
  "map db_entries (table_blocks reference_deps small_opt [e1, e2]) = [[e1], [e2]]"
  using ref_cut_single [OF ref_deps.integer_codec_axioms, of small_opt e1 "[e2]"]
  by (simp add: ref_block_Nil [OF ref_deps.integer_codec_axioms])

lemma small_two:
  assumes "table_fits small_opt [e1, e2]"
  shows "\<exists>t c b1 b2. open_new reference_deps small_opt 2 [e1, e2] = Some (Inr t, c) \<and>
    opened_with reference_deps small_opt 2 [e1, e2] [b1, b2] t c \<and>
    table_blocks reference_deps small_opt [e1, e2] = [b1, b2] \<and>
    db_entries b1 = [e1] \<and> db_entries b2 = [e2] \<and>
    DefaultCmp_find_shortest_sep (fst e1) (fst e2) = Some (db_sep b1)"
proof -
  obtain t c blocks where t: "open_new reference_deps small_opt 2 [e1, e2] = Some (Inr t, c)"
    "opened_with reference_deps small_opt 2 [e1, e2] blocks t c"
    "blocks = table_blocks reference_deps small_opt [e1, e2]"
    using open_new_opened [OF ref_deps.third_party_laws_axioms small_short assms, of 2] by auto
  then have "map db_entries blocks = [[e1], [e2]]" by (simp only: small_two_entries)
  then obtain b1 b2 where b: "blocks = [b1, b2]" "db_entries b1 = [e1]" "db_entries b2 = [e2]"
    by (auto simp: map_eq_Cons_conv)
  have "seps_made DefaultCmp blocks"
    using t(2) by (auto simp: opened_with_def table_view_def data_blocks_def)
  then have "DefaultCmp_find_shortest_sep (fst e1) (fst e2) = Some (db_sep b1)"
    unfolding b(1) using b(2,3) by (simp add: seps_made_def sep_made_def DefaultCmp_def)
  with t b show ?thesis by (intro exI [of _ t] exI [of _ c] exI [of _ b1] exI [of _ b2]) simp
qed

text \<open>C32: With the default comparator and a policy whose filters are not empty, \<open>get\<close> finds the value of every stored key but one kind: a key that
  is the last key of a data block followed by a zero byte, when another block comes after that block. Such
  a key equals the separator between the two blocks, and \<open>get\<close> misses it although it is stored. For a key
  that is not stored it returns nothing. Keys are shorter than \<open>2 ^ 32\<close> bytes.\<close>

theorem table_get_misses_after_boundary:
  assumes "third_party_laws D" "opt_cmp opt = DefaultCmp" "table_fits opt kvs"
    and "nonempty_filter_policy (opt_filter_policy opt)" "0 < cap" "cap < 2 ^ 64" "length key < 2 ^ 32"
  shows "\<exists>t c c'. open_new D opt cap kvs = Some (Inr t, c) \<and>
    Table_get D t key c =
      Some (Inr (if after_boundary key (table_blocks D opt kvs) then None else map_of kvs key), c')"
proof -
  have C: "short_comparator (opt_cmp opt)" using assms(2) default_cmp.short_comparator_axioms by simp
  obtain t c where t: "open_new D opt cap kvs = Some (Inr t, c)"
    "opened_with D opt cap kvs (table_blocks D opt kvs) t c"
    using open_new_opened [OF assms(1) C assms(3,5,6)] by blast
  note b = opened_blocks [OF assms(1) C t(2), unfolded assms(2)]
  have "get_result DefaultCmp key (table_blocks D opt kvs) =
      (if after_boundary key (table_blocks D opt kvs) then None else map_of kvs key)"
    using get_result_stored [OF b(1,2), of key] b(3,4) by simp
  with opened_get [OF assms(1) C t(2) assms(4) _ assms(7)] t(1) assms(2) show ?thesis by fastforce
qed

lemma extended_fits: "table_fits small_opt [([97], [1]), ([97, 0], [2])]"
  by (rule small_fits) (simp_all add: ascending_def DefaultCmp_def entry_weight_def)

theorem table_get_misses_after_boundary_witness:
  "(\<exists>t c c'. open_new reference_deps small_opt 2 [([97], [1]), ([97, 0], [2])] = Some (Inr t, c) \<and>
    Table_get reference_deps t [97, 0] c = Some (Inr None, c')) \<and>
   (\<exists>t c c'. open_new reference_deps small_opt 2 [([97], [1]), ([97, 0], [2])] = Some (Inr t, c) \<and>
    Table_get reference_deps t [97] c = Some (Inr (Some [1]), c'))"
proof -
  let ?blocks = "table_blocks reference_deps small_opt [([97], [1]), ([97, 0], [2])]"
  obtain b1 b2 where b: "?blocks = [b1, b2]" "db_entries b1 = [([97], [1])]" "db_entries b2 = [([97, 0], [2])]"
    using small_two_entries [of "([97], [1])" "([97, 0], [2])"]
    by (auto simp: map_eq_Cons_conv simp del: table_blocks_entries)
  have "after_boundary [97, 0] ?blocks" "\<not> after_boundary [97] ?blocks"
    by (auto simp: b after_boundary_def intro: exI [of _ 0])
  with table_get_misses_after_boundary [OF ref_deps.third_party_laws_axioms _ extended_fits small_policy, of 2 "[97, 0]"]
    table_get_misses_after_boundary [OF ref_deps.third_party_laws_axioms _ extended_fits small_policy, of 2 "[97]"]
  show ?thesis by simp
qed

text \<open>C35: With the policy without a filter every lookup of a stored key panics: the filter block holds
  empty filters, and its reader asserts that a filter is not empty.\<close>

theorem no_filter_get_panics:
  assumes "third_party_laws D" "opt_cmp opt = DefaultCmp" "opt_filter_policy opt = NoFilterPolicy"
    and "table_fits opt kvs" "\<not> zero_extended kvs" "0 < cap" "cap < 2 ^ 64" "key \<in> fst ` set kvs"
  shows "\<exists>t c. open_new D opt cap kvs = Some (Inr t, c) \<and> Table_get D t key c = None"
proof -
  have C: "short_comparator (opt_cmp opt)" using assms(2) default_cmp.short_comparator_axioms by simp
  obtain t c blocks where t: "open_new D opt cap kvs = Some (Inr t, c)" "opened_with D opt cap kvs blocks t c"
    using open_new_opened [OF assms(1) C assms(4,6,7)] by blast
  note b = opened_blocks [OF assms(1) C t(2), unfolded assms(2)]
  obtain data fs where view: "table_view D opt data blocks fs t" using t(2) by (auto simp: opened_with_def)
  have tr: "table_reader D DefaultCmp" using opened_reader [OF assms(1) C] assms(2) by simp
  note v = table_reader.view_blocks [OF tr view assms(2)]
  obtain blk where blk: "block_of DefaultCmp key blocks = Some blk" "key \<in> db_keys blk"
    "cmp DefaultCmp (db_sep blk) key = Greater"
    using block_of_stored [OF b(1,2)] assms(5,8) b(3) by blast
  have handle: "Table_get_handle D t key = Some (Some (db_handle blk))"
    using table_reader.Table_get_handle_eq [OF tr view assms(2), of key] blk by simp
  let ?i = "bh_offset (db_handle blk) div 2048"
  obtain groups fb where st: "fbb_state NoFilterPolicy fb fs groups []"
    "recorded fs groups [] (table_records blocks)"
    using v(7) assms(3) by (auto simp: filters_for_def)
  have "(bh_offset (db_handle blk), key) \<in> set (table_records blocks)"
    using blk block_of_mem [OF blk(1)] by (auto simp: table_records_def)
  then have i: "?i < length fs" using recorded_all(1) [OF st(2)] by blast
  have empty: "fs ! ?i = []"
  proof (cases "groups ! ?i = []")
    case True
    then show ?thesis using st(1) i by (simp add: fbb_state_def)
  next
    case False
    then have "create_filter NoFilterPolicy (concat (groups ! ?i)) (offsets_from 0 (groups ! ?i)) = Some (fs ! ?i)"
      using st(1) i by (simp add: fbb_state_def)
    then show ?thesis by (simp add: NoFilterPolicy_def)
  qed
  have len: "length (filter_block_bytes D fs) < 2 ^ 32" using v(8) by simp
  have "FilterBlockReader_key_may_match D (reader_of D NoFilterPolicy fs) (bh_offset (db_handle blk)) key = None"
    using integer_codec.reader_lookup [OF third_party_laws.axioms(1) [OF assms(1)] len i refl] empty by simp
  then have "Table_get D t key c = None"
    using handle v(9) assms(3) by (simp add: Table_get_def)
  then show ?thesis using t(1) by blast
qed

theorem no_filter_get_panics_witness:
  "\<exists>t c. open_new reference_deps (small_opt\<lparr>opt_filter_policy := NoFilterPolicy\<rparr>) 2 sample_kvs = Some (Inr t, c) \<and>
    Table_get reference_deps t [1, 3] c = None"
proof -
  let ?opt = "small_opt\<lparr>opt_filter_policy := NoFilterPolicy\<rparr>"
  have "filter_growth NoFilterPolicy 0" by (simp add: filter_growth_def NoFilterPolicy_def)
  moreover have "table_input ?opt sample_kvs"
    by (simp add: table_input_def no_filter_creates table_options_def sample_kvs_def ascending_def
        DefaultCmp_def entry_weight_def) (simp add: NoFilterPolicy_def)
  moreover have "table_size_bound ?opt 0 (table_weight sample_kvs) < 2 ^ 29"
    by (simp add: table_size_bound_def sample_kvs_def entry_weight_def NoFilterPolicy_def)
  ultimately have "table_fits ?opt sample_kvs" unfolding table_fits_def by auto
  from no_filter_get_panics [OF ref_deps.third_party_laws_axioms _ _ this, of 2 "[1, 3]"] show ?thesis
    by (simp add: zero_extended_def sample_kvs_def)
qed

section \<open>Iteration\<close>

text \<open>C2: The iterator of an opened table yields exactly the entries that the table was built from, in
  order, ends, and then yields them once more; for any comparator.\<close>

theorem table_iteration_round_trip:
  assumes "third_party_laws D" "short_comparator (opt_cmp opt)" "table_fits opt kvs"
    and "0 < cap" "cap < 2 ^ 64"
  shows "\<exists>t c it it' it''. open_new D opt cap kvs = Some (Inr t, c) \<and> Table_iter D t = Some it \<and>
    drain (TableIterator_advance D) TableIterator_current (it, c) = Some (kvs, it') \<and>
    drain (TableIterator_advance D) TableIterator_current it' = Some (kvs, it'')"
proof -
  obtain t c blocks where t: "open_new D opt cap kvs = Some (Inr t, c)" "opened_with D opt cap kvs blocks t c"
    using open_new_opened [OF assms] by blast
  obtain it where it: "Table_iter D t = Some it"
    "table_at D (opt_cmp opt) cap 1 {(t, blocks)} blocks kvs None (it, c)"
    using opened_iter [OF assms(1,2) t(2)] by blast
  from table_iterator.drain_all [OF it(2)] obtain it' where
    it': "drain (TableIterator_advance D) TableIterator_current (it, c) = Some (kvs, it')"
      "table_at D (opt_cmp opt) cap 1 {(t, blocks)} blocks kvs None it'" by blast
  from table_iterator.drain_all [OF it'(2)] t(1) it(1) it'(1) show ?thesis by blast
qed

theorem table_iteration_round_trip_witness:
  "\<exists>t c it it'. open_new reference_deps small_opt 2 sample_kvs = Some (Inr t, c) \<and>
    Table_iter reference_deps t = Some it \<and>
    drain (TableIterator_advance reference_deps) TableIterator_current (it, c) = Some (sample_kvs, it')"
  using table_iteration_round_trip [OF ref_deps.third_party_laws_axioms small_short sample_fits, of 2] by auto

text \<open>C14: A reader does not need the block size, the restart interval or the compression of the builder: if
  its options have the same comparator and filter policy, it sees exactly the entries.\<close>

theorem table_read_with_other_options:
  assumes "third_party_laws D" "short_comparator (opt_cmp opt)" "table_fits opt kvs"
    and "0 < cap" "cap < 2 ^ 64" "opt_cmp ropt = opt_cmp opt" "opt_filter_policy ropt = opt_filter_policy opt"
  shows "\<exists>tbl cache t c it it'. build_file D opt kvs = Some (Inr tbl) \<and> Cache_new cap = Some cache \<and>
    open_file D ropt tbl cache = Some (Inr t, c) \<and> Table_iter D t = Some it \<and>
    drain (TableIterator_advance D) TableIterator_current (it, c) = Some (kvs, it')"
proof -
  have C: "short_comparator (opt_cmp ropt)" using assms(2,6) by simp
  obtain tbl cache t c blocks where t: "build_file D opt kvs = Some (Inr tbl)" "Cache_new cap = Some cache"
    "open_file D ropt tbl cache = Some (Inr t, c)" "opened_with D ropt cap kvs blocks t c"
    using open_written [OF assms] by blast
  obtain it where it: "Table_iter D t = Some it"
    "table_at D (opt_cmp ropt) cap 1 {(t, blocks)} blocks kvs None (it, c)"
    using opened_iter [OF assms(1) C t(4)] by blast
  from table_iterator.drain_all [OF it(2)] t(1-3) it(1) show ?thesis by blast
qed

theorem table_read_with_other_options_witness:
  "\<exists>tbl cache t c it it'. build_file reference_deps small_opt sample_kvs = Some (Inr tbl) \<and>
    Cache_new 2 = Some cache \<and>
    open_file reference_deps
      (small_opt\<lparr>block_size := 4096, block_restart_interval := 16, compression_type := CompressionSnappy\<rparr>)
      tbl cache = Some (Inr t, c) \<and>
    Table_iter reference_deps t = Some it \<and>
    drain (TableIterator_advance reference_deps) TableIterator_current (it, c) = Some (sample_kvs, it')"
  by (rule table_read_with_other_options [OF ref_deps.third_party_laws_axioms small_short sample_fits]) simp_all

text \<open>The positions a client can bring an iterator to from its creation.\<close>

inductive iter_reach :: "deps \<Rightarrow> Table \<Rightarrow> block_cache \<Rightarrow> table_iter \<Rightarrow> bool" for D t c where
  fresh: "Table_iter D t = Some it \<Longrightarrow> iter_reach D t c (it, c)"
| advance: "iter_reach D t c it \<Longrightarrow> TableIterator_advance D it = Some (b, it') \<Longrightarrow> iter_reach D t c it'"
| reset: "iter_reach D t c it \<Longrightarrow> iter_reach D t c (TableIterator_reset it)"
| prev: "iter_reach D t c it \<Longrightarrow> TableIterator_prev D it = Some (True, it') \<Longrightarrow>
    TableIterator_valid it \<Longrightarrow> iter_reach D t c it'"
| seek: "iter_reach D t c it \<Longrightarrow> TableIterator_seek D it k = Some it' \<Longrightarrow>
    TableIterator_valid it' \<Longrightarrow> iter_reach D t c it'"

lemma table_at_index:
  assumes "table_at D C cap cid T blocks es p (self, c)"
  shows "reading D C cap cid T blocks (ti_table self) c"
    "\<exists>q. block_at D C (index_entries D blocks) q (ti_index_block self)"
  using assms by (cases p; auto simp: table_at_def before_blocks_def in_block_def)+

lemma iter_reach_at:
  assumes at: "opened_with D opt cap kvs blocks t c"
    and D: "third_party_laws D" and C: "short_comparator (opt_cmp opt)"
  shows "iter_reach D t c it \<Longrightarrow>
    \<exists>p. table_at D (opt_cmp opt) cap 1 {(t, blocks)} blocks kvs p it"
proof (induction rule: iter_reach.induct)
  case (fresh it)
  then show ?case using opened_iter [OF D C at] by auto
next
  case (advance it b it')
  then obtain p where p: "table_at D (opt_cmp opt) cap 1 {(t, blocks)} blocks kvs p it" by blast
  show ?case
    using table_iterator.advance_inside [OF p] table_iterator.advance_end [OF p] advance.hyps(2)
    by (cases "next_pos p < length kvs") auto
next
  case (reset it)
  then show ?case using table_iterator.at_reset by blast
next
  case (prev it it')
  then obtain p where p: "table_at D (opt_cmp opt) cap 1 {(t, blocks)} blocks kvs p it" by blast
  then obtain n where n: "p = Some n" using table_iterator.valid_iff [OF p] prev.hyps(3) by auto
  obtain self c0 where it: "it = (self, c0)" by (cases it)
  show ?case
  proof (cases n)
    case 0
    then show ?thesis using table_prev_first [OF p [unfolded n 0 it]] prev.hyps(2) it by simp
  next
    case (Suc m)
    then show ?thesis using table_prev_inside [OF p [unfolded n Suc it]] prev.hyps(2) it by auto
  qed
next
  case (seek it k it')
  then obtain p where p: "table_at D (opt_cmp opt) cap 1 {(t, blocks)} blocks kvs p it" by blast
  obtain self c0 where it: "it = (self, c0)" by (cases it)
  obtain q where rd: "reading D (opt_cmp opt) cap 1 {(t, blocks)} blocks (ti_table self) c0"
    and q: "block_at D (opt_cmp opt) (index_entries D blocks) q (ti_index_block self)"
    using table_at_index [OF p [unfolded it]] by blast
  have kvs: "all_entries blocks = kvs" using at by (simp add: opened_with_def)
  show ?case
  proof (cases "seek_gap (opt_cmp opt) k blocks")
    case True
    then show ?thesis using table_seek_gap [OF rd q True] seek.hyps(2,3) it by auto
  next
    case False
    then show ?thesis using table_seek [OF rd q False] seek.hyps(2) it kvs by auto
  qed
qed

lemma open_new_opens:
  assumes "third_party_laws D" "short_comparator (opt_cmp opt)" "table_fits opt kvs" "0 < cap" "cap < 2 ^ 64"
    and "open_new D opt cap kvs = Some (Inr t, c)"
  obtains blocks where "opened_with D opt cap kvs blocks t c"
  using open_new_opened [OF assms(1-5)] assms(6) by auto

lemma reach_cases:
  assumes "third_party_laws D" "short_comparator (opt_cmp opt)" "table_fits opt kvs" "0 < cap" "cap < 2 ^ 64"
    and "open_new D opt cap kvs = Some (Inr t, c)" "iter_reach D t c it"
  obtains blocks p where "opened_with D opt cap kvs blocks t c" "all_entries blocks = kvs"
    "table_at D (opt_cmp opt) cap 1 {(t, blocks)} blocks kvs p it"
proof -
  obtain blocks where at: "opened_with D opt cap kvs blocks t c" by (rule open_new_opens [OF assms(1-6)])
  then have "all_entries blocks = kvs" by (simp add: opened_with_def)
  with iter_reach_at [OF at assms(1,2,7)] at that show thesis by blast
qed

text \<open>Before the first entry of a block, the iterator goes on with the entries of that block.\<close>

lemma current_in_block:
  assumes "in_block D C blocks i None self"
  shows "current_key_val TableIterator_current (self, c) = Some None"
proof -
  obtain cb where "ti_current_block self = Some cb" "block_at D C (db_entries (blocks ! i)) None cb"
    using assms by (auto simp: in_block_def)
  then show ?thesis using block_iter.current_none by (simp add: current_key_val_def)
qed

lemma drain_in_block:
  assumes rd: "reading D C cap cid T blocks (ti_table self) c" and at: "in_block D C blocks i None self"
    and ne: "db_entries (blocks ! i) \<noteq> []"
  shows "\<exists>it'. drain (TableIterator_advance D) TableIterator_current (self, c) =
    Some (all_entries (drop i blocks), it')"
proof -
  have i: "i < length blocks" using at by (simp add: in_block_def)
  have "next_pos None < length (db_entries (blocks ! i))" using ne by simp
  from advance_in_block [OF at this, of c] obtain self1 where
    s: "TableIterator_advance D (self, c) = Some (True, self1, c)" "ti_table self1 = ti_table self"
      "in_block D C blocks i (Some 0) self1" by auto
  have at1: "table_at D C cap cid T blocks (all_entries blocks) (Some (flat blocks i 0)) (self1, c)"
    using table_atI [OF _ s(3)] rd s(2) by simp
  from table_iterator.drain_from [OF at1] obtain it' where
    "drain (TableIterator_advance D) TableIterator_current (self1, c) =
      Some (drop (Suc (flat blocks i 0)) (all_entries blocks), it')" by auto
  moreover have "drop (flat blocks i 0) (all_entries blocks) = all_entries (drop i blocks)"
    using i by (simp add: flat_split flat_def Cons_nth_drop_Suc [symmetric])
  then have "all_entries (drop i blocks) =
      all_entries blocks ! flat blocks i 0 # drop (Suc (flat blocks i 0)) (all_entries blocks)"
    using flat_nth(1) [OF i, of 0] ne by (simp add: Cons_nth_drop_Suc)
  ultimately show ?thesis
    using s(1) table_iterator.current_at [OF at1]
    by (subst drain.simps) (simp add: SSIterator_next_def del: TableIterator_current.simps)
qed

lemma seek_cases:
  assumes at: "table_at D C cap cid T blocks es p it"
  obtains it' where "TableIterator_seek D it k = Some it'" "\<not> seek_gap C k blocks"
      "table_at D C cap cid T blocks es (seek_pos C k es) it'"
    | it' where "TableIterator_seek D it k = Some it'" "seek_gap C k blocks" "\<not> TableIterator_valid it'"
proof -
  obtain self c0 where it: "it = (self, c0)" by (cases it)
  obtain q where rd: "reading D C cap cid T blocks (ti_table self) c0"
    and q: "block_at D C (index_entries D blocks) q (ti_index_block self)"
    using table_at_index [OF at [unfolded it]] by blast
  have es: "es = all_entries blocks" using at by (simp add: table_at_def)
  show thesis
  proof (cases "seek_gap C k blocks")
    case True
    then show ?thesis using table_seek_gap [OF rd q True] that(2) unfolding it by blast
  next
    case False
    then show ?thesis using table_seek [OF rd q False] that(1) unfolding it es by blast
  qed
qed

lemma prev_returns:
  assumes "table_at D C cap cid T blocks es (Some n) it"
  shows "\<exists>it'. TableIterator_prev D it = Some (n \<noteq> 0, it')"
  using assms table_prev_first table_prev_inside by (cases it; cases n) fastforce+

text \<open>C13: Whatever sequence of moves, resets and successful seeks an iterator has made, it is valid
  exactly when it stands at an entry; then \<open>current\<close> returns an entry of the table and \<open>prev\<close>
  returns. Advancing, seeking and resetting it never panic.\<close>

theorem table_iterator_safe:
  assumes "third_party_laws D" "short_comparator (opt_cmp opt)" "table_fits opt kvs" "0 < cap" "cap < 2 ^ 64"
    and "open_new D opt cap kvs = Some (Inr t, c)" "iter_reach D t c it"
  shows "(\<exists>r. TableIterator_advance D it = Some r) \<and> (\<exists>r. TableIterator_seek D it k = Some r) \<and>
    (if TableIterator_valid it
     then (\<exists>r. TableIterator_prev D it = Some r) \<and>
       (\<exists>e \<in> set kvs. current_key_val TableIterator_current it = Some (Some e))
     else current_key_val TableIterator_current it = Some None)"
proof -
  obtain blocks p where at: "table_at D (opt_cmp opt) cap 1 {(t, blocks)} blocks kvs p it"
    by (rule reach_cases [OF assms])
  have "\<exists>r. TableIterator_advance D it = Some r"
    using table_iterator.advance_inside [OF at] table_iterator.advance_end [OF at]
    by (cases "next_pos p < length kvs") auto
  moreover have "\<exists>r. TableIterator_seek D it k = Some r" by (rule seek_cases [OF at, of k]) auto
  moreover have "\<exists>r. TableIterator_prev D it = Some r" if "p = Some n" for n
    using prev_returns [OF at [unfolded that]] by blast
  moreover have "current_key_val TableIterator_current it = Some (Some (kvs ! n))" "kvs ! n \<in> set kvs"
    if "p = Some n" for n
    using table_iterator.current_key_val_at at table_iterator.at_bounds that by auto
  moreover have "current_key_val TableIterator_current it = Some None" if "p = None"
    using table_iterator.current_key_val_none at that by blast
  ultimately show ?thesis using table_iterator.valid_iff [OF at] by (cases p) auto
qed

theorem table_iterator_safe_witness:
  "\<exists>t c it r. open_new reference_deps small_opt 2 sample_kvs = Some (Inr t, c) \<and>
    Table_iter reference_deps t = Some it \<and> TableIterator_seek reference_deps (it, c) [1, 3] = Some r"
proof -
  obtain t c blocks where t: "open_new reference_deps small_opt 2 sample_kvs = Some (Inr t, c)"
    "opened_with reference_deps small_opt 2 sample_kvs blocks t c"
    using open_new_opened [OF ref_deps.third_party_laws_axioms small_short sample_fits, of 2] by auto
  obtain it where it: "Table_iter reference_deps t = Some it"
    using opened_iter [OF ref_deps.third_party_laws_axioms small_short t(2)] by blast
  from table_iterator_safe [OF ref_deps.third_party_laws_axioms small_short sample_fits _ _ t(1)
      iter_reach.fresh [OF it], of "[1, 3]"] t(1) it show ?thesis by auto
qed

text \<open>C19: A seek never lands on a wrong entry: if the iterator is valid after it, it stands at the first
  entry whose key is not below the one sought.\<close>

theorem table_seek_lower_bound:
  assumes "third_party_laws D" "short_comparator (opt_cmp opt)" "table_fits opt kvs" "0 < cap" "cap < 2 ^ 64"
    and "open_new D opt cap kvs = Some (Inr t, c)" "iter_reach D t c it"
    and "TableIterator_seek D it k = Some it'" "TableIterator_valid it'"
  shows "current_key_val TableIterator_current it' = Some (lower_bound (opt_cmp opt) k kvs)"
proof -
  obtain blocks p where at: "table_at D (opt_cmp opt) cap 1 {(t, blocks)} blocks kvs p it"
    by (rule reach_cases [OF assms(1-7)])
  have "table_at D (opt_cmp opt) cap 1 {(t, blocks)} blocks kvs (seek_pos (opt_cmp opt) k kvs) it'"
    by (rule seek_cases [OF at, of k]) (use assms(8,9) in auto)
  from current_step [OF this] show ?thesis by (simp add: lower_bound_def find_seek_pos)
qed

text \<open>C10: With the default comparator, and when no stored key is another one followed by a zero byte,
  seeking a stored key succeeds from any reachable iterator; the iterator then stands at that
  key and goes on with the entries after it.\<close>

theorem table_seek_stored:
  assumes "third_party_laws D" "opt_cmp opt = DefaultCmp" "table_fits opt kvs" "0 < cap" "cap < 2 ^ 64"
    and "\<not> zero_extended kvs" "open_new D opt cap kvs = Some (Inr t, c)" "iter_reach D t c it"
    and "i < length kvs"
  shows "\<exists>it' it''. TableIterator_seek D it (fst (kvs ! i)) = Some it' \<and>
    current_key_val TableIterator_current it' = Some (Some (kvs ! i)) \<and>
    drain (TableIterator_advance D) TableIterator_current it' = Some (drop (Suc i) kvs, it'')"
proof -
  have C: "short_comparator (opt_cmp opt)" using assms(2) default_cmp.short_comparator_axioms by simp
  obtain blocks p where at0: "opened_with D opt cap kvs blocks t c" and kvs: "all_entries blocks = kvs"
    and at: "table_at D (opt_cmp opt) cap 1 {(t, blocks)} blocks kvs p it"
    by (rule reach_cases [OF assms(1) C assms(3-5,7,8)])
  obtain self c0 where it: "it = (self, c0)" by (cases it)
  let ?k = "fst (kvs ! i)"
  have "?k \<in> fst ` set (all_entries blocks)" using assms(9) kvs by simp
  from seek_step [OF at [unfolded it assms(2) kvs [symmetric]] _ this] assms(6) kvs obtain it' where
    it': "TableIterator_seek D it ?k = Some it'"
      "table_at D DefaultCmp cap 1 {(t, blocks)} blocks kvs (seek_pos DefaultCmp ?k kvs) it'"
    unfolding it by auto
  have asc: "ascending DefaultCmp (map fst kvs)"
    using opened_blocks(4) [OF assms(1) C at0] assms(2) by simp
  have "seek_pos DefaultCmp ?k kvs = Some i"
    using default_cmp.seek_pos_stored [OF asc assms(9)] .
  with it' have at': "table_at D DefaultCmp cap 1 {(t, blocks)} blocks kvs (Some i) it'" by simp
  from table_iterator.drain_from [OF at'] table_iterator.current_key_val_at [OF at'] it'(1)
  show ?thesis by auto
qed

lemma sample_opened:
  obtains t c it where "open_new reference_deps small_opt 2 sample_kvs = Some (Inr t, c)"
    "Table_iter reference_deps t = Some it" "iter_reach reference_deps t c (it, c)"
proof -
  obtain t c blocks where t: "open_new reference_deps small_opt 2 sample_kvs = Some (Inr t, c)"
    "opened_with reference_deps small_opt 2 sample_kvs blocks t c"
    using open_new_opened [OF ref_deps.third_party_laws_axioms small_short sample_fits, of 2] by auto
  obtain it where "Table_iter reference_deps t = Some it"
    using opened_iter [OF ref_deps.third_party_laws_axioms small_short t(2)] by blast
  with that t(1) iter_reach.fresh show thesis by blast
qed

lemma sample_cap: "(0::nat) < 2" "(2::nat) < 2 ^ 64"
  by simp_all

lemma sample_not_extended: "\<not> zero_extended sample_kvs"
  by (simp add: zero_extended_def sample_kvs_def)

theorem table_seek_stored_witness:
  "\<exists>t c it it'. open_new reference_deps small_opt 2 sample_kvs = Some (Inr t, c) \<and>
    Table_iter reference_deps t = Some it \<and> TableIterator_seek reference_deps (it, c) [1, 3] = Some it' \<and>
    current_key_val TableIterator_current it' = Some (Some ([1, 3], [8, 9]))"
proof (rule sample_opened)
  fix t c it
  assume 1: "open_new reference_deps small_opt 2 sample_kvs = Some (Inr t, c)"
    "Table_iter reference_deps t = Some it" "iter_reach reference_deps t c (it, c)"
  from table_seek_stored [OF ref_deps.third_party_laws_axioms _ sample_fits _ _ sample_not_extended 1(1,3), of 2]
  show ?thesis using 1(1,2) by (fastforce simp: sample_kvs_def)
qed

theorem table_seek_lower_bound_witness:
  "\<exists>t c it it'. open_new reference_deps small_opt 2 sample_kvs = Some (Inr t, c) \<and>
    Table_iter reference_deps t = Some it \<and> TableIterator_seek reference_deps (it, c) [1, 3] = Some it' \<and>
    current_key_val TableIterator_current it' = Some (Some ([1, 3], [8, 9]))"
proof (rule sample_opened)
  fix t c it
  assume 1: "open_new reference_deps small_opt 2 sample_kvs = Some (Inr t, c)"
    "Table_iter reference_deps t = Some it" "iter_reach reference_deps t c (it, c)"
  obtain blocks p where at0: "opened_with reference_deps small_opt 2 sample_kvs blocks t c"
    and kvs: "all_entries blocks = sample_kvs"
    and at: "table_at reference_deps DefaultCmp 2 1 {(t, blocks)} blocks sample_kvs p (it, c)"
    using reach_cases [OF ref_deps.third_party_laws_axioms small_short sample_fits _ _ 1(1,3)] by auto
  have "[1, 3] \<in> fst ` set (all_entries blocks)" by (simp add: kvs sample_kvs_def)
  from seek_step [OF at [folded kvs] _ this] sample_not_extended kvs obtain it' where
    it': "TableIterator_seek reference_deps (it, c) [1, 3] = Some it'"
      "table_at reference_deps DefaultCmp 2 1 {(t, blocks)} blocks sample_kvs
         (seek_pos DefaultCmp [1, 3] sample_kvs) it'" by auto
  have "seek_pos DefaultCmp [1, 3] sample_kvs = Some 2"
    by (simp add: seek_pos_def seek_index_def sample_kvs_def DefaultCmp_def)
  then have "TableIterator_valid it'" using table_iterator.valid_iff [OF it'(2)] by simp
  from table_seek_lower_bound [OF ref_deps.third_party_laws_axioms small_short sample_fits _ _ 1(1,3) it'(1) this]
  have "current_key_val TableIterator_current it' = Some (Some ([1, 3], [8, 9]))"
    by (simp add: lower_bound_def sample_kvs_def DefaultCmp_def)
  with 1(1,2) it'(1) show ?thesis by blast
qed

lemma block_of_nth:
  assumes C: "comparator C" and sep: "separated C blocks" and ne: "\<forall>b \<in> set blocks. db_entries b \<noteq> []"
    and i: "i < length blocks" and k: "cmp C (fst (last (db_entries (blocks ! i)))) k = Less"
      "cmp C k (db_sep (blocks ! i)) \<noteq> Greater"
  shows "block_of C k blocks = Some (blocks ! i)"
proof -
  have "cmp C (db_sep (blocks ! j)) k = Less" if j: "j < i" for j
  proof -
    have "fst (last (db_entries (blocks ! j))) \<in> db_keys (blocks ! j)"
      "fst (last (db_entries (blocks ! i))) \<in> db_keys (blocks ! i)" using ne i j by simp_all
    from separated_earlier(2) [OF C sep j i this] comparator.sep_before_upto [OF C]
    have "cmp C (db_sep (blocks ! j)) (fst (last (db_entries (blocks ! i)))) \<noteq> Greater" by blast
    then show ?thesis using comparator.cmp_le_less_trans [OF C] k(1) by blast
  qed
  moreover have "cmp C (db_sep (blocks ! i)) k \<noteq> Less" using k(2) comparator.cmp_swap [OF C] by blast
  ultimately show ?thesis using i by (auto simp: block_of_def find_Some_iff)
qed

lemma below_last:
  assumes C: "comparator C" and asc: "ascending C (map fst kvs)" and ne: "kvs \<noteq> []"
    and last: "cmp C (fst (last kvs)) k = Less"
  shows "\<forall>x \<in> fst ` set kvs. cmp C x k = Less"
proof -
  obtain es e where kvs: "kvs = es @ [e]" using ne by (cases kvs rule: rev_cases) simp
  have "cmp C (fst x) k = Less" if "x \<in> set es" for x
    using asc last that comparator.cmp_less_trans [OF C, of "fst x" "fst e" k]
    by (simp add: kvs ascending_def sorted_wrt_append)
  with last show ?thesis by (simp add: kvs)
qed

text \<open>C33: A seek for a key that lies above the last entry of a data block and not above its separator fails
  from every reachable iterator: the iterator is not valid and has no current entry, although the next block
  may hold bigger keys. Going on from there yields all entries from the first one of that block on, so the
  next entry is below the key that was sought.\<close>

theorem table_seek_misses_next_block:
  assumes "third_party_laws D" "short_comparator (opt_cmp opt)" "table_fits opt kvs" "0 < cap" "cap < 2 ^ 64"
    and "open_new D opt cap kvs = Some (Inr t, c)" "iter_reach D t c it"
    and "i < length (table_blocks D opt kvs)"
    and "cmp (opt_cmp opt) (fst (last (db_entries (table_blocks D opt kvs ! i)))) k = Less"
    and "cmp (opt_cmp opt) k (db_sep (table_blocks D opt kvs ! i)) \<noteq> Greater"
  shows "\<exists>it' it''. TableIterator_seek D it k = Some it' \<and> \<not> TableIterator_valid it' \<and>
    current_key_val TableIterator_current it' = Some None \<and>
    drain (TableIterator_advance D) TableIterator_current it' =
      Some (all_entries (drop i (table_blocks D opt kvs)), it'') \<and>
    (\<exists>e es. all_entries (drop i (table_blocks D opt kvs)) = e # es \<and> cmp (opt_cmp opt) (fst e) k = Less)"
proof -
  let ?blocks = "table_blocks D opt kvs" and ?C = "opt_cmp opt"
  have C: "comparator ?C" using assms(2) by (simp add: short_comparator_def)
  have at0: "opened_with D opt cap kvs ?blocks t c" using open_new_opened [OF assms(1-5)] assms(6) by auto
  note b = opened_blocks [OF assms(1,2) at0]
  obtain p where at: "table_at D ?C cap 1 {(t, ?blocks)} ?blocks kvs p it"
    using iter_reach_at [OF at0 assms(1,2,7)] by blast
  obtain self c0 where it: "it = (self, c0)" by (cases it)
  obtain q where rd: "reading D ?C cap 1 {(t, ?blocks)} ?blocks (ti_table self) c0"
    and q: "block_at D ?C (index_entries D ?blocks) q (ti_index_block self)"
    using table_at_index [OF at [unfolded it]] by blast
  have of: "block_of ?C k ?blocks = Some (?blocks ! i)" by (rule block_of_nth [OF C b(1,2) assms(8-10)])
  have ne: "db_entries (?blocks ! i) \<noteq> []" using b(2) assms(8) by simp
  have "ascending ?C (map fst (db_entries (?blocks ! i)))"
    using b(3,4) assms(8) ascending_all_entries [of ?C ?blocks "?blocks ! i"] by simp
  from below_last [OF C this ne assms(9)] have below: "\<forall>x \<in> db_keys (?blocks ! i). cmp ?C x k = Less" .
  then have gap: "seek_gap ?C k ?blocks" using of by (simp add: seek_gap_def)
  from table_seek_gap [OF rd q gap] of obtain i' self' c' where
    s: "TableIterator_seek D (self, c0) k = Some (self', c')" "i' < length ?blocks" "?blocks ! i' = ?blocks ! i"
      "\<not> TableIterator_valid (self', c')" "reading D ?C cap 1 {(t, ?blocks)} ?blocks (ti_table self') c'"
      "in_block D ?C ?blocks i' None self'" by auto
  have "fst (hd (db_entries (?blocks ! i))) \<in> db_keys (?blocks ! i)" using ne by simp
  with separated_unique [OF C b(1) s(2) assms(8), of "fst (hd (db_entries (?blocks ! i)))"] s(3)
  have i': "i' = i" by simp
  from drain_in_block [OF s(5,6) ne [folded i']] obtain it'' where
    d: "drain (TableIterator_advance D) TableIterator_current (self', c') =
      Some (all_entries (drop i ?blocks), it'')" using i' by auto
  have "current_key_val TableIterator_current (self', c') = Some None"
    by (rule current_in_block [OF s(6)])
  moreover have "\<exists>e es. all_entries (drop i ?blocks) = e # es \<and> cmp ?C (fst e) k = Less"
    using below ne assms(8) by (cases "db_entries (?blocks ! i)") (auto simp: Cons_nth_drop_Suc [symmetric])
  ultimately show ?thesis using s(1,4) d it by blast
qed

lemma two_fits: "table_fits small_opt [([97], [1]), ([99], [2])]"
  by (rule small_fits) (simp_all add: ascending_def DefaultCmp_def entry_weight_def)

lemma two_separator: "DefaultCmp_find_shortest_sep [97] [99] = Some [98]"
  by code_simp

theorem table_seek_misses_next_block_witness:
  "\<exists>t c it it' it''. open_new reference_deps small_opt 2 [([97], [1]), ([99], [2])] = Some (Inr t, c) \<and>
    Table_iter reference_deps t = Some it \<and> TableIterator_seek reference_deps (it, c) [97, 1] = Some it' \<and>
    \<not> TableIterator_valid it' \<and> drain (TableIterator_advance reference_deps) TableIterator_current it' =
      Some ([([97], [1]), ([99], [2])], it'')"
proof -
  let ?kvs = "[([97], [1]), ([99], [2])] :: (bytes \<times> bytes) list"
  obtain t c b1 b2 where
    t: "open_new reference_deps small_opt 2 ?kvs = Some (Inr t, c)"
      "opened_with reference_deps small_opt 2 ?kvs [b1, b2] t c"
    and b: "table_blocks reference_deps small_opt ?kvs = [b1, b2]"
      "db_entries b1 = [([97], [1])]" "db_entries b2 = [([99], [2])]" "db_sep b1 = [98]"
    using small_two [OF two_fits] two_separator by auto
  obtain it where it: "Table_iter reference_deps t = Some it"
    using opened_iter [OF ref_deps.third_party_laws_axioms small_short t(2)] by auto
  have "cmp (opt_cmp small_opt) (fst (last (db_entries (table_blocks reference_deps small_opt ?kvs ! 0)))) [97, 1] = Less"
    "cmp (opt_cmp small_opt) [97, 1] (db_sep (table_blocks reference_deps small_opt ?kvs ! 0)) \<noteq> Greater"
    "0 < length (table_blocks reference_deps small_opt ?kvs)"
    by (simp_all add: b DefaultCmp_def)
  from table_seek_misses_next_block [OF ref_deps.third_party_laws_axioms small_short two_fits sample_cap t(1)
      iter_reach.fresh [OF it] this(3,1,2)] t(1) it show ?thesis
    by (auto simp: b)
qed

text \<open>C29: Stepping back undoes a step forward, also over the border of two data blocks: from every reachable
  valid iterator, advancing to another entry and stepping back succeeds and returns to the entry it stood at,
  and the iterator then goes on with the entries after it.\<close>

theorem table_prev_undoes_advance:
  assumes "third_party_laws D" "short_comparator (opt_cmp opt)" "table_fits opt kvs" "0 < cap" "cap < 2 ^ 64"
    and "open_new D opt cap kvs = Some (Inr t, c)" "iter_reach D t c it"
    and "TableIterator_valid it" "TableIterator_advance D it = Some (True, it')"
  shows "\<exists>n it'' end. Suc n < length kvs \<and>
    current_key_val TableIterator_current it = Some (Some (kvs ! n)) \<and>
    current_key_val TableIterator_current it' = Some (Some (kvs ! Suc n)) \<and>
    TableIterator_prev D it' = Some (True, it'') \<and>
    current_key_val TableIterator_current it'' = Some (Some (kvs ! n)) \<and>
    drain (TableIterator_advance D) TableIterator_current it'' = Some (drop (Suc n) kvs, end)"
proof -
  obtain blocks p where at: "table_at D (opt_cmp opt) cap 1 {(t, blocks)} blocks kvs p it"
    by (rule reach_cases [OF assms(1-7)])
  then obtain n where n: "p = Some n" using table_iterator.valid_iff [OF at] assms(8) by auto
  have len: "Suc n < length kvs"
    using table_iterator.advance_end [OF at] assms(9) n by (cases "Suc n < length kvs") auto
  with table_iterator.advance_inside [OF at] assms(9) n
  have at': "table_at D (opt_cmp opt) cap 1 {(t, blocks)} blocks kvs (Some (Suc n)) it'" by auto
  from prev_step [OF at'] obtain it'' where
    it'': "TableIterator_prev D it' = Some (True, it'')"
    "table_at D (opt_cmp opt) cap 1 {(t, blocks)} blocks kvs (Some n) it''" by blast
  from table_iterator.drain_from [OF it''(2)] obtain last where
    "drain (TableIterator_advance D) TableIterator_current it'' = Some (drop (Suc n) kvs, last)" by auto
  with len it''(1) table_iterator.current_key_val_at [OF it''(2)] table_iterator.current_key_val_at [OF at']
    table_iterator.current_key_val_at [OF at [unfolded n]] show ?thesis by blast
qed

theorem table_prev_undoes_advance_witness:
  "\<exists>t c it1 it2 it3. open_new reference_deps small_opt 2 sample_kvs = Some (Inr t, c) \<and>
    TableIterator_advance reference_deps it1 = Some (True, it2) \<and>
    TableIterator_prev reference_deps it2 = Some (True, it3) \<and>
    current_key_val TableIterator_current it3 = current_key_val TableIterator_current it1"
proof (rule sample_opened)
  fix t c it
  assume 1: "open_new reference_deps small_opt 2 sample_kvs = Some (Inr t, c)"
    "Table_iter reference_deps t = Some it" "iter_reach reference_deps t c (it, c)"
  obtain blocks p where
    at: "table_at reference_deps (opt_cmp small_opt) 2 1 {(t, blocks)} blocks sample_kvs p (it, c)"
    by (rule reach_cases [OF ref_deps.third_party_laws_axioms small_short sample_fits sample_cap 1(1,3)])
  have len: "next_pos None < length sample_kvs" "next_pos (Some 0) < length sample_kvs"
    by (simp_all add: sample_kvs_def)
  note start = table_iterator.at_reset [OF at]
  obtain it1 where it1: "TableIterator_advance reference_deps (TableIterator_reset (it, c)) = Some (True, it1)"
    "table_at reference_deps (opt_cmp small_opt) 2 1 {(t, blocks)} blocks sample_kvs (Some 0) it1"
    using table_iterator.advance_inside [OF start len(1)] by auto
  obtain it2 where it2: "TableIterator_advance reference_deps it1 = Some (True, it2)"
    using table_iterator.advance_inside [OF it1(2) len(2)] by auto
  have "iter_reach reference_deps t c it1" by (rule iter_reach.advance [OF iter_reach.reset [OF 1(3)] it1(1)])
  moreover have "TableIterator_valid it1" using table_iterator.valid_iff [OF it1(2)] by simp
  ultimately show ?thesis
    using table_prev_undoes_advance [OF ref_deps.third_party_laws_axioms small_short sample_fits sample_cap 1(1) _ _ it2]
      1(1) it2 by metis
qed



section \<open>Offsets\<close>

text \<open>\<open>approx_offset_of\<close> a stored key is the offset, in the file, of a data block that holds the key,
  with the default comparator and when no stored key is another one followed by a zero byte.\<close>

lemma table_offset_of_stored:
  assumes "third_party_laws D" "opt_cmp opt = DefaultCmp" "table_fits opt kvs" "0 < cap" "cap < 2 ^ 64"
    and "\<not> zero_extended kvs" "key \<in> fst ` set kvs"
  shows "\<exists>file cache t c b. build_file D opt kvs = Some (Inr file) \<and> Cache_new cap = Some cache \<and>
    open_file D opt file cache = Some (Inr t, c) \<and>
    Table_approx_offset_of D t key = Some (bh_offset (db_handle b)) \<and>
    data_ok D file b \<and> key \<in> db_keys b"
proof -
  have C: "short_comparator (opt_cmp opt)" using assms(2) default_cmp.short_comparator_axioms by simp
  obtain cache where cache: "Cache_new cap = Some (cache :: block_cache)" "ca_id cache = 0"
    using cache_inv_new [OF assms(4,5)] cache_inv_id by blast
  then have "unat (ca_id cache) + 1 < 2 ^ 64" by simp
  from build_open [OF assms(1) C assms(3) refl refl this] obtain data t blocks fs where
    t: "build_file D opt kvs = Some (Inr data)"
      "open_file D opt data cache = Some (Inr t, cache\<lparr>ca_id := ca_id cache + 1\<rparr>)"
      "table_view D opt data blocks fs t" "all_entries blocks = kvs" by blast
  have tr: "table_reader D DefaultCmp" using opened_reader [OF assms(1) C] assms(2) by simp
  note v = table_reader.view_blocks [OF tr t(3) assms(2)]
  obtain b where b: "block_of DefaultCmp key blocks = Some b" "key \<in> db_keys b"
    using block_of_stored [OF v(2)] v(5) assms(6,7) t(4) by blast
  then have "data_ok D data b"
    using t(3) block_of_mem [OF b(1)] by (simp add: table_view_def data_blocks_def)
  moreover have "Table_approx_offset_of D t key = Some (bh_offset (db_handle b))"
    using table_reader.Table_approx_offset_of_eq [OF tr t(3) assms(2), of key] b(1) by simp
  ultimately show ?thesis using t(1,2) cache(1) b(2) by blast
qed

text \<open>C17: \<open>approx_offset_of\<close> never panics on a table that was built, for any key and comparator: its
  result is an offset inside of the file, and a bigger key never has a smaller offset.\<close>

theorem table_offsets_monotone:
  assumes "third_party_laws D" "short_comparator (opt_cmp opt)" "table_fits opt kvs" "0 < cap" "cap < 2 ^ 64"
  shows "\<exists>tbl t c f. build_file D opt kvs = Some (Inr tbl) \<and>
    Cache_new cap \<bind> open_file D opt tbl = Some (Inr t, c) \<and>
    (\<forall>key. Table_approx_offset_of D t key = Some (f key) \<and> f key < length tbl) \<and>
    (\<forall>key key'. cmp (opt_cmp opt) key key' \<noteq> Greater \<longrightarrow> f key \<le> f key')"
proof -
  let ?C = "opt_cmp opt"
  have tr: "table_reader D ?C" by (rule opened_reader [OF assms(1,2)])
  obtain tbl n blocks ft where fl: "build_file D opt kvs = Some (Inr tbl)"
    "data_blocks D ?C tbl blocks" "table_tail D opt n tbl blocks ft" "length tbl < 2 ^ 29"
    by (rule built_file [OF assms(1-3)])
  obtain cache where cache: "Cache_new cap = Some (cache :: block_cache)" "ca_id cache = 0"
    using cache_inv_new [OF assms(4,5)] cache_inv_id by blast
  then have "unat (ca_id cache) + 1 < 2 ^ 64" by simp
  from table_reader.Table_new_parts [OF tr refl buffer_file.random_access_file_axioms fl(3,4) this]
  obtain t fs where t: "open_file D opt tbl cache = Some (Inr t, cache\<lparr>ca_id := ca_id cache + 1\<rparr>)"
    "table_parts D opt tbl blocks fs t" "tab_footer t = ft"
    by (auto simp: open_file_def)
  let ?m = "bh_offset (ft_meta_index ft)"
  let ?f = "\<lambda>key. case block_of ?C key blocks of Some b \<Rightarrow> bh_offset (db_handle b) | None \<Rightarrow> ?m"
  have laid: "laid_out n blocks" "n \<le> ?m" using fl(3) by (auto simp: table_tail_def)
  obtain meta where "stored D tbl (ft_meta_index ft) meta" using fl(3) by (auto simp: table_tail_def)
  then have inside: "?m < length tbl" by (rule stored_offset)
  have view: "table_view D opt tbl blocks fs t" using t(2) fl(2) by (simp add: table_view_parts)
  have "Table_approx_offset_of D t key = Some (?f key)" for key
    using table_reader.Table_approx_offset_of_eq [OF tr view refl, of key] unfolding t(3) .
  moreover have "?f key < length tbl" for key
    using inside laid_out_end [OF laid(1)] laid(2) block_of_mem [of ?C key blocks]
    by (auto split: option.split) (meson le_less_trans order_trans)
  moreover have "?f key \<le> ?f key'" if "cmp ?C key key' \<noteq> Greater" for key key'
    unfolding block_of_def
  proof (rule laid_out_find_mono [OF laid])
    fix b assume "cmp ?C (db_sep b) key' \<noteq> Less"
    moreover have "comparator ?C" using tr by (simp add: table_reader_def)
    ultimately show "cmp ?C (db_sep b) key \<noteq> Less"
      using that by (metis comparator.cmp_less_le_trans)
  qed
  ultimately show ?thesis using fl(1) t(1) cache(1) by (intro exI [of _ tbl] exI [of _ t] exI [of _ _] exI [of _ ?f]) auto
qed

theorem table_offsets_monotone_witness:
  "\<exists>t c m n. Cache_new 2 \<bind> (\<lambda>cache. build_file reference_deps small_opt sample_kvs \<bind>
      (\<lambda>r. case r of Inl e \<Rightarrow> None | Inr tbl \<Rightarrow> open_file reference_deps small_opt tbl cache)) = Some (Inr t, c) \<and>
    Table_approx_offset_of reference_deps t [0] = Some m \<and>
    Table_approx_offset_of reference_deps t [255] = Some n \<and> m \<le> n"
proof -
  have le: "cmp (opt_cmp small_opt) [0] [255] \<noteq> Greater" by (simp add: DefaultCmp_def)
  from table_offsets_monotone [OF ref_deps.third_party_laws_axioms small_short sample_fits, of 2] obtain tbl t c f where
    "build_file reference_deps small_opt sample_kvs = Some (Inr tbl)"
    "Cache_new 2 \<bind> open_file reference_deps small_opt tbl = Some (Inr t, c)"
    "\<forall>key. Table_approx_offset_of reference_deps t key = Some (f key) \<and> f key < length tbl"
    "\<forall>key key'. cmp (opt_cmp small_opt) key key' \<noteq> Greater \<longrightarrow> f key \<le> f key'" by fastforce
  with le show ?thesis by (intro exI [of _ t] exI [of _ c] exI [of _ "f [0]"] exI [of _ "f [255]"]) simp
qed

end
