(* ===== verification/SST_Client.thy ===== *)
theory SST_Client
  imports SST_TableThms
begin

text \<open>
  A client of the crate: any number of tables that share one block cache, with lookups and
  iterators on them in any order. The specification keeps, for each table, the list of its
  entries and, for each iterator, its position in that list; it knows neither blocks nor the
  cache. The refinement says that the program gives the answers of the specification.
\<close>

section \<open>Commands and the program\<close>

datatype command =
    OpenTable Options "(bytes \<times> bytes) list"
  | Get nat bytes
  | NewIter nat
  | Next nat
  | Current nat
  | Prev nat
  | Seek nat bytes
  | Reset nat

datatype answer =
    Opened
  | Value "bytes option"
  | Entry "(bytes \<times> bytes) option"
  | Moved bool
  | Done
  | Failed Status

record client =
  cl_tables :: "Table list"
  cl_iters :: "TableIterator list"
  cl_cache :: block_cache

text \<open>A call of an iterator method, which also works on the shared cache.\<close>

definition with_iter :: "(table_iter \<Rightarrow> ('r \<times> table_iter) run) \<Rightarrow> ('r \<Rightarrow> answer) \<Rightarrow> nat \<Rightarrow> client \<Rightarrow> (answer \<times> client) run" where
  "with_iter f ans m s =
     do {
       it \<leftarrow> vec_index (cl_iters s) m;
       (r, it, c) \<leftarrow> f (it, cl_cache s);
       Some (ans r, s\<lparr>cl_iters := (cl_iters s)[m := it], cl_cache := c\<rparr>)
     }"

fun client_step :: "deps \<Rightarrow> command \<Rightarrow> client \<Rightarrow> (answer \<times> client) run" where
  "client_step D (OpenTable opt kvs) s =
     do {
       r \<leftarrow> build_file D opt kvs;
       case r of
         Inl e \<Rightarrow> Some (Failed e, s)
       | Inr data \<Rightarrow>
           do {
             (r, c) \<leftarrow> open_file D opt data (cl_cache s);
             Some (case r of
                 Inl e \<Rightarrow> (Failed e, s\<lparr>cl_cache := c\<rparr>)
               | Inr t \<Rightarrow> (Opened, s\<lparr>cl_tables := cl_tables s @ [t], cl_cache := c\<rparr>))
           }
     }"
| "client_step D (Get n key) s =
     do {
       t \<leftarrow> vec_index (cl_tables s) n;
       (r, c) \<leftarrow> Table_get D t key (cl_cache s);
       Some (case r of Inl e \<Rightarrow> Failed e | Inr v \<Rightarrow> Value v, s\<lparr>cl_cache := c\<rparr>)
     }"
| "client_step D (NewIter n) s =
     do {
       t \<leftarrow> vec_index (cl_tables s) n;
       it \<leftarrow> Table_iter D t;
       Some (Done, s\<lparr>cl_iters := cl_iters s @ [it]\<rparr>)
     }"
| "client_step D (Next m) s =
     with_iter (SSIterator_next (TableIterator_advance D) TableIterator_current) Entry m s"
| "client_step D (Current m) s =
     with_iter (\<lambda>it. do { kv \<leftarrow> current_key_val TableIterator_current it; Some (kv, it) }) Entry m s"
| "client_step D (Prev m) s = with_iter (TableIterator_prev D) Moved m s"
| "client_step D (Seek m k) s =
     with_iter (\<lambda>it. do { it \<leftarrow> TableIterator_seek D it k; Some ((), it) }) (\<lambda>_. Done) m s"
| "client_step D (Reset m) s =
     with_iter (\<lambda>it. Some ((), TableIterator_reset it)) (\<lambda>_. Done) m s"

section \<open>The specification\<close>

record spec =
  sp_tables :: "(bytes \<times> bytes) list list"
  sp_iters :: "(nat \<times> nat option) list"

text \<open>The iterator \<open>m\<close> with the entries of its table.\<close>

definition spec_iter :: "spec \<Rightarrow> nat \<Rightarrow> (bytes \<times> bytes) list \<times> nat option" where
  "spec_iter sp m = (let (n, p) = sp_iters sp ! m in (sp_tables sp ! n, p))"

definition spec_move :: "nat \<Rightarrow> nat option \<Rightarrow> spec \<Rightarrow> spec" where
  "spec_move m p sp = sp\<lparr>sp_iters := (sp_iters sp)[m := (fst (sp_iters sp ! m), p)]\<rparr>"

fun spec_step :: "command \<Rightarrow> spec \<Rightarrow> answer \<times> spec" where
  "spec_step (OpenTable opt kvs) sp = (Opened, sp\<lparr>sp_tables := sp_tables sp @ [kvs]\<rparr>)"
| "spec_step (Get n key) sp = (Value (map_of (sp_tables sp ! n) key), sp)"
| "spec_step (NewIter n) sp = (Done, sp\<lparr>sp_iters := sp_iters sp @ [(n, None)]\<rparr>)"
| "spec_step (Next m) sp =
     (let (kvs, p) = spec_iter sp m; i = next_pos p in
      if i < length kvs then (Entry (Some (kvs ! i)), spec_move m (Some i) sp)
      else (Entry None, spec_move m None sp))"
| "spec_step (Current m) sp =
     (let (kvs, p) = spec_iter sp m in (Entry (map_option (\<lambda>i. kvs ! i) p), sp))"
| "spec_step (Prev m) sp =
     (let (kvs, p) = spec_iter sp m in
      case p of Some (Suc i) \<Rightarrow> (Moved True, spec_move m (Some i) sp) | _ \<Rightarrow> (Moved False, sp))"
| "spec_step (Seek m k) sp =
     (let (kvs, p) = spec_iter sp m in (Done, spec_move m (seek_pos DefaultCmp k kvs) sp))"
| "spec_step (Reset m) sp = (Done, spec_move m None sp)"

text \<open>
  The commands for which the program promises these answers. Tables are within the limits of
  the format, use the default comparator and do not hold both a key and the key followed by a
  zero byte. \<open>prev\<close> is called after the first entry and \<open>seek\<close> with stored keys.
\<close>

fun permitted :: "spec \<Rightarrow> command \<Rightarrow> bool" where
  "permitted sp (OpenTable opt kvs) \<longleftrightarrow>
     opt_cmp opt = DefaultCmp \<and> table_fits opt kvs \<and> \<not> zero_extended kvs \<and>
     nonempty_filter_policy (opt_filter_policy opt) \<and> length (sp_tables sp) + 1 < 2 ^ 64"
| "permitted sp (Get n key) \<longleftrightarrow> n < length (sp_tables sp) \<and> length key < 2 ^ 32"
| "permitted sp (NewIter n) \<longleftrightarrow> n < length (sp_tables sp)"
| "permitted sp (Prev m) \<longleftrightarrow> m < length (sp_iters sp) \<and> (\<exists>i. snd (sp_iters sp ! m) = Some (Suc i))"
| "permitted sp (Seek m k) \<longleftrightarrow>
     m < length (sp_iters sp) \<and> k \<in> fst ` set (fst (spec_iter sp m))"
| "permitted sp (Next m) \<longleftrightarrow> m < length (sp_iters sp)"
| "permitted sp (Current m) \<longleftrightarrow> m < length (sp_iters sp)"
| "permitted sp (Reset m) \<longleftrightarrow> m < length (sp_iters sp)"

section \<open>The relation\<close>

definition serving :: "deps \<Rightarrow> Table \<Rightarrow> data_block list \<Rightarrow> bool" where
  "serving D t bs \<longleftrightarrow>
     (\<exists>opt data fs. opt_cmp opt = DefaultCmp \<and> table_view D opt data bs fs t \<and>
        nonempty_filter_policy (opt_filter_policy opt)) \<and> \<not> zero_extended (all_entries bs)"

definition iters_rel ::
  "deps \<Rightarrow> nat \<Rightarrow> u64 \<Rightarrow> opened set \<Rightarrow> data_block list list \<Rightarrow> block_cache \<Rightarrow>
   TableIterator list \<Rightarrow> (nat \<times> nat option) list \<Rightarrow> bool" where
  "iters_rel D cap cid T bss c its ps \<longleftrightarrow>
     list_all2 (\<lambda>it (n, p). n < length bss \<and>
       table_at D DefaultCmp cap cid T (bss ! n) (all_entries (bss ! n)) p (it, c)) its ps"

definition tables_set :: "Table list \<Rightarrow> data_block list list \<Rightarrow> opened set" where
  "tables_set ts bss = set (zip ts bss)"

definition client_rel :: "deps \<Rightarrow> nat \<Rightarrow> data_block list list \<Rightarrow> spec \<Rightarrow> client \<Rightarrow> bool" where
  "client_rel D cap bss sp s \<longleftrightarrow>
     third_party_laws D \<and> map all_entries bss = sp_tables sp \<and> list_all2 (serving D) (cl_tables s) bss \<and>
     length bss < 2 ^ 64 \<and>
     cache_inv D cap (of_nat (length bss)) (tables_set (cl_tables s) bss) (cl_cache s) \<and>
     iters_rel D cap (of_nat (length bss)) (tables_set (cl_tables s) bss) bss (cl_cache s)
       (cl_iters s) (sp_iters sp)"

lemma table_at_transfer:
  assumes "table_at D C cap cid T blocks es p (self, c)" "cache_inv D cap cid' T' c'" "T \<subseteq> T'"
  shows "table_at D C cap cid' T' blocks es p (self, c')"
  using assms unfolding table_at_def reading_def fst_conv snd_conv by blast

lemma table_at_cache: "table_at D C cap cid T blocks es p (self, c) \<Longrightarrow> cache_inv D cap cid T c"
  by (simp add: table_at_def reading_def)

lemma iters_rel_transfer:
  assumes "iters_rel D cap cid T bss c its ps" "cache_inv D cap cid' T' c'" "T \<subseteq> T'"
  shows "iters_rel D cap cid' T' (bss @ bss') c' its ps"
  using assms(1) unfolding iters_rel_def
  by (rule list_all2_mono) (auto simp: nth_append intro: table_at_transfer [OF _ assms(2,3)])

lemma iters_rel_update:
  assumes rel: "iters_rel D cap cid T bss c its ps" and m: "ps ! m = (n, p)" "n < length bss"
    and at: "table_at D DefaultCmp cap cid T (bss ! n) (all_entries (bss ! n)) p' (it', c')"
  shows "iters_rel D cap cid T bss c' (its[m := it']) (ps[m := (n, p')])"
proof -
  have "iters_rel D cap cid T (bss @ []) c' its ps"
    by (rule iters_rel_transfer [OF rel table_at_cache [OF at] subset_refl])
  with m(2) at show ?thesis by (auto simp: iters_rel_def intro!: list_all2_update_cong)
qed

section \<open>Iterator commands\<close>

lemma client_iter:
  assumes rel: "client_rel D cap bss sp s" and m: "m < length (sp_iters sp)"
  obtains n p self where "sp_iters sp ! m = (n, p)" "n < length bss" "sp_tables sp ! n = all_entries (bss ! n)"
    "serving D (cl_tables s ! n) (bss ! n)" "m < length (cl_iters s)" "cl_iters s ! m = self"
    "table_at D DefaultCmp cap (of_nat (length bss)) (tables_set (cl_tables s) bss)
       (bss ! n) (all_entries (bss ! n)) p (self, cl_cache s)"
proof -
  obtain n p where np: "sp_iters sp ! m = (n, p)" by (cases "sp_iters sp ! m")
  have "iters_rel D cap (of_nat (length bss)) (tables_set (cl_tables s) bss) bss (cl_cache s)
      (cl_iters s) (sp_iters sp)"
    and bss: "map all_entries bss = sp_tables sp" "list_all2 (serving D) (cl_tables s) bss"
    using rel by (simp_all add: client_rel_def)
  then have it: "m < length (cl_iters s)" "n < length bss"
    "table_at D DefaultCmp cap (of_nat (length bss)) (tables_set (cl_tables s) bss)
       (bss ! n) (all_entries (bss ! n)) p (cl_iters s ! m, cl_cache s)"
    using m np by (auto simp: iters_rel_def list_all2_conv_all_nth)
  have "serving D (cl_tables s ! n) (bss ! n)"
    using bss(2) it(2) by (simp add: list_all2_conv_all_nth)
  moreover have "sp_tables sp ! n = all_entries (bss ! n)" using it(2) by (simp flip: bss(1))
  ultimately show thesis using that np it by blast
qed

lemma client_rel_move:
  assumes rel: "client_rel D cap bss sp s" and np: "sp_iters sp ! m = (n, p)" "n < length bss"
    and at: "table_at D DefaultCmp cap (of_nat (length bss)) (tables_set (cl_tables s) bss)
       (bss ! n) (all_entries (bss ! n)) p' (it', c')"
  shows "client_rel D cap bss (spec_move m p' sp) (s\<lparr>cl_iters := (cl_iters s)[m := it'], cl_cache := c'\<rparr>)"
proof -
  have "iters_rel D cap (of_nat (length bss)) (tables_set (cl_tables s) bss) bss (cl_cache s)
      (cl_iters s) (sp_iters sp)"
    using rel by (simp add: client_rel_def)
  from iters_rel_update [OF this np at] rel table_at_cache [OF at] np show ?thesis
    by (simp add: client_rel_def spec_move_def)
qed

text \<open>It is enough to look at the method on an iterator at the position of the specification.\<close>

lemma with_iter_rel:
  assumes rel: "client_rel D cap bss sp s" and m: "m < length (sp_iters sp)"
    and f: "\<And>t bs p self c cid T.
      spec_iter sp m = (all_entries bs, p) \<Longrightarrow> serving D t bs \<Longrightarrow>
      table_at D DefaultCmp cap cid T bs (all_entries bs) p (self, c) \<Longrightarrow>
      \<exists>r it'. f (self, c) = Some (r, it') \<and> ans r = a \<and>
        table_at D DefaultCmp cap cid T bs (all_entries bs) p' it'"
  shows "\<exists>s'. with_iter f ans m s = Some (a, s') \<and> client_rel D cap bss (spec_move m p' sp) s'"
proof -
  obtain n p self where it: "sp_iters sp ! m = (n, p)" "n < length bss"
    "sp_tables sp ! n = all_entries (bss ! n)" "serving D (cl_tables s ! n) (bss ! n)"
    "m < length (cl_iters s)" "cl_iters s ! m = self"
    "table_at D DefaultCmp cap (of_nat (length bss)) (tables_set (cl_tables s) bss)
       (bss ! n) (all_entries (bss ! n)) p (self, cl_cache s)"
    using client_iter [OF rel m] by blast
  have "spec_iter sp m = (all_entries (bss ! n), p)" using it(1,3) by (simp add: spec_iter_def)
  from f [OF this it(4,7)] obtain r it' c' where
    "f (self, cl_cache s) = Some (r, it', c')" "ans r = a"
    "table_at D DefaultCmp cap (of_nat (length bss)) (tables_set (cl_tables s) bss)
       (bss ! n) (all_entries (bss ! n)) p' (it', c')" by fastforce
  with client_rel_move [OF rel it(1,2)] it(5,6) show ?thesis by (simp add: with_iter_def run_simps)
qed

section \<open>Every step\<close>

lemma spec_move_same: "m < length (sp_iters sp) \<Longrightarrow> spec_iter sp m = (kvs, p) \<Longrightarrow> spec_move m p sp = sp"
  by (cases "sp_iters sp ! m") (auto simp: spec_move_def spec_iter_def list_update_same_conv)

lemma iter_step:
  assumes rel: "client_rel D cap bss sp s" and ok: "permitted sp cmd"
    and cmd: "cmd \<in> {Next m, Current m, Prev m, Seek m k, Reset m}"
  shows "\<exists>s'. client_step D cmd s = Some (fst (spec_step cmd sp), s') \<and>
    client_rel D cap bss (snd (spec_step cmd sp)) s'"
proof -
  have m: "m < length (sp_iters sp)" using ok cmd by auto
  obtain kvs p where kp: "spec_iter sp m = (kvs, p)" by (cases "spec_iter sp m")
  consider "cmd = Next m" | "cmd = Current m" | "cmd = Prev m" | "cmd = Seek m k" | "cmd = Reset m"
    using cmd by blast
  then show ?thesis
  proof cases
    case 1
    let ?q = "if next_pos p < length kvs then Some (next_pos p) else None"
    have "\<exists>s'. with_iter (SSIterator_next (TableIterator_advance D) TableIterator_current) Entry m s =
        Some (Entry (if next_pos p < length kvs then Some (kvs ! next_pos p) else None), s') \<and>
        client_rel D cap bss (spec_move m ?q sp) s'"
    proof (rule with_iter_rel [OF rel m])
      fix t bs p' self c cid T
      assume "spec_iter sp m = (all_entries bs, p')"
        "table_at D DefaultCmp cap cid T bs (all_entries bs) p' (self, c)"
      with next_step [of D DefaultCmp cap cid T bs "all_entries bs" p' "(self, c)"] kp
      show "\<exists>r it'. SSIterator_next (TableIterator_advance D) TableIterator_current (self, c) = Some (r, it') \<and>
          Entry r = Entry (if next_pos p < length kvs then Some (kvs ! next_pos p) else None) \<and>
          table_at D DefaultCmp cap cid T bs (all_entries bs) ?q it'" by auto
    qed
    then show ?thesis using 1 kp by (auto simp: Let_def)
  next
    case 2
    have "\<exists>s'. with_iter (\<lambda>it. do { kv \<leftarrow> current_key_val TableIterator_current it; Some (kv, it) }) Entry m s =
        Some (Entry (map_option (\<lambda>i. kvs ! i) p), s') \<and> client_rel D cap bss (spec_move m p sp) s'"
      by (rule with_iter_rel [OF rel m]) (use kp current_step in fastforce)
    then show ?thesis using 2 kp spec_move_same [OF m kp] by simp
  next
    case 3
    then obtain i where i: "p = Some (Suc i)"
      using ok kp by (auto simp: spec_iter_def split_beta)
    have "\<exists>s'. with_iter (TableIterator_prev D) Moved m s = Some (Moved True, s') \<and>
        client_rel D cap bss (spec_move m (Some i) sp) s'"
      by (rule with_iter_rel [OF rel m]) (use kp i prev_step in fastforce)
    then show ?thesis using 3 kp i by simp
  next
    case 4
    have "\<exists>s'. with_iter (\<lambda>it. do { it \<leftarrow> TableIterator_seek D it k; Some ((), it) }) (\<lambda>_. Done) m s =
        Some (Done, s') \<and> client_rel D cap bss (spec_move m (seek_pos DefaultCmp k kvs) sp) s'"
    proof (rule with_iter_rel [OF rel m])
      fix t bs p' self c cid T
      assume "spec_iter sp m = (all_entries bs, p')" "serving D t bs"
        "table_at D DefaultCmp cap cid T bs (all_entries bs) p' (self, c)"
      with seek_step [of D cap cid T bs p' self c k] kp ok 4
      show "\<exists>r it'. do { it \<leftarrow> TableIterator_seek D (self, c) k; Some ((), it) } = Some (r, it') \<and>
          Done = Done \<and> table_at D DefaultCmp cap cid T bs (all_entries bs) (seek_pos DefaultCmp k kvs) it'"
        by (fastforce simp: serving_def simp del: TableIterator_seek.simps)
    qed
    then show ?thesis using 4 kp by simp
  next
    case 5
    have "\<exists>s'. with_iter (\<lambda>it. Some ((), TableIterator_reset it)) (\<lambda>_. Done) m s = Some (Done, s') \<and>
        client_rel D cap bss (spec_move m None sp) s'"
      by (rule with_iter_rel [OF rel m]) (use reset_step in fastforce)
    then show ?thesis using 5 by simp
  qed
qed

lemma get_step:
  assumes rel: "client_rel D cap bss sp s" and ok: "permitted sp (Get n key)"
  shows "\<exists>s'. client_step D (Get n key) s = Some (fst (spec_step (Get n key) sp), s') \<and>
    client_rel D cap bss (snd (spec_step (Get n key) sp)) s'"
proof -
  let ?T = "tables_set (cl_tables s) bss" and ?t = "cl_tables s ! n" and ?bs = "bss ! n"
  have bss: "map all_entries bss = sp_tables sp" "list_all2 (serving D) (cl_tables s) bss"
    and inv: "cache_inv D cap (of_nat (length bss)) ?T (cl_cache s)"
    and its: "iters_rel D cap (of_nat (length bss)) ?T bss (cl_cache s) (cl_iters s) (sp_iters sp)"
    using rel by (simp_all add: client_rel_def)
  have lens: "length (cl_tables s) = length bss" "length (sp_tables sp) = length bss"
    using bss(2) by (auto dest: list_all2_lengthD simp flip: bss(1))
  then have n: "n < length bss" "n < length (cl_tables s)" using ok by simp_all
  have serving: "serving D ?t ?bs" using bss(2) n by (simp add: list_all2_conv_all_nth)
  have kvs: "sp_tables sp ! n = all_entries ?bs" using n by (simp flip: bss(1))
  have T: "(?t, ?bs) \<in> ?T" using n by (auto simp: tables_set_def set_zip)
  obtain opt data fs where opt: "opt_cmp opt = DefaultCmp" "table_view D opt data ?bs fs ?t"
    "nonempty_filter_policy (opt_filter_policy opt)" "\<not> zero_extended (all_entries ?bs)"
    using serving by (auto simp: serving_def)
  have D: "third_party_laws D" using rel by (simp add: client_rel_def)
  then have tr: "table_reader D DefaultCmp"
    using default_cmp.comparator_axioms by (simp add: table_reader_def)
  have "\<forall>k. cmp DefaultCmp k key = Equal \<longrightarrow> k = key" by simp
  from table_reader.Table_get_inv [OF tr opt(2,1,3) this _ T inv] ok obtain c' where
    c': "Table_get D ?t key (cl_cache s) = Some (Inr (get_result DefaultCmp key ?bs), c')"
      "cache_inv D cap (of_nat (length bss)) ?T c'" by auto
  note v = table_reader.view_blocks [OF tr opt(2,1)]
  have "get_result DefaultCmp key ?bs = map_of (all_entries ?bs) key"
    using get_result_default [OF v(2) _ opt(4)] v(5) by blast
  moreover have "iters_rel D cap (of_nat (length bss)) ?T (bss @ []) c' (cl_iters s) (sp_iters sp)"
    by (rule iters_rel_transfer [OF its c'(2) subset_refl])
  ultimately show ?thesis using c' n kvs bss rel D by (simp add: client_rel_def run_simps)
qed

lemma new_iter_step:
  assumes rel: "client_rel D cap bss sp s" and ok: "permitted sp (NewIter n)"
  shows "\<exists>s'. client_step D (NewIter n) s = Some (fst (spec_step (NewIter n) sp), s') \<and>
    client_rel D cap bss (snd (spec_step (NewIter n) sp)) s'"
proof -
  let ?T = "tables_set (cl_tables s) bss" and ?t = "cl_tables s ! n" and ?bs = "bss ! n"
  have bss: "map all_entries bss = sp_tables sp" "list_all2 (serving D) (cl_tables s) bss"
    and inv: "cache_inv D cap (of_nat (length bss)) ?T (cl_cache s)" and D: "third_party_laws D"
    using rel by (simp_all add: client_rel_def)
  have lens: "length (cl_tables s) = length bss" "length (sp_tables sp) = length bss"
    using bss(2) by (auto dest: list_all2_lengthD simp flip: bss(1))
  then have n: "n < length bss" "n < length (cl_tables s)" using ok by simp_all
  then have T: "(?t, ?bs) \<in> ?T" by (auto simp: tables_set_def set_zip)
  have "serving D ?t ?bs" using bss(2) n by (simp add: list_all2_conv_all_nth)
  then obtain opt data fs where opt: "opt_cmp opt = DefaultCmp" "table_view D opt data ?bs fs ?t"
    by (auto simp: serving_def)
  have tr: "table_reader D DefaultCmp"
    using D default_cmp.comparator_axioms by (simp add: table_reader_def)
  from table_reader.index_iter [OF tr opt(2,1)] obtain ix where
    ix: "Block_iter D (tab_index_block ?t) = Some ix"
      "block_at D DefaultCmp (index_entries D ?bs) None ix" by blast
  define self where "self = \<lparr>ti_table = ?t, ti_current_block = None, ti_current_block_off = 0,
    ti_index_block = ix\<rparr>"
  have "table_at D DefaultCmp cap (of_nat (length bss)) ?T ?bs (all_entries ?bs) None (self, cl_cache s)"
    using ix(2) opt T inv tr by (auto simp: table_at_none reading_def before_blocks_def self_def)
  then have "iters_rel D cap (of_nat (length bss)) ?T bss (cl_cache s) (cl_iters s @ [self])
      (sp_iters sp @ [(n, None)])"
    using rel n by (auto simp: client_rel_def iters_rel_def intro!: list_all2_appendI)
  then show ?thesis
    using n ix(1) rel by (simp add: client_rel_def Table_iter_def run_simps self_def)
qed

lemma open_step:
  assumes rel: "client_rel D cap bss sp s" and ok: "permitted sp (OpenTable opt kvs)"
  shows "\<exists>s' bs. client_step D (OpenTable opt kvs) s = Some (fst (spec_step (OpenTable opt kvs) sp), s') \<and>
    client_rel D cap (bss @ [bs]) (snd (spec_step (OpenTable opt kvs) sp)) s'"
proof -
  let ?T = "tables_set (cl_tables s) bss" and ?cid = "of_nat (length bss) :: u64"
  have bss: "map all_entries bss = sp_tables sp" "list_all2 (serving D) (cl_tables s) bss"
    and inv: "cache_inv D cap ?cid ?T (cl_cache s)" and D: "third_party_laws D"
    and its: "iters_rel D cap ?cid ?T bss (cl_cache s) (cl_iters s) (sp_iters sp)"
    using rel by (simp_all add: client_rel_def)
  have lens: "length (cl_tables s) = length bss" "length (sp_tables sp) = length bss"
    using bss(2) by (auto dest: list_all2_lengthD simp flip: bss(1))
  then have small: "length bss + 1 < 2 ^ 64" using ok by simp
  then have cid: "unat ?cid = length bss"
    by (simp add: unat_of_nat take_bit_nat_eq_self_iff)
  have caid: "ca_id (cl_cache s) = ?cid" by (rule cache_inv_id [OF inv])
  have opt: "opt_cmp opt = DefaultCmp" "table_fits opt kvs" "\<not> zero_extended kvs"
    "nonempty_filter_policy (opt_filter_policy opt)" using ok by simp_all
  have "short_comparator (opt_cmp opt)" unfolding opt(1) by (rule default_cmp.short_comparator_axioms)
  from build_open [OF D this opt(2) refl refl, of "cl_cache s"] cid small caid obtain data t bs fs where
    t: "build_file D opt kvs = Some (Inr data)"
      "open_file D opt data (cl_cache s) = Some (Inr t, cl_cache s\<lparr>ca_id := ?cid + 1\<rparr>)"
      "table_view D opt data bs fs t" "tab_cache_id t = ?cid + 1" "all_entries bs = kvs"
    by (auto simp: caid)
  have "(\<forall>b \<in> set bs. handle_ok (db_handle b)) \<and> distinct (map (\<lambda>b. bh_offset (db_handle b)) bs)"
    by (rule table_view_handles [OF t(3)])
  then have inv': "cache_inv D cap (?cid + 1) (insert (t, bs) ?T) (cl_cache s\<lparr>ca_id := ?cid + 1\<rparr>)"
    using integer_codec.cache_inv_open [OF third_party_laws.axioms(1) [OF D] inv _ t(4)] cid small
    by simp
  have T: "tables_set (cl_tables s @ [t]) (bss @ [bs]) = insert (t, bs) ?T"
    using lens by (simp add: tables_set_def)
  have cid': "?cid + 1 = of_nat (length (bss @ [bs]))" by simp
  have "serving D t bs" using t(3,5) opt by (auto simp: serving_def)
  moreover have "iters_rel D cap (?cid + 1) (insert (t, bs) ?T) (bss @ [bs])
      (cl_cache s\<lparr>ca_id := ?cid + 1\<rparr>) (cl_iters s) (sp_iters sp)"
    by (rule iters_rel_transfer [OF its inv']) blast
  ultimately have "client_rel D cap (bss @ [bs]) (sp\<lparr>sp_tables := sp_tables sp @ [kvs]\<rparr>)
      (s\<lparr>cl_tables := cl_tables s @ [t], cl_cache := cl_cache s\<lparr>ca_id := ?cid + 1\<rparr>\<rparr>)"
    using D bss t(5) small inv' unfolding client_rel_def cid' T [symmetric]
    by (simp add: list_all2_appendI)
  then show ?thesis using t by auto
qed

lemma client_step_refines:
  assumes rel: "client_rel D cap bss sp s" and ok: "permitted sp cmd"
  shows "\<exists>s' bss'. client_step D cmd s = Some (fst (spec_step cmd sp), s') \<and>
    client_rel D cap bss' (snd (spec_step cmd sp)) s'"
proof (cases cmd)
  case (OpenTable opt kvs)
  then show ?thesis using open_step rel ok by blast
next
  case (Get n key)
  then show ?thesis using get_step rel ok by blast
next
  case (NewIter n)
  then show ?thesis using new_iter_step rel ok by blast
qed (use iter_step [OF rel ok] in blast)+

section \<open>Runs\<close>

text \<open>A run gives the answers to a list of commands, the client starts with an empty cache.\<close>

fun client_run :: "deps \<Rightarrow> command list \<Rightarrow> client \<Rightarrow> (answer list \<times> client) run" where
  "client_run D [] s = Some ([], s)"
| "client_run D (cmd # cmds) s =
     do {
       (a, s) \<leftarrow> client_step D cmd s;
       (as, s) \<leftarrow> client_run D cmds s;
       Some (a # as, s)
     }"

definition client_start :: "nat \<Rightarrow> client run" where
  "client_start cap = do { c \<leftarrow> Cache_new cap; Some \<lparr>cl_tables = [], cl_iters = [], cl_cache = c\<rparr> }"

definition spec_start :: spec where
  "spec_start = \<lparr>sp_tables = [], sp_iters = []\<rparr>"

fun spec_run :: "command list \<Rightarrow> spec \<Rightarrow> answer list" where
  "spec_run [] sp = []"
| "spec_run (cmd # cmds) sp = fst (spec_step cmd sp) # spec_run cmds (snd (spec_step cmd sp))"

fun permitted_run :: "command list \<Rightarrow> spec \<Rightarrow> bool" where
  "permitted_run [] sp \<longleftrightarrow> True"
| "permitted_run (cmd # cmds) sp \<longleftrightarrow> permitted sp cmd \<and> permitted_run cmds (snd (spec_step cmd sp))"

lemma client_run_refines:
  "client_rel D cap bss sp s \<Longrightarrow> permitted_run cmds sp \<Longrightarrow>
   \<exists>s'. client_run D cmds s = Some (spec_run cmds sp, s')"
proof (induction cmds arbitrary: bss sp s)
  case (Cons cmd cmds)
  from client_step_refines [OF Cons.prems(1), of cmd] Cons.prems(2) obtain s1 bss1 where
    s1: "client_step D cmd s = Some (fst (spec_step cmd sp), s1)"
      "client_rel D cap bss1 (snd (spec_step cmd sp)) s1" by auto
  from Cons.IH [OF s1(2)] Cons.prems(2) s1(1) show ?case by auto
qed simp

lemma client_start_rel:
  assumes "third_party_laws D" "0 < cap" "cap < 2 ^ 64"
  shows "\<exists>s. client_start cap = Some s \<and> client_rel D cap [] spec_start s"
  using cache_inv_new [OF assms(2,3), of D] assms(1)
  by (auto simp: client_start_def client_rel_def spec_start_def tables_set_def iters_rel_def)

text \<open>C1: Any number of tables may share one cache, with lookups and iterators on them in any order: every
  permitted sequence of commands runs without a panic or an error, and its answers are those of
  the specification, in which a table is its list of entries and an iterator is a position.\<close>

theorem client_refines_spec:
  assumes "third_party_laws D" "0 < cap" "cap < 2 ^ 64" "permitted_run cmds spec_start"
  shows "\<exists>s s'. client_start cap = Some s \<and> client_run D cmds s = Some (spec_run cmds spec_start, s')"
  using client_start_rel [OF assms(1-3)] client_run_refines [OF _ assms(4)] by blast

definition sample_cmds :: "command list" where
  "sample_cmds =
     [OpenTable small_opt sample_kvs, NewIter 0, Next 0, OpenTable small_opt [([1, 3], [5])],
      Get 0 [1, 3], Get 1 [1, 3], NewIter 1, Next 1, Seek 0 [1, 3], Prev 0, Current 0, Next 1,
      Get 1 [2], Reset 0, Current 0]"

theorem client_refines_spec_witness:
  "\<exists>s s'. client_start 1 = Some s \<and> client_run reference_deps sample_cmds s =
    Some ([Opened, Done, Entry (Some ([1, 2], [7])), Opened, Value (Some [8, 9]), Value (Some [5]),
      Done, Entry (Some ([1, 3], [5])), Done, Moved True, Entry (Some ([1, 2, 3], [])), Entry None,
      Value None, Done, Entry None], s')"
proof -
  have fits2: "table_fits small_opt [([1, 3], [5])]"
    by (rule small_fits) (simp_all add: ascending_def entry_weight_def)
  have pos: "seek_pos DefaultCmp [1, 3] sample_kvs = Some (Suc (Suc 0))"
    by (simp add: seek_pos_def seek_index_def sample_kvs_def DefaultCmp_def)
  have kvs: "sample_kvs ! 0 = ([1, 2], [7])" "sample_kvs ! Suc 0 = ([1, 2, 3], [])" "0 < length sample_kvs"
    "[1, 3] \<in> fst ` set sample_kvs" "map_of sample_kvs [1, 3] = Some [8, 9]" "sample_kvs \<noteq> []"
    by (simp_all add: sample_kvs_def)
  have "\<not> zero_extended [([1, 3], [5])]" by (simp add: zero_extended_def)
  note facts = fits2 sample_fits sample_not_extended bloom.nonempty_filter_policy_axioms pos kvs this
  have "permitted_run sample_cmds spec_start"
    by (simp add: sample_cmds_def spec_start_def spec_iter_def spec_move_def facts)
  moreover have "spec_run sample_cmds spec_start =
      [Opened, Done, Entry (Some ([1, 2], [7])), Opened, Value (Some [8, 9]), Value (Some [5]),
       Done, Entry (Some ([1, 3], [5])), Done, Moved True, Entry (Some ([1, 2, 3], [])), Entry None,
       Value None, Done, Entry None]"
    by (simp add: sample_cmds_def spec_start_def spec_iter_def spec_move_def facts)
  ultimately show ?thesis
    using client_refines_spec [OF ref_deps.third_party_laws_axioms, of 1 sample_cmds] by simp
qed

end
