(* ===== verification/SST_Corruption.thy ===== *)
theory SST_Corruption
  imports SST_TableThms
begin

text \<open>
  Files whose data blocks are damaged. A table is opened from such a file as before, because
  opening reads only what follows the data blocks. A damaged block is an error when it is read;
  the iterator skips it and goes on with the next block, and the cache never holds it.
\<close>

section \<open>A table with unreadable blocks\<close>

text \<open>
  \<open>bad\<close> are the blocks that cannot be read. In all other respects the table is one that was
  opened from \<open>file\<close>.
\<close>

definition damaged_view ::
  "deps \<Rightarrow> Options \<Rightarrow> bytes \<Rightarrow> data_block list \<Rightarrow> bytes list \<Rightarrow> data_block set \<Rightarrow> Table \<Rightarrow> bool" where
  "damaged_view D opt file blocks fs bad t \<longleftrightarrow>
     table_view D opt file blocks fs (t\<lparr>tab_file := BufferBackedFile_read_at file\<rparr>) \<and>
     (\<forall>b \<in> set blocks.
        (b \<in> bad \<longrightarrow> (\<exists>e. read_table_block D opt (tab_file t) (db_handle b) = Some (Inl e))) \<and>
        (b \<notin> bad \<longrightarrow> (\<exists>contents. read_table_block D opt (tab_file t) (db_handle b) =
            ok \<lparr>blk_contents = contents, blk_opt = opt\<rparr> \<and> holds_entries D contents (db_entries b))))"

text \<open>Only readable blocks are cached, each under its own key.\<close>

definition cached_good :: "deps \<Rightarrow> Table \<Rightarrow> data_block list \<Rightarrow> CacheKey \<Rightarrow> Block \<Rightarrow> bool" where
  "cached_good D t good k v \<longleftrightarrow>
     (\<exists>b \<in> set good. k = block_cache_handle D t (bh_offset (db_handle b)) \<and>
        (\<exists>contents. v = \<lparr>blk_contents = contents, blk_opt = tab_opt t\<rparr> \<and>
           holds_entries D contents (db_entries b)))"

definition good_blocks :: "data_block set \<Rightarrow> data_block list \<Rightarrow> data_block list" where
  "good_blocks bad blocks = filter (\<lambda>b. b \<notin> bad) blocks"

definition damaged_reading ::
  "deps \<Rightarrow> Cmp \<Rightarrow> nat \<Rightarrow> data_block list \<Rightarrow> data_block set \<Rightarrow> Table \<Rightarrow> block_cache \<Rightarrow> bool" where
  "damaged_reading D C cap blocks bad t c \<longleftrightarrow>
     table_reader D C \<and>
     (\<exists>opt file fs. opt_cmp opt = C \<and> damaged_view D opt file blocks fs bad t) \<and>
     coherent (cache_holds cap 1) (cached_good D t (good_blocks bad blocks)) c"

lemma damaged_blocks:
  assumes "damaged_reading D C cap blocks bad t c"
  shows "\<And>b. b \<in> set blocks \<Longrightarrow> db_entries b \<noteq> []"
    "ascending C (map fst (all_entries blocks))" "[] \<notin> fst ` set (all_entries blocks)"
    "\<And>b. b \<in> set blocks \<Longrightarrow> handle_ok (db_handle b)"
    "distinct (map (\<lambda>b. bh_offset (db_handle b)) blocks)"
proof -
  obtain opt f fs where view: "damaged_view D opt f blocks fs bad t" "opt_cmp opt = C"
    and tr: "table_reader D C" using assms by (auto simp: damaged_reading_def)
  then have tv: "table_view D opt f blocks fs (t\<lparr>tab_file := BufferBackedFile_read_at f\<rparr>)"
    by (simp add: damaged_view_def)
  note v = table_reader.view_blocks [OF tr tv view(2)]
  show "\<And>b. b \<in> set blocks \<Longrightarrow> db_entries b \<noteq> []"
    "ascending C (map fst (all_entries blocks))" "[] \<notin> fst ` set (all_entries blocks)"
    "\<And>b. b \<in> set blocks \<Longrightarrow> handle_ok (db_handle b)"
    "distinct (map (\<lambda>b. bh_offset (db_handle b)) blocks)"
    using v table_view_handles [OF tv] by auto
qed

lemma same_key_same_block:
  assumes rd: "damaged_reading D C cap blocks bad t c" and b: "b \<in> set blocks" "b' \<in> set blocks"
    and k: "block_cache_handle D t (bh_offset (db_handle b)) = block_cache_handle D t (bh_offset (db_handle b'))"
  shows "b = b'"
proof -
  have codec: "integer_codec D"
    using rd by (simp add: damaged_reading_def table_reader_def third_party_laws_def)
  have "handle_ok (db_handle b)" "handle_ok (db_handle b')" using damaged_blocks(4) [OF rd] b by blast+
  then have "bh_offset (db_handle b) = bh_offset (db_handle b')"
    using integer_codec.block_cache_handle_inject [OF codec k]
    by (intro integer_codec.usize_as_u64_inject [OF codec]) (simp_all add: handle_ok_def)
  with damaged_blocks(5) [OF rd] b show ?thesis by (auto simp: distinct_map inj_on_def)
qed

lemma damaged_read_block:
  assumes rd: "damaged_reading D C cap blocks bad t c" and b: "b \<in> set blocks"
  shows "b \<notin> bad \<Longrightarrow> \<exists>contents c'. Table_read_block D t (db_handle b) c =
      Some (Inr \<lparr>blk_contents = contents, blk_opt = tab_opt t\<rparr>, c') \<and>
      holds_entries D contents (db_entries b) \<and> damaged_reading D C cap blocks bad t c'"
    and "b \<in> bad \<Longrightarrow> \<exists>e c'. Table_read_block D t (db_handle b) c = Some (Inl e, c') \<and>
      read_table_block D (tab_opt t) (tab_file t) (db_handle b) = Some (Inl e) \<and>
      damaged_reading D C cap blocks bad t c'"
proof -
  let ?k = "block_cache_handle D t (bh_offset (db_handle b))"
  let ?good = "cached_good D t (good_blocks bad blocks)"
  obtain opt f fs where view: "damaged_view D opt f blocks fs bad t"
    and c: "coherent (cache_holds cap 1) ?good c"
    using rd by (auto simp: damaged_reading_def)
  have opt: "tab_opt t = opt" using view by (simp add: damaged_view_def table_view_def)
  have keep: "damaged_reading D C cap blocks bad t c'" if "coherent (cache_holds cap 1) ?good c'" for c'
    using rd that by (simp add: damaged_reading_def)
  from lru_cache.get_coherent [OF c, of ?k] obtain r c1 where
    c1: "Cache_get c ?k = Some (r, c1)" "coherent (cache_holds cap 1) ?good c1"
      "\<forall>v. r = Some v \<longrightarrow> ?good ?k v"
      "r = None \<longrightarrow> (\<forall>v. ?good ?k v \<longrightarrow>
        (\<exists>c2. Cache_insert c1 ?k v = Some c2 \<and> coherent (cache_holds cap 1) ?good c2))"
    by auto
  have cached: "b \<notin> bad \<and> (\<exists>contents. v = \<lparr>blk_contents = contents, blk_opt = opt\<rparr> \<and>
      holds_entries D contents (db_entries b))" if "r = Some v" for v
  proof -
    from that c1(3) obtain b' contents where b': "b' \<in> set blocks" "b' \<notin> bad"
      "?k = block_cache_handle D t (bh_offset (db_handle b'))"
      "v = \<lparr>blk_contents = contents, blk_opt = opt\<rparr>" "holds_entries D contents (db_entries b')"
      using opt by (auto simp: cached_good_def good_blocks_def)
    from same_key_same_block [OF rd b b'(1,3)] b' show ?thesis by blast
  qed
  {
    assume good: "b \<notin> bad"
    show "\<exists>contents c'. Table_read_block D t (db_handle b) c =
        Some (Inr \<lparr>blk_contents = contents, blk_opt = tab_opt t\<rparr>, c') \<and>
        holds_entries D contents (db_entries b) \<and> damaged_reading D C cap blocks bad t c'"
    proof (cases r)
      case (Some v)
      then show ?thesis
        using cached [OF Some] c1(1,2) keep opt by (auto simp: Table_read_block_def)
    next
      case None
      obtain contents where contents: "read_table_block D opt (tab_file t) (db_handle b) =
          ok \<lparr>blk_contents = contents, blk_opt = opt\<rparr>" "holds_entries D contents (db_entries b)"
        using view b good by (auto simp: damaged_view_def)
      let ?v = "\<lparr>blk_contents = contents, blk_opt = opt\<rparr>"
      have "?good ?k ?v" using b good opt contents(2) by (auto simp: cached_good_def good_blocks_def)
      with None c1(4) obtain c2 where
        "Cache_insert c1 ?k ?v = Some c2" "coherent (cache_holds cap 1) ?good c2" by blast
      then show ?thesis
        using None c1(1) contents opt keep by (auto simp: Table_read_block_def ok_def)
    qed
  next
    assume bad: "b \<in> bad"
    then have "r = None" using cached by (cases r) auto
    moreover obtain e where "read_table_block D opt (tab_file t) (db_handle b) = Some (Inl e)"
      using view b bad by (auto simp: damaged_view_def)
    ultimately show "\<exists>e c'. Table_read_block D t (db_handle b) c = Some (Inl e, c') \<and>
        read_table_block D (tab_opt t) (tab_file t) (db_handle b) = Some (Inl e) \<and>
        damaged_reading D C cap blocks bad t c'"
      using c1(1,2) keep opt by (auto simp: Table_read_block_def)
  }
qed

section \<open>Skipping blocks\<close>

lemma damaged_load:
  assumes rd: "damaged_reading D C cap blocks bad (ti_table self) c" and b: "b \<in> set blocks"
  shows "b \<notin> bad \<Longrightarrow> \<exists>cb c'. load_block D (self, c) (handle_bytes D (db_handle b)) =
      Some (Inr (), self\<lparr>ti_current_block := Some cb,
        ti_current_block_off := bh_offset (db_handle b)\<rparr>, c') \<and>
      block_at D C (db_entries b) None cb \<and> damaged_reading D C cap blocks bad (ti_table self) c'"
    and "b \<in> bad \<Longrightarrow> \<exists>e c'. load_block D (self, c) (handle_bytes D (db_handle b)) = Some (Inl e, self, c') \<and>
      damaged_reading D C cap blocks bad (ti_table self) c'"
proof -
  have tr: "table_reader D C" using rd by (simp add: damaged_reading_def)
  have opt: "opt_cmp (tab_opt (ti_table self)) = C"
    using rd by (auto simp: damaged_reading_def damaged_view_def table_view_def)
  have "integer_codec D" using tr by (simp add: table_reader_def third_party_laws_def)
  then have handle: "BlockHandle_decode D (handle_bytes D (db_handle b) @ []) =
      Some (db_handle b, length (handle_bytes D (db_handle b)))"
    by (rule integer_codec.decode_handle_bytes) (rule damaged_blocks(4) [OF rd b])
  {
    assume "b \<notin> bad"
    from damaged_read_block(1) [OF rd b this] obtain contents c' where
      c': "Table_read_block D (ti_table self) (db_handle b) c =
        Some (Inr \<lparr>blk_contents = contents, blk_opt = tab_opt (ti_table self)\<rparr>, c')"
      "holds_entries D contents (db_entries b)" "damaged_reading D C cap blocks bad (ti_table self) c'" by blast
    have "ascending C (map fst (db_entries b))" by (rule ascending_all_entries [OF damaged_blocks(2) [OF rd] b])
    moreover have "[] \<notin> db_keys b" using damaged_blocks(3) [OF rd] b by (auto simp: all_entries_set)
    ultimately obtain cb where
      "Block_iter D \<lparr>blk_contents = contents, blk_opt = tab_opt (ti_table self)\<rparr> = Some cb"
      "block_at D C (db_entries b) None cb"
      using Block_iter_holds [OF table_reader.ordered [OF tr] opt c'(2)] by blast
    with c' handle show "\<exists>cb c'. load_block D (self, c) (handle_bytes D (db_handle b)) =
        Some (Inr (), self\<lparr>ti_current_block := Some cb,
          ti_current_block_off := bh_offset (db_handle b)\<rparr>, c') \<and>
        block_at D C (db_entries b) None cb \<and> damaged_reading D C cap blocks bad (ti_table self) c'"
      by auto
  next
    assume "b \<in> bad"
    from damaged_read_block(2) [OF rd b this] handle
    show "\<exists>e c'. load_block D (self, c) (handle_bytes D (db_handle b)) = Some (Inl e, self, c') \<and>
        damaged_reading D C cap blocks bad (ti_table self) c'"
      by auto
  }
qed

text \<open>The next block that can be read, from block \<open>i\<close> on.\<close>

definition next_good :: "data_block set \<Rightarrow> data_block list \<Rightarrow> nat \<Rightarrow> nat" where
  "next_good bad blocks i = i + length (takeWhile (\<lambda>b. b \<in> bad) (drop i blocks))"

lemma next_good_step:
  assumes "i < length blocks"
  shows "next_good bad blocks i = (if blocks ! i \<in> bad then next_good bad blocks (Suc i) else i)"
  using Cons_nth_drop_Suc [OF assms, symmetric] by (simp add: next_good_def)

lemma next_good_end: "length blocks \<le> i \<Longrightarrow> next_good bad blocks i = i"
  by (simp add: next_good_def)

lemma next_good_readable: "next_good bad blocks i < length blocks \<Longrightarrow> blocks ! next_good bad blocks i \<notin> bad"
  using nth_length_takeWhile [of "\<lambda>b. b \<in> bad" "drop i blocks"] by (simp add: next_good_def)

lemma damaged_skip:
  assumes rd: "damaged_reading D C cap blocks bad (ti_table self) c"
    and ix: "block_at D C (index_entries D blocks) p (ti_index_block self)"
    and i: "next_pos p < length blocks" and cur: "ti_current_block self = None"
  shows "blocks ! next_pos p \<notin> bad \<Longrightarrow> \<exists>self' c'. skip_to_next_entry D (self, c) = Some (Inr True, self', c') \<and>
      in_block D C blocks (next_pos p) None self' \<and> damaged_reading D C cap blocks bad (ti_table self') c'"
    and "blocks ! next_pos p \<in> bad \<Longrightarrow> \<exists>e self' c'. skip_to_next_entry D (self, c) = Some (Inl e, self', c') \<and>
      block_at D C (index_entries D blocks) (Some (next_pos p)) (ti_index_block self') \<and>
      ti_current_block self' = None \<and> damaged_reading D C cap blocks bad (ti_table self') c'"
proof -
  let ?b = "blocks ! next_pos p"
  obtain ix' where ix': "BlockIter_next D (ti_index_block self) =
      Some (Some (index_entries D blocks ! next_pos p), ix')"
    "block_at D C (index_entries D blocks) (Some (next_pos p)) ix'"
    using index_next(1) [OF ix i] by blast
  have entry: "index_entries D blocks ! next_pos p = (db_sep ?b, handle_bytes D (db_handle ?b))"
    using i by (simp add: index_entries_def)
  let ?self = "self\<lparr>ti_index_block := ix'\<rparr>"
  have rd': "damaged_reading D C cap blocks bad (ti_table ?self) c" and b: "?b \<in> set blocks"
    using rd i by simp_all
  {
    assume "?b \<notin> bad"
    with damaged_load(1) [OF rd' b] ix' entry i
    show "\<exists>self' c'. skip_to_next_entry D (self, c) = Some (Inr True, self', c') \<and>
        in_block D C blocks (next_pos p) None self' \<and> damaged_reading D C cap blocks bad (ti_table self') c'"
      by (fastforce simp: in_block_def simp del: load_block.simps)
  next
    assume "?b \<in> bad"
    with damaged_load(2) [OF rd' b] ix' entry i cur
    show "\<exists>e self' c'. skip_to_next_entry D (self, c) = Some (Inl e, self', c') \<and>
        block_at D C (index_entries D blocks) (Some (next_pos p)) (ti_index_block self') \<and>
        ti_current_block self' = None \<and> damaged_reading D C cap blocks bad (ti_table self') c'"
      by (fastforce simp del: load_block.simps)
  }
qed

text \<open>Without a current block, \<open>advance\<close> goes to the first entry of the next readable block.\<close>

lemma damaged_advance_none:
  assumes "damaged_reading D C cap blocks bad (ti_table self) c" "ti_current_block self = None"
    and "block_at D C (index_entries D blocks) p (ti_index_block self)"
  shows "let i = next_good bad blocks (next_pos p) in
    \<exists>self' c'. damaged_reading D C cap blocks bad (ti_table self') c' \<and>
      (if i < length blocks
       then TableIterator_advance D (self, c) = Some (True, self', c') \<and> in_block D C blocks i (Some 0) self'
       else TableIterator_advance D (self, c) = Some (False, self', c') \<and> before_blocks D C blocks self')"
  using assms
proof (induction "length blocks - next_pos p" arbitrary: p self c)
  case 0
  then have le: "length blocks \<le> next_pos p" by simp
  from skip_end [OF 0(4) this, of c] obtain ix' where
    skip: "skip_to_next_entry D (self, c) = Some (Inr False, self\<lparr>ti_index_block := ix'\<rparr>, c)"
      "block_at D C (index_entries D blocks) None ix'" by blast
  have "before_blocks D C blocks (fst (TableIterator_reset (self\<lparr>ti_index_block := ix'\<rparr>, c)))"
    by (rule reset_before) (simp, rule skip(2))
  with skip(1) 0(2,3) le show ?case
    by (subst (1 2) TableIterator_advance.simps) (simp add: Let_def next_good_end del: skip_to_next_entry.simps)
next
  case (Suc n)
  then have i: "next_pos p < length blocks" by simp
  let ?i = "next_pos p"
  show ?case
  proof (cases "blocks ! ?i \<in> bad")
    case True
    from damaged_skip(2) [OF Suc.prems(1,3) i Suc.prems(2) True] obtain e self1 c1 where
      1: "skip_to_next_entry D (self, c) = Some (Inl e, self1, c1)"
      "block_at D C (index_entries D blocks) (Some ?i) (ti_index_block self1)" "ti_current_block self1 = None"
      "damaged_reading D C cap blocks bad (ti_table self1) c1" by blast
    have "n = length blocks - next_pos (Some ?i)" using Suc.hyps(2) by simp
    note IH = Suc.hyps(1) [OF this 1(4,3,2)]
    have "TableIterator_advance D (self, c) = TableIterator_advance D (self1, c1)"
      using 1(1) Suc.prems(2) by (subst TableIterator_advance.simps) (simp del: skip_to_next_entry.simps)
    moreover have "next_good bad blocks ?i = next_good bad blocks (next_pos (Some ?i))"
      using True by (simp add: next_good_step [OF i])
    ultimately show ?thesis using IH by (simp only:)
  next
    case False
    from damaged_skip(1) [OF Suc.prems(1,3) i Suc.prems(2) False] obtain self1 c1 where
      1: "skip_to_next_entry D (self, c) = Some (Inr True, self1, c1)" "in_block D C blocks ?i None self1"
      "damaged_reading D C cap blocks bad (ti_table self1) c1" by blast
    have "db_entries (blocks ! ?i) \<noteq> []" using damaged_blocks(1) [OF Suc.prems(1)] i by simp
    then have "next_pos None < length (db_entries (blocks ! ?i))" by simp
    from advance_in_block [OF 1(2) this, of c1] obtain self2 where
      2: "TableIterator_advance D (self1, c1) = Some (True, self2, c1)" "ti_table self2 = ti_table self1"
      "in_block D C blocks ?i (Some 0) self2" by auto
    have "TableIterator_advance D (self, c) = TableIterator_advance D (self1, c1)"
      using 1(1) Suc.prems(2) by (subst TableIterator_advance.simps) (simp del: skip_to_next_entry.simps)
    with 1(3) 2 False i show ?thesis by (auto simp: Let_def next_good_step)
  qed
qed

lemma advance_drop_current:
  assumes "advance_current D it = Some (False, it')" "ti_current_block (fst it) = Some cb"
  shows "TableIterator_advance D it = TableIterator_advance D (drop_current it')"
proof -
  have "ti_current_block (fst (drop_current it')) = None" by (cases it') simp
  with assms show ?thesis
    by (subst (1 2) TableIterator_advance.simps)
      (simp add: case_prod_beta del: skip_to_next_entry.simps advance_current.simps drop_current.simps)
qed

section \<open>The contract\<close>

text \<open>The number of readable entries before block \<open>i\<close>.\<close>

definition good_before :: "data_block set \<Rightarrow> data_block list \<Rightarrow> nat \<Rightarrow> nat" where
  "good_before bad blocks i = length (all_entries (good_blocks bad (take i blocks)))"

definition damaged_at ::
  "deps \<Rightarrow> Cmp \<Rightarrow> nat \<Rightarrow> data_block list \<Rightarrow> data_block set \<Rightarrow>
   (bytes \<times> bytes) list \<Rightarrow> nat option \<Rightarrow> table_iter \<Rightarrow> bool" where
  "damaged_at D C cap blocks bad es p it \<longleftrightarrow>
     es = all_entries (good_blocks bad blocks) \<and> damaged_reading D C cap blocks bad (ti_table (fst it)) (snd it) \<and>
     (case p of
        None \<Rightarrow> before_blocks D C blocks (fst it)
      | Some n \<Rightarrow> \<exists>i j. n = good_before bad blocks i + j \<and> blocks ! i \<notin> bad \<and> in_block D C blocks i (Some j) (fst it))"

lemma damaged_atI:
  assumes "damaged_reading D C cap blocks bad (ti_table self) c" "blocks ! i \<notin> bad"
    and "in_block D C blocks i (Some j) self"
  shows "damaged_at D C cap blocks bad (all_entries (good_blocks bad blocks))
    (Some (good_before bad blocks i + j)) (self, c)"
  using assms by (auto simp: damaged_at_def)

lemma good_before_Suc:
  "i < length blocks \<Longrightarrow> good_before bad blocks (Suc i) =
   good_before bad blocks i + (if blocks ! i \<in> bad then 0 else length (db_entries (blocks ! i)))"
  by (simp add: good_before_def good_blocks_def take_Suc_conv_app_nth)

lemma good_before_next: "good_before bad blocks (next_good bad blocks i) = good_before bad blocks i"
proof (induction "length blocks - i" arbitrary: i)
  case (Suc n)
  then have "i < length blocks" "n = length blocks - Suc i" by simp_all
  with Suc.hyps(1) [of "Suc i"] show ?case by (simp add: next_good_step good_before_Suc)
qed (simp add: next_good_end)

lemma good_before_end: "length blocks \<le> i \<Longrightarrow> good_before bad blocks i = length (all_entries (good_blocks bad blocks))"
  by (simp add: good_before_def)

lemma good_split:
  assumes "i < length blocks" "blocks ! i \<notin> bad"
  shows "all_entries (good_blocks bad blocks) = all_entries (good_blocks bad (take i blocks)) @
    db_entries (blocks ! i) @ all_entries (good_blocks bad (drop (Suc i) blocks))"
proof -
  have "good_blocks bad blocks = good_blocks bad (take i blocks @ blocks ! i # drop (Suc i) blocks)"
    using id_take_nth_drop [OF assms(1)] by simp
  then show ?thesis using assms(2) by (simp add: all_entries_def good_blocks_def)
qed

lemma good_nth:
  assumes "i < length blocks" "blocks ! i \<notin> bad" "j < length (db_entries (blocks ! i))"
  shows "good_before bad blocks i + j < length (all_entries (good_blocks bad blocks))"
    "all_entries (good_blocks bad blocks) ! (good_before bad blocks i + j) = db_entries (blocks ! i) ! j"
  using assms(3) by (simp_all add: good_split [OF assms(1,2)] good_before_def nth_append)

text \<open>Where \<open>advance\<close> arrives when it looks for a block from block \<open>i\<close> on.\<close>

lemma damaged_arrive:
  assumes "damaged_reading D C cap blocks bad (ti_table self) c" "ti_current_block self = None"
    and "block_at D C (index_entries D blocks) p (ti_index_block self)"
    and es: "es = all_entries (good_blocks bad blocks)" and n: "n = good_before bad blocks (next_pos p)"
  shows "n < length es \<Longrightarrow> \<exists>it'. TableIterator_advance D (self, c) = Some (True, it') \<and>
      damaged_at D C cap blocks bad es (Some n) it'"
    and "length es \<le> n \<Longrightarrow> \<exists>it'. TableIterator_advance D (self, c) = Some (False, it') \<and>
      damaged_at D C cap blocks bad es None it'"
proof -
  let ?i = "next_good bad blocks (next_pos p)"
  have n': "n = good_before bad blocks ?i" by (simp add: n good_before_next)
  from damaged_advance_none [OF assms(1-3)] obtain self' c' where
    1: "damaged_reading D C cap blocks bad (ti_table self') c'"
      "if ?i < length blocks
       then TableIterator_advance D (self, c) = Some (True, self', c') \<and> in_block D C blocks ?i (Some 0) self'
       else TableIterator_advance D (self, c) = Some (False, self', c') \<and> before_blocks D C blocks self'"
    by (auto simp: Let_def)
  have less: "?i < length blocks \<longleftrightarrow> n < length es"
  proof
    assume i: "?i < length blocks"
    then have "db_entries (blocks ! ?i) \<noteq> []" using damaged_blocks(1) [OF assms(1)] by simp
    then show "n < length es" using good_nth(1) [OF i next_good_readable [OF i], of 0] es n' by simp
  next
    assume "n < length es"
    then show "?i < length blocks" using good_before_end [of blocks ?i bad] es n' by (cases "?i < length blocks") simp_all
  qed
  {
    assume "n < length es"
    with 1 less have "TableIterator_advance D (self, c) = Some (True, self', c')"
      "in_block D C blocks ?i (Some 0) self'" "?i < length blocks" by simp_all
    with damaged_atI [OF 1(1) next_good_readable this(2)] n' es
    show "\<exists>it'. TableIterator_advance D (self, c) = Some (True, it') \<and> damaged_at D C cap blocks bad es (Some n) it'"
      by auto
  next
    assume "length es \<le> n"
    with 1 less es
    show "\<exists>it'. TableIterator_advance D (self, c) = Some (False, it') \<and> damaged_at D C cap blocks bad es None it'"
      by (intro exI [of _ "(self', c')"]) (auto simp: damaged_at_def)
  }
qed

lemma damaged_at_someE:
  assumes "damaged_at D C cap blocks bad es (Some n) (self, c)"
  obtains i j where "es = all_entries (good_blocks bad blocks)" "damaged_reading D C cap blocks bad (ti_table self) c"
    "n = good_before bad blocks i + j" "blocks ! i \<notin> bad" "in_block D C blocks i (Some j) self"
    "i < length blocks" "j < length (db_entries (blocks ! i))"
  using assms block_iter.at_bounds that by (fastforce simp: damaged_at_def in_block_def)

lemma damaged_advance_some:
  assumes at: "damaged_at D C cap blocks bad es (Some n) (self, c)"
  shows "Suc n < length es \<Longrightarrow> \<exists>it'. TableIterator_advance D (self, c) = Some (True, it') \<and>
      damaged_at D C cap blocks bad es (Some (Suc n)) it'"
    and "length es \<le> Suc n \<Longrightarrow> \<exists>it'. TableIterator_advance D (self, c) = Some (False, it') \<and>
      damaged_at D C cap blocks bad es None it'"
proof -
  obtain i j where ij: "es = all_entries (good_blocks bad blocks)" "damaged_reading D C cap blocks bad (ti_table self) c"
    "n = good_before bad blocks i + j" "blocks ! i \<notin> bad" "in_block D C blocks i (Some j) self"
    "i < length blocks" "j < length (db_entries (blocks ! i))"
    by (rule damaged_at_someE [OF at])
  show "Suc n < length es \<Longrightarrow> \<exists>it'. TableIterator_advance D (self, c) = Some (True, it') \<and>
      damaged_at D C cap blocks bad es (Some (Suc n)) it'"
    and "length es \<le> Suc n \<Longrightarrow> \<exists>it'. TableIterator_advance D (self, c) = Some (False, it') \<and>
      damaged_at D C cap blocks bad es None it'"
  proof (atomize (full), cases "Suc j < length (db_entries (blocks ! i))")
    case True
    from advance_in_block [OF ij(5), of c] True obtain self' where
      1: "TableIterator_advance D (self, c) = Some (True, self', c)" "ti_table self' = ti_table self"
      "in_block D C blocks i (Some (Suc j)) self'" by auto
    have "damaged_at D C cap blocks bad es (Some (Suc n)) (self', c)"
      using damaged_atI [OF _ ij(4) 1(3), of cap c] ij(1-3) 1(2) by simp
    moreover have "Suc n < length es" using good_nth(1) [OF ij(6,4) True] ij(1,3) by simp
    ultimately show "(Suc n < length es \<longrightarrow> (\<exists>it'. TableIterator_advance D (self, c) = Some (True, it') \<and>
        damaged_at D C cap blocks bad es (Some (Suc n)) it')) \<and>
      (length es \<le> Suc n \<longrightarrow> (\<exists>it'. TableIterator_advance D (self, c) = Some (False, it') \<and>
        damaged_at D C cap blocks bad es None it'))"
      using 1(1) by auto
  next
    case False
    then have n: "Suc n = good_before bad blocks (next_pos (Some i))"
      using ij(3,4,6,7) by (simp add: good_before_Suc)
    obtain self1 where 1: "advance_current D (self, c) = Some (False, self1, c)"
      "ti_table self1 = ti_table self" "in_block D C blocks i None self1"
      using advance_current_at [OF ij(5), of c] False by auto
    let ?self = "self1\<lparr>ti_current_block := None\<rparr>"
    obtain cb where "ti_current_block self = Some cb" using ij(5) by (auto simp: in_block_def)
    then have adv: "TableIterator_advance D (self, c) = TableIterator_advance D (?self, c)"
      using advance_drop_current [OF 1(1)] by simp
    have "damaged_reading D C cap blocks bad (ti_table ?self) c" "ti_current_block ?self = None"
      "block_at D C (index_entries D blocks) (Some i) (ti_index_block ?self)"
      using ij(2) 1(2,3) by (simp_all add: in_block_def)
    from damaged_arrive [OF this ij(1) n] show "(Suc n < length es \<longrightarrow>
        (\<exists>it'. TableIterator_advance D (self, c) = Some (True, it') \<and>
          damaged_at D C cap blocks bad es (Some (Suc n)) it')) \<and>
      (length es \<le> Suc n \<longrightarrow> (\<exists>it'. TableIterator_advance D (self, c) = Some (False, it') \<and>
        damaged_at D C cap blocks bad es None it'))"
      unfolding adv by blast
  qed
qed

interpretation damaged_iterator: forward_iterator "TableIterator_advance D" TableIterator_current
  TableIterator_reset TableIterator_valid "damaged_at D C cap blocks bad" for D C cap blocks bad
proof
  fix es p and it :: table_iter
  obtain self c where it: "it = (self, c)" by (cases it)
  assume at: "damaged_at D C cap blocks bad es p it"
  have "(next_pos p < length es \<longrightarrow> (\<exists>it'. TableIterator_advance D it = Some (True, it') \<and>
      damaged_at D C cap blocks bad es (Some (next_pos p)) it')) \<and>
    (length es \<le> next_pos p \<longrightarrow> (\<exists>it'. TableIterator_advance D it = Some (False, it') \<and>
      damaged_at D C cap blocks bad es None it'))"
  proof (cases p)
    case None
    then have none: "before_blocks D C blocks self" "es = all_entries (good_blocks bad blocks)"
      "damaged_reading D C cap blocks bad (ti_table self) c"
      using at by (simp_all add: damaged_at_def it)
    then have "ti_current_block self = None" "block_at D C (index_entries D blocks) None (ti_index_block self)"
      by (simp_all add: before_blocks_def)
    note arrive = damaged_arrive [OF none(3) this none(2) refl]
    have "good_before bad blocks (next_pos None) = 0"
      by (simp add: good_before_def good_blocks_def all_entries_def)
    with arrive None show ?thesis by (simp add: it)
  next
    case (Some n)
    from damaged_advance_some [OF at [unfolded it Some]] Some show ?thesis by (simp add: it)
  qed
  then show "next_pos p < length es \<Longrightarrow> \<exists>it'. TableIterator_advance D it = Some (True, it') \<and>
      damaged_at D C cap blocks bad es (Some (next_pos p)) it'"
    and "length es \<le> next_pos p \<Longrightarrow> \<exists>it'. TableIterator_advance D it = Some (False, it') \<and>
      damaged_at D C cap blocks bad es None it'" by blast+
  show "TableIterator_valid it \<longleftrightarrow> p \<noteq> None"
    using at block_iter.valid_iff unfolding it
    by (cases p) (fastforce simp: damaged_at_def before_blocks_def in_block_def)+
  have "\<exists>q. block_at D C (index_entries D blocks) q (ti_index_block self)"
    using at unfolding it by (cases p) (auto simp: damaged_at_def before_blocks_def in_block_def)
  then show "damaged_at D C cap blocks bad es None (TableIterator_reset it)"
    using at reset_before unfolding it by (auto simp: damaged_at_def)
next
  fix es i and it :: table_iter and k v
  obtain self c where it: "it = (self, c)" by (cases it)
  assume at: "damaged_at D C cap blocks bad es (Some i) it"
  then obtain m j where ij: "es = all_entries (good_blocks bad blocks)" "i = good_before bad blocks m + j"
    "blocks ! m \<notin> bad" "in_block D C blocks m (Some j) self" "m < length blocks"
    "j < length (db_entries (blocks ! m))"
    unfolding it by (rule damaged_at_someE)
  obtain cb where "ti_current_block self = Some cb" "block_at D C (db_entries (blocks ! m)) (Some j) cb"
    using ij(4) by (auto simp: in_block_def)
  then show "TableIterator_current it k v = Some (True, fst (es ! i), snd (es ! i))"
    using ij block_iter.current_at good_nth(2) [OF ij(5,3,6)] by (simp add: it)
  show "i < length es" using good_nth(1) [OF ij(5,3,6)] ij(1,2) by simp
next
  fix es and it :: table_iter and k v
  assume "damaged_at D C cap blocks bad es None it"
  then show "TableIterator_current it k v = Some (False, k, v)"
    by (cases it) (simp add: damaged_at_def before_blocks_def)
qed

section \<open>Damaged files\<close>

text \<open>The bytes of a block in a file, with its type byte and checksum.\<close>

definition region :: "bytes \<Rightarrow> BlockHandle \<Rightarrow> bytes" where
  "region file h = take (bh_size h + 5) (drop (bh_offset h) file)"

definition checksum_fails :: "deps \<Rightarrow> bytes \<Rightarrow> BlockHandle \<Rightarrow> bool" where
  "checksum_fails D file h \<longleftrightarrow>
     crc32_iscsi D (take (bh_size h + 1) (region file h)) \<noteq>
     unmask_crc (decode_fixed32 D (drop (bh_size h + 1) (region file h)))"

text \<open>Up to byte \<open>n\<close>, where the data blocks end, bytes may have changed; a block whose bytes have
  changed has a wrong checksum.\<close>

definition damaged_file :: "deps \<Rightarrow> nat \<Rightarrow> data_block list \<Rightarrow> bytes \<Rightarrow> bytes \<Rightarrow> bool" where
  "damaged_file D n blocks file file' \<longleftrightarrow>
     length file' = length file \<and> drop n file' = drop n file \<and>
     (\<forall>b \<in> set blocks. region file' (db_handle b) = region file (db_handle b) \<or>
        checksum_fails D file' (db_handle b))"

text \<open>The error for a damaged block.\<close>

definition corrupt_block :: "BlockHandle \<Rightarrow> Status" where
  "corrupt_block h =
     Status_new Corruption (''checksum verification failed for block at '' @ decimal (bh_offset h))"

lemma region_sealed:
  assumes "integer_codec D"
  shows "region (pre @ sealed D ctype data @ rest) (BlockHandle_new (length pre) (length data)) = sealed D ctype data"
  using integer_codec.length_encode_fixed32 [OF assms] by (simp add: region_def sealed_def)

lemma region_split:
  assumes "bh_offset h + bh_size h + 5 \<le> length file"
  obtains pre data tag cksum rest where "file = pre @ data @ tag # cksum @ rest" "length cksum = 4"
    "h = BlockHandle_new (length pre) (length data)" "region file h = data @ tag # cksum"
proof -
  let ?r = "region file h"
  have len: "length ?r = bh_size h + 5" using assms by (simp add: region_def)
  have "?r = take (bh_size h) ?r @ drop (bh_size h) ?r" by simp
  moreover obtain tag cksum where tc: "drop (bh_size h) ?r = tag # cksum"
    using len by (cases "drop (bh_size h) ?r") simp_all
  ultimately have r: "?r = take (bh_size h) ?r @ tag # cksum" by simp
  have "length (drop (bh_size h) ?r) = 5" using len by simp
  then have ck: "length cksum = 4" using tc by simp
  have "file = take (bh_offset h) file @ ?r @ drop (bh_size h + 5) (drop (bh_offset h) file)"
    unfolding region_def by (simp only: append_take_drop_id)
  then have "file = take (bh_offset h) file @ take (bh_size h) ?r @ tag # cksum @
      drop (bh_size h + 5) (drop (bh_offset h) file)"
    using r by (metis append.assoc append_Cons)
  moreover have "h = BlockHandle_new (length (take (bh_offset h) file)) (length (take (bh_size h) ?r))"
    using assms len by (cases h) (simp add: BlockHandle_new_def)
  ultimately show thesis using ck r that by blast
qed

lemma read_damaged:
  assumes h: "bh_offset h + bh_size h + 5 \<le> length file" "length file < 2 ^ 63" and "checksum_fails D file h"
  shows "read_table_block D opt (BufferBackedFile_read_at file) h = Some (Inl (corrupt_block h))"
proof -
  obtain pre data tag cksum rest where s: "file = pre @ data @ tag # cksum @ rest" "length cksum = 4"
    "h = BlockHandle_new (length pre) (length data)" "region file h = data @ tag # cksum"
    by (rule region_split [OF h(1)])
  have "crc32_iscsi D (data @ [tag]) \<noteq> unmask_crc (decode_fixed32 D cksum)"
    using assms(3) s(3,4) by (simp add: checksum_fails_def)
  moreover have "length data + 5 < 2 ^ 63" using h(2) s(1,2) by simp
  ultimately show ?thesis
    using read_table_block_cases [OF buffer_file.random_access_file_axioms [of "pre @ data @ tag # cksum @ rest"] s(2) _ s(3)]
    by (simp add: s(1) s(3) err_def corrupt_block_def)
qed

lemma stored_same_region:
  assumes D: "integer_codec D" and stored: "stored D file h contents"
    and same: "region file' h = region file h" "length file' = length file"
  shows "stored D file' h contents"
proof -
  obtain ctype data pre rest where s: "pack D ctype contents = Inr data"
    "file = pre @ sealed D ctype data @ rest" "h = BlockHandle_new (length pre) (length data)"
    using stored by (auto simp: stored_def)
  have r: "region file' h = sealed D ctype data" using same(1) region_sealed [OF D] s(2,3) by simp
  have "file' = take (length pre) file' @ region file' h @ drop (length data + 5) (drop (length pre) file')"
    unfolding region_def s(3) by simp (metis append_take_drop_id drop_drop add.commute)
  then have "file' = take (length pre) file' @ sealed D ctype data @ drop (length data + 5) (drop (length pre) file')"
    unfolding r .
  moreover have "h = BlockHandle_new (length (take (length pre) file')) (length data)"
    using s(2,3) same(2) by simp
  ultimately show ?thesis using s(1) unfolding stored_def by blast
qed

lemma stored_checksum:
  assumes D: "integer_codec D" and "stored D file h contents"
  shows "\<not> checksum_fails D file h"
proof -
  obtain ctype data pre rest where s: "file = pre @ sealed D ctype data @ rest"
    "h = BlockHandle_new (length pre) (length data)"
    using assms(2) by (auto simp: stored_def)
  have "region file h = sealed D ctype data" using region_sealed [OF D] s by simp
  then show ?thesis
    using s(2) integer_codec.decode_encode_fixed32 [OF D] by (simp add: checksum_fails_def sealed_def)
qed

text \<open>A block without a checksum error has kept its bytes.\<close>

lemma damaged_stored:
  assumes D: "integer_codec D" and dmg: "damaged_file D n blocks file file'" and b: "b \<in> set blocks"
    and stored: "stored D file (db_handle b) contents" and ok: "\<not> checksum_fails D file' (db_handle b)"
  shows "stored D file' (db_handle b) contents"
  using dmg b ok by (intro stored_same_region [OF D stored]) (auto simp: damaged_file_def)

section \<open>Opening a damaged file\<close>

lemma open_damaged:
  assumes D: "third_party_laws D" and C: "short_comparator (opt_cmp opt)"
    and data: "data_blocks D (opt_cmp opt) file blocks" and tail: "table_tail D opt n file blocks ft"
    and len: "length file < 2 ^ 29" and cap: "0 < cap" "cap < 2 ^ 64"
    and dmg: "damaged_file D n blocks file file'"
  shows "\<exists>t c fs. Cache_new cap \<bind> open_file D opt file' = Some (Inr t, c) \<and>
    damaged_view D opt file blocks fs {b. checksum_fails D file' (db_handle b)} t \<and>
    tab_file t = BufferBackedFile_read_at file' \<and>
    damaged_reading D (opt_cmp opt) cap blocks {b. checksum_fails D file' (db_handle b)} t c \<and>
    fs = filters_of (opt_filter_policy opt) (table_records blocks) n"
proof -
  have codec: "integer_codec D" using D by (rule third_party_laws.axioms(1))
  have tr: "table_reader D (opt_cmp opt)" by (rule opened_reader [OF D C])
  have len': "length file' = length file" "drop n file' = drop n file" using dmg by (simp_all add: damaged_file_def)
  then have small: "length file' < 2 ^ 29" "length file' < 2 ^ 63" using len by simp_all
  have tail': "table_tail D opt n file' blocks ft" by (rule table_tail_change [OF tail len'(2,1)])
  let ?rd = "BufferBackedFile_read_at file'" and ?bad = "{b. checksum_fails D file' (db_handle b)}"
  obtain c0 where c0: "Cache_new cap = Some (c0 :: block_cache)" "cache_is c0 []" "ca_cap c0 = cap" "ca_id c0 = 0"
    using Cache_new_is [OF cap(1)] cap(1) by (auto simp: Cache_new_def)
  then have "unat (ca_id c0) + 1 < 2 ^ 64" by simp
  from table_reader.Table_new_parts [OF tr refl buffer_file.random_access_file_axioms tail' small(1) this]
  obtain t fs where t: "open_file D opt file' c0 = Some (Inr t, c0\<lparr>ca_id := 0 + 1\<rparr>)"
    "table_parts D opt file' blocks fs t" "tab_file t = ?rd"
    "fs = filters_of (opt_filter_policy opt) (table_records blocks) n"
    by (auto simp: open_file_def c0(4))
  have "table_parts D opt file blocks fs (t\<lparr>tab_file := BufferBackedFile_read_at file\<rparr>)"
    using t(2) len buffer_file.random_access_file_axioms by (simp add: table_parts_def)
  then have view: "table_view D opt file blocks fs (t\<lparr>tab_file := BufferBackedFile_read_at file\<rparr>)"
    using data by (simp add: table_view_parts)
  have "(b \<in> ?bad \<longrightarrow> (\<exists>e. read_table_block D opt ?rd (db_handle b) = Some (Inl e))) \<and>
    (b \<notin> ?bad \<longrightarrow> (\<exists>contents. read_table_block D opt ?rd (db_handle b) =
        ok \<lparr>blk_contents = contents, blk_opt = opt\<rparr> \<and> holds_entries D contents (db_entries b)))"
    if b: "b \<in> set blocks" for b
  proof -
    obtain contents where contents: "stored D file (db_handle b) contents" "holds_entries D contents (db_entries b)"
      using data b by (auto simp: data_blocks_def data_ok_def)
    have fits: "bh_offset (db_handle b) + bh_size (db_handle b) + 5 \<le> length file'"
      using stored_end [OF codec contents(1)] len'(1) by simp
    have "read_table_block D opt ?rd (db_handle b) = ok \<lparr>blk_contents = contents, blk_opt = opt\<rparr>" if "b \<notin> ?bad"
      using damaged_stored [OF codec dmg b contents(1)] that
      by (intro read_table_block_stored [OF D buffer_file.random_access_file_axioms _
            holds_entries_length [OF codec contents(2)] small(2)]) simp
    then show ?thesis using read_damaged [OF fits small(2)] contents(2) by auto
  qed
  then have dview: "damaged_view D opt file blocks fs ?bad t"
    using view t(3) by (simp add: damaged_view_def)
  have "cache_is (c0\<lparr>ca_id := 0 + 1\<rparr>) []" using c0(2) cache_is_id by blast
  then have "cache_holds cap 1 (c0\<lparr>ca_id := 0 + 1\<rparr>) []"
    using c0(3) cap by (simp add: cache_holds_def)
  then have "coherent (cache_holds cap 1) (cached_good D t (good_blocks ?bad blocks)) (c0\<lparr>ca_id := 0 + 1\<rparr>)"
    by (auto simp: coherent_def)
  then have "damaged_reading D (opt_cmp opt) cap blocks ?bad t (c0\<lparr>ca_id := 0 + 1\<rparr>)"
    using tr dview by (auto simp: damaged_reading_def)
  with c0(1) t(1,3,4) dview show ?thesis by auto
qed

lemma damaged_iter:
  assumes D: "third_party_laws D" and C: "short_comparator (opt_cmp opt)"
    and t: "damaged_view D opt tbl blocks fs bad t" "damaged_reading D (opt_cmp opt) cap blocks bad t c"
  shows "\<exists>it. Table_iter D t = Some it \<and> ti_table it = t \<and>
    damaged_at D (opt_cmp opt) cap blocks bad (all_entries (good_blocks bad blocks)) None (it, c)"
proof -
  have view: "table_view D opt tbl blocks fs (t\<lparr>tab_file := BufferBackedFile_read_at tbl\<rparr>)"
    using t(1) by (simp add: damaged_view_def)
  from table_reader.index_iter [OF opened_reader [OF D C] this refl] obtain ix where
    ix: "Block_iter D (tab_index_block t) = Some ix"
      "block_at D (opt_cmp opt) (index_entries D blocks) None ix" by auto
  let ?it = "\<lparr>ti_table = t, ti_current_block = None, ti_current_block_off = 0, ti_index_block = ix\<rparr>"
  have "damaged_at D (opt_cmp opt) cap blocks bad (all_entries (good_blocks bad blocks)) None (?it, c)"
    using t(2) ix(2) by (simp add: damaged_at_def before_blocks_def)
  with ix(1) show ?thesis by (simp add: Table_iter_def)
qed

text \<open>Iterating over a damaged file.\<close>

lemma drain_damaged:
  assumes D: "third_party_laws D" and C: "short_comparator (opt_cmp opt)"
    and data: "data_blocks D (opt_cmp opt) tbl blocks" and tail: "table_tail D opt n tbl blocks ft"
    and len: "length tbl < 2 ^ 29" and cap: "0 < cap" "cap < 2 ^ 64"
    and dmg: "damaged_file D n blocks tbl tbl'"
  shows "\<exists>t c it it'. Cache_new cap \<bind> open_file D opt tbl' = Some (Inr t, c) \<and> Table_iter D t = Some it \<and>
    drain (TableIterator_advance D) TableIterator_current (it, c) =
      Some (all_entries (filter (\<lambda>b. \<not> checksum_fails D tbl' (db_handle b)) blocks), it')"
proof -
  let ?bad = "{b. checksum_fails D tbl' (db_handle b)}"
  from open_damaged [OF D C data tail len cap dmg] obtain t c fs where
    t: "Cache_new cap \<bind> open_file D opt tbl' = Some (Inr t, c)"
      "damaged_view D opt tbl blocks fs ?bad t" "damaged_reading D (opt_cmp opt) cap blocks ?bad t c"
    by blast
  from damaged_iter [OF D C t(2,3)] obtain it where
    it: "Table_iter D t = Some it"
      "damaged_at D (opt_cmp opt) cap blocks ?bad (all_entries (good_blocks ?bad blocks)) None (it, c)" by blast
  from damaged_iterator.drain_all [OF it(2)] t(1) it(1) show ?thesis by (auto simp: good_blocks_def)
qed

section \<open>Properties\<close>

lemma table_tail_length: "table_tail D opt n tbl blocks ft \<Longrightarrow> n \<le> length tbl"
  by (auto simp: table_tail_def)

text \<open>C8: However the bytes of the data blocks of a table file change, as long as the checksum of every
  changed block is wrong, the file is opened, and its iterator yields exactly the entries of the
  blocks that have not changed, in order, without an error or a panic; for any comparator.\<close>

theorem corrupted_blocks_skipped:
  assumes "third_party_laws D" "short_comparator (opt_cmp opt)" "table_fits opt kvs" "0 < cap" "cap < 2 ^ 64"
  shows "\<exists>tbl n blocks. build_file D opt kvs = Some (Inr tbl) \<and> all_entries blocks = kvs \<and>
    laid_out n blocks \<and> n \<le> length tbl \<and> (\<forall>b \<in> set blocks. data_ok D tbl b) \<and>
    (\<forall>tbl'. damaged_file D n blocks tbl tbl' \<longrightarrow>
       (\<exists>t c it it'. Cache_new cap \<bind> open_file D opt tbl' = Some (Inr t, c) \<and> Table_iter D t = Some it \<and>
          drain (TableIterator_advance D) TableIterator_current (it, c) =
            Some (all_entries (filter (\<lambda>b. \<not> checksum_fails D tbl' (db_handle b)) blocks), it')))"
proof -
  obtain tbl n blocks ft where fl: "build_file D opt kvs = Some (Inr tbl)" "all_entries blocks = kvs"
    "data_blocks D (opt_cmp opt) tbl blocks" "table_tail D opt n tbl blocks ft" "length tbl < 2 ^ 29"
    by (rule built_file [OF assms(1-3)])
  then show ?thesis
    using drain_damaged [OF assms(1,2) fl(3-5) assms(4,5)] table_tail_length [OF fl(4)]
    by (intro exI [of _ tbl] exI [of _ n] exI [of _ blocks]) (auto simp: data_blocks_def table_tail_def)
qed

text \<open>Changing the stored checksum of a block damages this block and no other.\<close>

lemma spoil_block:
  assumes codec: "integer_codec D" and laid: "laid_out n blocks" "n \<le> length tbl"
    and data: "\<forall>b \<in> set blocks. data_ok D tbl b" and b: "b \<in> set blocks"
    and distinct: "distinct (map (\<lambda>b. bh_offset (db_handle b)) blocks)"
  shows "\<exists>tbl'. damaged_file D n blocks tbl tbl' \<and>
    (\<forall>b' \<in> set blocks. checksum_fails D tbl' (db_handle b') \<longleftrightarrow> b' = b)"
proof -
  let ?h = "db_handle b"
  obtain contents where stored: "stored D tbl ?h contents" using data b by (auto simp: data_ok_def)
  have ends: "bh_offset ?h + bh_size ?h + 5 \<le> n" using laid(1) b by (simp add: laid_out_def block_end_def)
  then have "bh_offset ?h + bh_size ?h + 5 \<le> length tbl" using laid(2) by simp
  then obtain pre data tag cksum rest where s: "tbl = pre @ data @ tag # cksum @ rest" "length cksum = 4"
    "?h = BlockHandle_new (length pre) (length data)" "region tbl ?h = data @ tag # cksum"
    by (rule region_split)
  let ?c = "decode_fixed32 D cksum"
  let ?new = "encode_fixed32 D (?c + 1)"
  let ?tbl = "pre @ data @ tag # ?new @ rest"
  have new: "length ?new = 4" by (rule integer_codec.length_encode_fixed32 [OF codec])
  have after: "drop m (pre @ data @ tag # ck @ rest) = drop (m - (length pre + length data + 5)) rest"
    if "length ck = 4" "length pre + length data + 5 \<le> m" for m ck
    using that drop_append [of m "pre @ data @ tag # ck" rest] by (simp add: add.assoc)
  have same: "region ?tbl h = region tbl h"
    if "bh_offset h + bh_size h + 5 \<le> length pre \<or> length pre + length data + 5 \<le> bh_offset h" for h
    using that s(1,2) new after [of cksum "bh_offset h"] after [of ?new "bh_offset h"]
    by (auto simp: region_def)
  have "checksum_fails D ?tbl ?h"
  proof -
    have "\<not> checksum_fails D tbl ?h" by (rule stored_checksum [OF codec stored])
    then have "crc32_iscsi D (data @ [tag]) = unmask_crc ?c"
      using s(3,4) by (simp add: checksum_fails_def)
    moreover have "unmask_crc (?c + 1) \<noteq> unmask_crc ?c"
      by (metis mask_unmask add_cancel_right_right one_neq_zero)
    ultimately show ?thesis
      using s(3) new integer_codec.decode_encode_fixed32 [OF codec]
      by (simp add: checksum_fails_def region_def)
  qed
  moreover have "\<not> checksum_fails D ?tbl (db_handle b') \<and> region ?tbl (db_handle b') = region tbl (db_handle b')"
    if b': "b' \<in> set blocks" "b' \<noteq> b" for b'
  proof -
    have "block_end b' \<le> bh_offset ?h \<or> block_end b \<le> bh_offset (db_handle b')"
      using laid(1) b b' sorted_wrt_nth_less [of "\<lambda>b b'. block_end b \<le> bh_offset (db_handle b')" blocks]
      unfolding laid_out_def in_set_conv_nth by (metis linorder_neqE_nat)
    then have "region ?tbl (db_handle b') = region tbl (db_handle b')"
      using s(3) by (intro same) (auto simp: block_end_def)
    moreover obtain contents' where "stored D tbl (db_handle b') contents'"
      using data b' by (auto simp: data_ok_def)
    ultimately show ?thesis using stored_checksum [OF codec] by (simp add: checksum_fails_def)
  qed
  moreover have "length ?tbl = length tbl" "drop n ?tbl = drop n tbl"
    using s(1,2) new ends after [of cksum n] after [of ?new n] by (simp_all add: s(3))
  ultimately show ?thesis
    using b by (intro exI [of _ ?tbl]) (auto simp: damaged_file_def)
qed

theorem corrupted_blocks_skipped_witness:
  "\<exists>tbl tbl' t c it es it'. build_file reference_deps small_opt [([97], [1]), ([99], [2])] = Some (Inr tbl) \<and>
    length tbl' = length tbl \<and> Cache_new 2 \<bind> open_file reference_deps small_opt tbl' = Some (Inr t, c) \<and>
    Table_iter reference_deps t = Some it \<and>
    drain (TableIterator_advance reference_deps) TableIterator_current (it, c) = Some (es, it') \<and>
    (es = [] \<or> es = [([99], [2])])"
proof -
  let ?D = reference_deps and ?kvs = "[([97], [1]), ([99], [2])] :: (bytes \<times> bytes) list"
  have D: "third_party_laws ?D" by (rule ref_deps.third_party_laws_axioms)
  obtain tbl n blocks where fl: "build_file ?D small_opt ?kvs = Some (Inr tbl)" "all_entries blocks = ?kvs"
    "laid_out n blocks" "n \<le> length tbl" "\<forall>b \<in> set blocks. data_ok ?D tbl b"
    "\<And>tbl'. damaged_file ?D n blocks tbl tbl' \<Longrightarrow>
       \<exists>t c it it'. Cache_new 2 \<bind> open_file ?D small_opt tbl' = Some (Inr t, c) \<and> Table_iter ?D t = Some it \<and>
          drain (TableIterator_advance ?D) TableIterator_current (it, c) =
            Some (all_entries (filter (\<lambda>b. \<not> checksum_fails ?D tbl' (db_handle b)) blocks), it')"
    using corrupted_blocks_skipped [OF D small_short two_fits, of 2] by auto
  obtain b bs where blocks: "blocks = b # bs" using fl(2) by (cases blocks) auto
  then have "b \<in> set blocks" by simp
  from spoil_block [OF third_party_laws.axioms(1) [OF D] fl(3-5) this laid_out_distinct [OF fl(3)]]
  obtain tbl' where tbl': "damaged_file ?D n blocks tbl tbl'"
    "\<forall>b' \<in> set blocks. checksum_fails ?D tbl' (db_handle b') \<longleftrightarrow> b' = b" by blast
  let ?es = "all_entries (filter (\<lambda>b. \<not> checksum_fails ?D tbl' (db_handle b)) blocks)"
  have "b \<notin> set bs" using laid_out_distinct [OF fl(3)] blocks by auto
  then have "filter (\<lambda>b. \<not> checksum_fails ?D tbl' (db_handle b)) blocks = bs"
    using tbl'(2) by (auto simp: blocks intro!: filter_True)
  moreover have "db_entries b \<noteq> []" using fl(5) blocks by (simp add: data_ok_def)
  then have "all_entries bs = [] \<or> all_entries bs = [([99], [2])]"
    using fl(2) blocks by (cases "db_entries b") (auto simp: append_eq_Cons_conv)
  ultimately have "?es = [] \<or> ?es = [([99], [2])]" by simp
  with fl(1) fl(6) [OF tbl'(1)] tbl'(1) show ?thesis unfolding damaged_file_def by metis
qed

section \<open>Lookups in a damaged file\<close>

lemma damaged_get:
  assumes rd: "damaged_reading D C cap blocks bad t c" and dv: "damaged_view D opt tbl blocks fs bad t"
    and C: "opt_cmp opt = C" and P: "nonempty_filter_policy (opt_filter_policy opt)"
    and b: "block_of C key blocks = Some b" "cmp C (db_sep b) key = Greater" "key \<in> db_keys b"
    and key: "length key < 2 ^ 32"
  shows "b \<in> bad \<Longrightarrow> \<exists>e c'. read_table_block D opt (tab_file t) (db_handle b) = Some (Inl e) \<and>
      Table_get D t key c = Some (Inl e, c')"
    and "b \<notin> bad \<Longrightarrow> \<exists>c'. Table_get D t key c = Some (Inr (lookup C key (db_entries b)), c')"
proof -
  let ?t = "t\<lparr>tab_file := BufferBackedFile_read_at tbl\<rparr>"
  have tr: "table_reader D C" using rd by (simp add: damaged_reading_def)
  have view: "table_view D opt tbl blocks fs ?t" using dv by (simp add: damaged_view_def)
  note v = table_reader.view_blocks [OF tr view C]
  have mem: "b \<in> set blocks" using block_of_mem [OF b(1)] by blast
  have "Table_get_handle D ?t key = Some (Some (db_handle b))"
    using table_reader.Table_get_handle_eq [OF tr view C, of key] b by simp
  then have handle: "Table_get_handle D t key = Some (Some (db_handle b))"
    by (simp add: Table_get_handle_def cong: option.case_cong)
  obtain m where m: "FilterBlockReader_key_may_match D (reader_of D (opt_filter_policy opt) fs)
      (bh_offset (db_handle b)) key = Some m" "key \<in> db_keys b \<longrightarrow> m"
    using table_reader.filters_may_match [OF tr P v(7,8) mem v(5) [OF mem] key] by blast
  have opt: "tab_opt t = opt" "tab_filters t = Some (reader_of D (opt_filter_policy opt) fs)"
    using v(1,9) by simp_all
  {
    assume "b \<in> bad"
    from damaged_read_block(2) [OF rd mem this] show "\<exists>e c'. read_table_block D opt (tab_file t) (db_handle b) = Some (Inl e) \<and>
        Table_get D t key c = Some (Inl e, c')"
      using handle m b(3) opt by (auto simp: Table_get_def)
  next
    assume "b \<notin> bad"
    from damaged_read_block(1) [OF rd mem this] opt obtain contents c' where
      c': "Table_read_block D t (db_handle b) c = Some (Inr \<lparr>blk_contents = contents, blk_opt = opt\<rparr>, c')"
        "holds_entries D contents (db_entries b)" by auto
    have asc: "ascending C (map fst (db_entries b))" by (rule ascending_all_entries [OF v(3) mem])
    have "[] \<notin> db_keys b" using v(4) mem by (auto simp: all_entries_set)
    from table_reader.block_lookup [OF tr C c'(2) this asc, of key] obtain it it' where
      it: "Block_iter D \<lparr>blk_contents = contents, blk_opt = opt\<rparr> = Some it"
      "BlockIter_seek D it key = Some it'"
      "current_key_val BlockIter_current it' = Some (lower_bound C key (db_entries b))" by blast
    have "comparator C" using tr by (simp add: table_reader_def)
    from comparator.lookup_lower_bound [OF this asc] have "Table_get D t key c = Some (Inr (lookup C key (db_entries b)), c')"
      using handle m b(3) opt c'(1) it C by (simp add: Table_get_def split: option.split)
    then show "\<exists>c'. Table_get D t key c = Some (Inr (lookup C key (db_entries b)), c')" by blast
  }
qed

text \<open>C5: On such a damaged file \<open>get\<close> of a stored key returns the error \<open>Corruption\<close> with the offset of
  the key's block if the block is damaged, and the stored value otherwise: it never returns a wrong
  value or reports the key as missing; for the default comparator when no stored key is another
  one followed by a zero byte.\<close>

theorem corrupted_get_reports:
  assumes "third_party_laws D" "opt_cmp opt = DefaultCmp" "table_fits opt kvs" "\<not> zero_extended kvs"
    and "nonempty_filter_policy (opt_filter_policy opt)" "0 < cap" "cap < 2 ^ 64"
  shows "\<exists>tbl n blocks. build_file D opt kvs = Some (Inr tbl) \<and> all_entries blocks = kvs \<and>
    laid_out n blocks \<and> n \<le> length tbl \<and> (\<forall>b \<in> set blocks. data_ok D tbl b) \<and>
    (\<forall>tbl' key v. damaged_file D n blocks tbl tbl' \<and> map_of kvs key = Some v \<and> length key < 2 ^ 32 \<longrightarrow>
       (\<exists>t c c' b. Cache_new cap \<bind> open_file D opt tbl' = Some (Inr t, c) \<and> b \<in> set blocks \<and> key \<in> db_keys b \<and>
          Table_get D t key c =
            Some (if checksum_fails D tbl' (db_handle b) then Inl (corrupt_block (db_handle b))
                  else Inr (Some v), c')))"
proof -
  have C: "short_comparator (opt_cmp opt)" using assms(2) default_cmp.short_comparator_axioms by simp
  obtain tbl n blocks ft where fl: "build_file D opt kvs = Some (Inr tbl)" "all_entries blocks = kvs"
    "data_blocks D (opt_cmp opt) tbl blocks" "table_tail D opt n tbl blocks ft" "length tbl < 2 ^ 29"
    by (rule built_file [OF assms(1) C assms(3)])
  have sep: "separated DefaultCmp blocks" "\<forall>b \<in> set blocks. db_entries b \<noteq> []"
    using fl(3) assms(2) by (auto simp: data_blocks_def data_ok_def)
  have "\<exists>t c c' b. Cache_new cap \<bind> open_file D opt tbl' = Some (Inr t, c) \<and> b \<in> set blocks \<and> key \<in> db_keys b \<and>
      Table_get D t key c = Some (if checksum_fails D tbl' (db_handle b) then Inl (corrupt_block (db_handle b))
        else Inr (Some v), c')"
    if dmg: "damaged_file D n blocks tbl tbl'" and v: "map_of kvs key = Some v" and key: "length key < 2 ^ 32" for tbl' key v
  proof -
    let ?bad = "{b. checksum_fails D tbl' (db_handle b)}"
    from open_damaged [OF assms(1) C fl(3-5) assms(6,7) dmg] obtain t c fs where
      t: "Cache_new cap \<bind> open_file D opt tbl' = Some (Inr t, c)" "damaged_view D opt tbl blocks fs ?bad t"
        "tab_file t = BufferBackedFile_read_at tbl'" "damaged_reading D DefaultCmp cap blocks ?bad t c"
      using assms(2) by auto
    have stored: "key \<in> fst ` set (all_entries blocks)" using v fl(2) by (metis map_of_eq_None_iff option.distinct(1))
    from block_of_stored [OF sep _ stored] assms(4) fl(2) obtain b where
      b: "block_of DefaultCmp key blocks = Some b" "key \<in> db_keys b" "cmp DefaultCmp (db_sep b) key = Greater" by auto
    have mem: "b \<in> set blocks" using block_of_mem [OF b(1)] by blast
    note get = damaged_get [OF t(4,2) assms(2,5) b(1,3,2) key]
    have "lookup DefaultCmp key (all_entries blocks) = lookup DefaultCmp key (db_entries b)"
      using default_cmp.lookup_block_of [OF sep(1), of key] b by (simp del: cmp_default_eq)
    then have lookup: "lookup DefaultCmp key (db_entries b) = Some v" using v fl(2) by (simp add: lookup_default)
    obtain contents where "stored D tbl (db_handle b) contents" using fl(3) mem by (auto simp: data_blocks_def data_ok_def)
    then have "bh_offset (db_handle b) + bh_size (db_handle b) + 5 \<le> length tbl'"
      using stored_end [OF third_party_laws.axioms(1) [OF assms(1)]] dmg by (simp add: damaged_file_def)
    moreover have "length tbl' < 2 ^ 63" using fl(5) dmg by (simp add: damaged_file_def)
    ultimately have "checksum_fails D tbl' (db_handle b) \<Longrightarrow>
        read_table_block D opt (tab_file t) (db_handle b) = Some (Inl (corrupt_block (db_handle b)))"
      using read_damaged t(3) by simp
    then show ?thesis using get lookup t(1) mem b(2) by (cases "b \<in> ?bad") fastforce+
  qed
  then show ?thesis
    using fl(1-4) table_tail_length [OF fl(4)] by (intro exI [of _ tbl] exI [of _ n] exI [of _ blocks])
      (auto simp: data_blocks_def table_tail_def)
qed

theorem corrupted_get_reports_witness:
  "\<exists>tbl tbl' t c c' e. build_file reference_deps small_opt [([97], [1]), ([99], [2])] = Some (Inr tbl) \<and>
    length tbl' = length tbl \<and> Cache_new 2 \<bind> open_file reference_deps small_opt tbl' = Some (Inr t, c) \<and>
    Table_get reference_deps t [97] c = Some (Inl e, c') \<and> code e = Corruption"
proof -
  let ?D = reference_deps and ?kvs = "[([97], [1]), ([99], [2])] :: (bytes \<times> bytes) list"
  have D: "third_party_laws ?D" by (rule ref_deps.third_party_laws_axioms)
  have "nonempty_filter_policy (opt_filter_policy small_opt)" "opt_cmp small_opt = DefaultCmp" "\<not> zero_extended ?kvs"
    by (simp_all add: small_opt_def Options_default_def zero_extended_def bloom.nonempty_filter_policy_axioms)
  with corrupted_get_reports [OF D _ two_fits, of 2] obtain tbl n blocks where
    fl: "build_file ?D small_opt ?kvs = Some (Inr tbl)" "laid_out n blocks" "n \<le> length tbl"
    "\<forall>b \<in> set blocks. data_ok ?D tbl b"
    and get: "\<And>tbl' key v. damaged_file ?D n blocks tbl tbl' \<Longrightarrow> map_of ?kvs key = Some v \<Longrightarrow> length key < 2 ^ 32 \<Longrightarrow>
      \<exists>t c c' b. Cache_new 2 \<bind> open_file ?D small_opt tbl' = Some (Inr t, c) \<and> b \<in> set blocks \<and> key \<in> db_keys b \<and>
        Table_get ?D t key c = Some (if checksum_fails ?D tbl' (db_handle b) then Inl (corrupt_block (db_handle b))
          else Inr (Some v), c')" and ents: "all_entries blocks = ?kvs" by auto
  have "[97] \<in> fst ` set (all_entries blocks)" using ents by simp
  then obtain b where b: "b \<in> set blocks" "[97] \<in> db_keys b" by (auto simp: all_entries_set)
  from spoil_block [OF third_party_laws.axioms(1) [OF D] fl(2-4) b(1) laid_out_distinct [OF fl(2)]]
  obtain tbl' where tbl': "damaged_file ?D n blocks tbl tbl'"
    "\<forall>b' \<in> set blocks. checksum_fails ?D tbl' (db_handle b') \<longleftrightarrow> b' = b" by blast
  obtain b0 bs where blocks: "blocks = b0 # bs" using ents by (cases blocks) auto
  have "db_entries b0 \<noteq> []" using fl(4) blocks by (simp add: data_ok_def)
  then have "[97] \<notin> fst ` set (all_entries bs)"
    using ents blocks by (cases "db_entries b0") (auto simp: append_eq_Cons_conv)
  then have "b' = b0" if "b' \<in> set blocks" "[97] \<in> db_keys b'" for b'
    using that blocks by (auto simp: all_entries_set)
  with b have "b' = b" if "b' \<in> set blocks" "[97] \<in> db_keys b'" for b'
    using that by blast
  moreover obtain t c c' b' where get': "Cache_new 2 \<bind> open_file ?D small_opt tbl' = Some (Inr t, c)"
    "b' \<in> set blocks" "[97] \<in> db_keys b'"
    "Table_get ?D t [97] c = Some (if checksum_fails ?D tbl' (db_handle b') then Inl (corrupt_block (db_handle b'))
          else Inr (Some [1]), c')"
    using get [OF tbl'(1), of "[97]" "[1]"] by simp blast
  ultimately have "Table_get ?D t [97] c = Some (Inl (corrupt_block (db_handle b)), c')"
    using tbl'(2) by simp
  moreover have "length tbl' = length tbl" using tbl'(1) by (simp add: damaged_file_def)
  moreover have "code (corrupt_block (db_handle b)) = Corruption" by (simp add: corrupt_block_def)
  ultimately show ?thesis using fl(1) get'(1) by blast
qed

end
