(* ===== verification/SST_ReadFaults.thy ===== *)
theory SST_ReadFaults
  imports SST_Corruption "HOL-Library.Sublist"
begin

text \<open>
  A table whose file cannot always be read. Each read of \<open>faulty_reads\<close> either returns what the file
  holds or an I/O error. Every operation of the reader then has the outcome it has on the file
  itself, or returns an error.
\<close>

section \<open>Reads that may fail\<close>

definition faulty_reads :: "random_access \<Rightarrow> bytes \<Rightarrow> bool" where
  "faulty_reads rd data \<longleftrightarrow>
     (\<forall>off dst. rd off dst = BufferBackedFile_read_at data off dst \<or> (\<exists>e. rd off dst = Some (Inl e)))"

text \<open>The outcome \<open>m\<close> is \<open>m'\<close> or an error.\<close>

definition unless_error :: "(Status + 'a) run \<Rightarrow> (Status + 'a) run \<Rightarrow> bool" where
  "unless_error m m' \<longleftrightarrow> m = m' \<or> (\<exists>e. m = Some (Inl e))"

named_theorems fault_intros "outcomes that are the same unless there is an error"

lemma unless_error_refl [fault_intros]: "unless_error m m"
  by (simp add: unless_error_def)

lemma unless_error_bind [fault_intros]:
  "(\<And>x. unless_error (f x) (f' x)) \<Longrightarrow> unless_error (m \<bind> f) (m \<bind> f')"
  by (cases m) (simp_all add: unless_error_def)

lemma unless_error_try [fault_intros]:
  assumes "unless_error m m'" "\<And>x. unless_error (f x) (f' x)"
  shows "unless_error (try_bind m f) (try_bind m' f')"
proof (cases m')
  case None
  with assms(1) show ?thesis by (auto simp: unless_error_def)
next
  case (Some r)
  show ?thesis
  proof (cases r)
    case (Inr x)
    with assms(1) assms(2) [of x] Some show ?thesis by (auto simp: unless_error_def)
  qed (use assms(1) Some in \<open>auto simp: unless_error_def\<close>)
qed

lemma unless_error_if [fault_intros]:
  "unless_error a a' \<Longrightarrow> unless_error b b' \<Longrightarrow> unless_error (if c then a else b) (if c then a' else b')"
  by simp

lemma read_bytes_faulty [fault_intros]:
  "faulty_reads rd data \<Longrightarrow> unless_error (read_bytes rd h) (read_bytes (BufferBackedFile_read_at data) h)"
  unfolding read_bytes_def by (intro fault_intros) (auto simp: faulty_reads_def unless_error_def)

lemma read_footer_faulty [fault_intros]:
  "faulty_reads rd data \<Longrightarrow> unless_error (read_footer D rd n) (read_footer D (BufferBackedFile_read_at data) n)"
  unfolding read_footer_def by (intro fault_intros) (auto simp: faulty_reads_def unless_error_def)

lemma read_table_block_faulty [fault_intros]:
  "faulty_reads rd data \<Longrightarrow>
   unless_error (read_table_block D opt rd h) (read_table_block D opt (BufferBackedFile_read_at data) h)"
  unfolding read_table_block_def Let_def by (intro fault_intros)

lemma read_filter_block_faulty [fault_intros]:
  "faulty_reads rd data \<Longrightarrow>
   unless_error (read_filter_block D rd h P) (read_filter_block D (BufferBackedFile_read_at data) h P)"
  unfolding read_filter_block_def by (intro fault_intros)

lemma Table_read_filter_block_faulty [fault_intros]:
  "faulty_reads rd data \<Longrightarrow>
   unless_error (Table_read_filter_block D b rd opt) (Table_read_filter_block D b (BufferBackedFile_read_at data) opt)"
  unfolding Table_read_filter_block_def Let_def
  by (intro fault_intros) (auto split: option.split intro!: fault_intros)

lemma Table_new_faulty:
  assumes rd: "faulty_reads rd data"
    and t: "Table_new D opt (BufferBackedFile_read_at data) n cache = Some (Inr t, cache')"
  shows "Table_new D opt rd n cache = Some (Inr (t\<lparr>tab_file := rd\<rparr>), cache') \<or>
    (\<exists>e. Table_new D opt rd n cache = Some (Inl e, cache))"
proof -
  let ?parts = "\<lambda>rd. try_bind (read_footer D rd n) (\<lambda>footer.
      try_bind (read_table_block D opt rd (ft_index footer)) (\<lambda>index_block.
      try_bind (read_table_block D opt rd (ft_meta_index footer)) (\<lambda>metaindex_block.
      try_bind (Table_read_filter_block D metaindex_block rd opt) (\<lambda>filters.
        ok (footer, index_block, filters)))))"
  have "unless_error (?parts rd) (?parts (BufferBackedFile_read_at data))"
    by (intro fault_intros rd)
  then consider "?parts rd = ?parts (BufferBackedFile_read_at data)" | e where "?parts rd = Some (Inl e)"
    unfolding unless_error_def by blast
  then show ?thesis
  proof cases
    case 1
    obtain r where r: "?parts (BufferBackedFile_read_at data) = Some r"
      using t by (cases "?parts (BufferBackedFile_read_at data)") (simp_all add: Table_new_def)
    with t obtain p where p: "r = Inr p" by (cases r) (simp_all add: Table_new_def)
    from r 1 have "?parts rd = Some r" by simp
    then show ?thesis
      using t r p by (cases p) (auto simp: Table_new_def bind_eq_Some_conv)
  qed (simp add: Table_new_def)
qed

section \<open>Lookups and iteration\<close>

text \<open>A lookup of any key in a table some of whose blocks cannot be read.\<close>

lemma damaged_get_any:
  assumes rd: "damaged_reading D C cap blocks bad t c" and dv: "damaged_view D opt tbl blocks fs bad t"
    and C: "opt_cmp opt = C" and P: "nonempty_filter_policy (opt_filter_policy opt)"
    and exact: "\<forall>k. cmp C k key = Equal \<longrightarrow> k = key" and key: "length key < 2 ^ 32"
  shows "\<exists>r c'. Table_get D t key c = Some (r, c') \<and> damaged_reading D C cap blocks bad t c' \<and>
    (case r of Inr v \<Rightarrow> v = get_result C key blocks
     | Inl e \<Rightarrow> \<exists>b \<in> bad. read_table_block D opt (tab_file t) (db_handle b) = Some (Inl e))"
proof -
  let ?t = "t\<lparr>tab_file := BufferBackedFile_read_at tbl\<rparr>"
  have tr: "table_reader D C" using rd by (simp add: damaged_reading_def)
  then have cc: "comparator C" by (simp add: table_reader_def)
  have view: "table_view D opt tbl blocks fs ?t" using dv by (simp add: damaged_view_def)
  note v = table_reader.view_blocks [OF tr view C]
  have "Table_get_handle D t key = Table_get_handle D ?t key"
    by (simp add: Table_get_handle_def cong: option.case_cong)
  note handle = this [unfolded table_reader.Table_get_handle_eq [OF tr view C, of key]]
  have result: "get_result C key blocks = (case block_of C key blocks of None \<Rightarrow> None
      | Some b \<Rightarrow> if cmp C (db_sep b) key = Greater then lookup C key (db_entries b) else None)"
    using comparator.get_result_block_of [OF cc v(2)] v(5) by blast
  show ?thesis
  proof (cases "\<exists>b. block_of C key blocks = Some b \<and> cmp C (db_sep b) key = Greater")
    case False
    with handle result rd show ?thesis by (auto simp: Table_get_def split: option.splits)
  next
    case True
    then obtain b where b: "block_of C key blocks = Some b" "cmp C (db_sep b) key = Greater" by blast
    then have mem: "b \<in> set blocks" using block_of_mem by blast
    note handle = handle [unfolded b(1) option.case b(2) simp_thms if_True]
    note result = result [unfolded b(1) option.case b(2) simp_thms if_True]
    obtain m where m: "FilterBlockReader_key_may_match D (reader_of D (opt_filter_policy opt) fs)
        (bh_offset (db_handle b)) key = Some m" "key \<in> db_keys b \<longrightarrow> m"
      using table_reader.filters_may_match [OF tr P v(7,8) mem v(5) [OF mem] key] by blast
    have opt: "tab_opt t = opt" "tab_filters t = Some (reader_of D (opt_filter_policy opt) fs)"
      using v(1,9) by simp_all
    consider (no) "\<not> m" | (damaged) "m" "b \<in> bad" | (good) "m" "b \<notin> bad" by blast
    then show ?thesis
    proof cases
      case no
      with m(2) exact have "lookup C key (db_entries b) = None" by (auto simp: lookup_None_iff)
      with handle result m(1) no opt rd show ?thesis by (simp add: Table_get_def)
    next
      case damaged
      from damaged_read_block(2) [OF rd mem damaged(2)] opt(1) obtain e c' where
        "Table_read_block D t (db_handle b) c = Some (Inl e, c')"
        "read_table_block D opt (tab_file t) (db_handle b) = Some (Inl e)"
        "damaged_reading D C cap blocks bad t c'" by auto
      then show ?thesis
        using handle m(1) damaged opt by (auto simp: Table_get_def)
    next
      case good
      from damaged_read_block(1) [OF rd mem good(2)] opt(1) obtain contents c' where
        c': "Table_read_block D t (db_handle b) c = Some (Inr \<lparr>blk_contents = contents, blk_opt = opt\<rparr>, c')"
          "holds_entries D contents (db_entries b)" "damaged_reading D C cap blocks bad t c'" by auto
      have asc: "ascending C (map fst (db_entries b))" by (rule ascending_all_entries [OF v(3) mem])
      have "[] \<notin> db_keys b" using v(4) mem by (auto simp: all_entries_set)
      from table_reader.block_lookup [OF tr C c'(2) this asc, of key] obtain it it' where
        it: "Block_iter D \<lparr>blk_contents = contents, blk_opt = opt\<rparr> = Some it"
        "BlockIter_seek D it key = Some it'"
        "current_key_val BlockIter_current it' = Some (lower_bound C key (db_entries b))" by blast
      from comparator.lookup_lower_bound [OF cc asc]
      have "Table_get D t key c = Some (Inr (lookup C key (db_entries b)), c')"
        using handle m(1) good opt c'(1) it C by (simp add: Table_get_def split: option.split)
      with result c'(3) show ?thesis by simp
    qed
  qed
qed

lemma damaged_iteration:
  assumes rd: "damaged_reading D C cap blocks bad t c" and dv: "damaged_view D opt tbl blocks fs bad t"
    and C: "opt_cmp opt = C"
  shows "\<exists>it it'. Table_iter D t = Some it \<and>
    drain (TableIterator_advance D) TableIterator_current (it, c) = Some (all_entries (good_blocks bad blocks), it')"
proof -
  have tr: "table_reader D C" using rd by (simp add: damaged_reading_def)
  have "table_view D opt tbl blocks fs (t\<lparr>tab_file := BufferBackedFile_read_at tbl\<rparr>)"
    using dv by (simp add: damaged_view_def)
  from table_reader.index_iter [OF tr this C] obtain ix where
    ix: "Block_iter D (tab_index_block t) = Some ix" "block_at D C (index_entries D blocks) None ix" by auto
  let ?it = "\<lparr>ti_table = t, ti_current_block = None, ti_current_block_off = 0, ti_index_block = ix\<rparr>"
  have "damaged_at D C cap blocks bad (all_entries (good_blocks bad blocks)) None (?it, c)"
    using rd ix(2) by (simp add: damaged_at_def before_blocks_def)
  from damaged_iterator.drain_all [OF this] ix(1) show ?thesis
    by (auto simp: Table_iter_def)
qed

lemma subseq_good_blocks: "subseq (all_entries (good_blocks bad blocks)) (all_entries blocks)"
  by (induction blocks) (simp_all add: good_blocks_def all_entries_def list_emb_append_mono subseq_drop_many)

lemma open_faulty:
  assumes D: "third_party_laws D" and C: "short_comparator (opt_cmp opt)"
    and data: "data_blocks D (opt_cmp opt) file blocks" and tail: "table_tail D opt n file blocks ft"
    and len: "length file < 2 ^ 29" and cap: "0 < cap" "cap < 2 ^ 64" and faulty: "faulty_reads rd file"
  shows "\<exists>r c. Cache_new cap \<bind> Table_new D opt rd (length file) = Some (r, c) \<and>
    (case r of Inl e \<Rightarrow> True
     | Inr t \<Rightarrow> \<exists>fs bad. damaged_view D opt file blocks fs bad t \<and>
         damaged_reading D (opt_cmp opt) cap blocks bad t c)"
proof -
  have codec: "integer_codec D" using D by (rule third_party_laws.axioms(1))
  have tr: "table_reader D (opt_cmp opt)" by (rule opened_reader [OF D C])
  have len63: "length file < 2 ^ 63" using len by simp
  obtain c0 where c0: "Cache_new cap = Some (c0 :: block_cache)" "cache_is c0 []" "ca_cap c0 = cap" "ca_id c0 = 0"
    using Cache_new_is [OF cap(1)] cap(1) by (auto simp: Cache_new_def)
  then have "unat (ca_id c0) + 1 < 2 ^ 64" by simp
  from table_reader.Table_new_parts [OF tr refl buffer_file.random_access_file_axioms tail len this]
  obtain t fs where t: "Table_new D opt (BufferBackedFile_read_at file) (length file) c0 =
      Some (Inr t, c0\<lparr>ca_id := 0 + 1\<rparr>)"
    "table_parts D opt file blocks fs t" "tab_file t = BufferBackedFile_read_at file"
    by (auto simp: c0(4))
  let ?t = "t\<lparr>tab_file := rd\<rparr>" and ?c = "c0\<lparr>ca_id := 0 + 1\<rparr>"
  let ?bad = "{b. \<exists>e. read_table_block D opt rd (db_handle b) = Some (Inl e)}"
  have "table_parts D opt file blocks fs (?t\<lparr>tab_file := BufferBackedFile_read_at file\<rparr>)"
    using t(2) buffer_file.random_access_file_axioms by (simp add: table_parts_def)
  then have view: "table_view D opt file blocks fs (?t\<lparr>tab_file := BufferBackedFile_read_at file\<rparr>)"
    using data unfolding table_view_parts by simp
  have "\<exists>contents. read_table_block D opt rd (db_handle b) = ok \<lparr>blk_contents = contents, blk_opt = opt\<rparr> \<and>
      holds_entries D contents (db_entries b)" if b: "b \<in> set blocks" "b \<notin> ?bad" for b
  proof -
    obtain contents where contents: "stored D file (db_handle b) contents" "holds_entries D contents (db_entries b)"
      using data b(1) by (auto simp: data_blocks_def data_ok_def)
    have "read_table_block D opt (BufferBackedFile_read_at file) (db_handle b) =
        ok \<lparr>blk_contents = contents, blk_opt = opt\<rparr>"
      by (rule read_table_block_stored [OF D buffer_file.random_access_file_axioms contents(1)
            holds_entries_length [OF codec contents(2)] len63])
    then show ?thesis
      using read_table_block_faulty [OF faulty, of D opt "db_handle b"] b(2) contents(2)
      by (auto simp: unless_error_def)
  qed
  then have dview: "damaged_view D opt file blocks fs ?bad ?t"
    using view by (simp add: damaged_view_def)
  have "cache_is ?c []" using c0(2) cache_is_id by blast
  then have "cache_holds cap 1 ?c []" using c0(3) cap by (simp add: cache_holds_def)
  then have "coherent (cache_holds cap 1) (cached_good D ?t (good_blocks ?bad blocks)) ?c"
    by (auto simp: coherent_def)
  then have "damaged_reading D (opt_cmp opt) cap blocks ?bad ?t ?c"
    using tr dview by (auto simp: damaged_reading_def)
  with Table_new_faulty [OF faulty t(1)] dview c0(1) show ?thesis by fastforce
qed

section \<open>Properties\<close>

text \<open>C6: A table file each of whose reads returns the file's bytes or fails with an error: opening it and
  looking up any key do not panic, and return an error or the right result; the iterator does not
  panic and yields some of the stored entries, in order. So a failing disk is never taken for
  missing data by \<open>get\<close>.\<close>

theorem read_faults_reported:
  assumes "third_party_laws D" "opt_cmp opt = DefaultCmp" "table_fits opt kvs" "\<not> zero_extended kvs"
    and "nonempty_filter_policy (opt_filter_policy opt)" "0 < cap" "cap < 2 ^ 64" "length key < 2 ^ 32"
  shows "\<exists>tbl. build_file D opt kvs = Some (Inr tbl) \<and>
    (\<forall>rd. faulty_reads rd tbl \<longrightarrow>
       (\<exists>r c. Cache_new cap \<bind> Table_new D opt rd (length tbl) = Some (r, c) \<and>
          (case r of Inl e \<Rightarrow> True
           | Inr t \<Rightarrow>
               (\<exists>r c'. Table_get D t key c = Some (r, c') \<and>
                  (case r of Inl e \<Rightarrow> True | Inr v \<Rightarrow> v = map_of kvs key)) \<and>
               (\<exists>it es it'. Table_iter D t = Some it \<and>
                  drain (TableIterator_advance D) TableIterator_current (it, c) = Some (es, it') \<and>
                  subseq es kvs))))"
proof -
  have C: "short_comparator (opt_cmp opt)" using assms(2) default_cmp.short_comparator_axioms by simp
  obtain tbl n blocks ft where fl: "build_file D opt kvs = Some (Inr tbl)" "all_entries blocks = kvs"
    "data_blocks D (opt_cmp opt) tbl blocks" "table_tail D opt n tbl blocks ft" "length tbl < 2 ^ 29"
    by (rule built_file [OF assms(1) C assms(3)])
  have sep: "separated DefaultCmp blocks" "\<forall>b \<in> set blocks. db_entries b \<noteq> []"
    using fl(3) assms(2) by (auto simp: data_blocks_def data_ok_def)
  have result: "get_result DefaultCmp key blocks = map_of kvs key"
    using get_result_default [OF sep, of key] assms(4) fl(2) by simp
  have "\<exists>r c. Cache_new cap \<bind> Table_new D opt rd (length tbl) = Some (r, c) \<and>
      (case r of Inl e \<Rightarrow> True
       | Inr t \<Rightarrow>
           (\<exists>r c'. Table_get D t key c = Some (r, c') \<and>
              (case r of Inl e \<Rightarrow> True | Inr v \<Rightarrow> v = map_of kvs key)) \<and>
           (\<exists>it es it'. Table_iter D t = Some it \<and>
              drain (TableIterator_advance D) TableIterator_current (it, c) = Some (es, it') \<and> subseq es kvs))"
    if faulty: "faulty_reads rd tbl" for rd
  proof -
    from open_faulty [OF assms(1) C fl(3-5) assms(6,7) faulty] obtain r c where
      r: "Cache_new cap \<bind> Table_new D opt rd (length tbl) = Some (r, c)"
        "case r of Inl e \<Rightarrow> True
         | Inr t \<Rightarrow> \<exists>fs bad. damaged_view D opt tbl blocks fs bad t \<and>
             damaged_reading D (opt_cmp opt) cap blocks bad t c" by blast
    show ?thesis
    proof (cases r)
      case (Inl e)
      with r(1) show ?thesis by simp
    next
      case (Inr t)
      with r(2) assms(2) obtain fs bad where
        t: "damaged_view D opt tbl blocks fs bad t" "damaged_reading D DefaultCmp cap blocks bad t c" by auto
      from damaged_get_any [OF t(2,1) assms(2,5) _ assms(8)] obtain r' c' where
        g: "Table_get D t key c = Some (r', c')"
          "case r' of Inr v \<Rightarrow> v = get_result DefaultCmp key blocks
           | Inl e \<Rightarrow> \<exists>b \<in> bad. read_table_block D opt (tab_file t) (db_handle b) = Some (Inl e)"
        by auto
      then have "case r' of Inl e \<Rightarrow> True | Inr v \<Rightarrow> v = map_of kvs key" by (cases r') (simp_all add: result)
      with g(1) have "\<exists>r c'. Table_get D t key c = Some (r, c') \<and>
          (case r of Inl e \<Rightarrow> True | Inr v \<Rightarrow> v = map_of kvs key)" by blast
      moreover from damaged_iteration [OF t(2,1) assms(2)] subseq_good_blocks [of bad blocks] fl(2)
      have "\<exists>it es it'. Table_iter D t = Some it \<and>
          drain (TableIterator_advance D) TableIterator_current (it, c) = Some (es, it') \<and> subseq es kvs" by auto
      ultimately show ?thesis using r(1) Inr by simp
    qed
  qed
  with fl(1) show ?thesis by blast
qed

text \<open>A file whose first bytes cannot be read.\<close>

definition bad_sector :: "bytes \<Rightarrow> usize \<Rightarrow> random_access" where
  "bad_sector data n off dst =
     (if off < n then Some (Inl (Status_new IOError ''bad sector'')) else BufferBackedFile_read_at data off dst)"

theorem read_faults_reported_witness:
  "\<exists>tbl r c. build_file reference_deps small_opt sample_kvs = Some (Inr tbl) \<and>
    Cache_new 2 \<bind> Table_new reference_deps small_opt (bad_sector tbl 1) (length tbl) = Some (r, c) \<and>
    (case r of Inl e \<Rightarrow> True
     | Inr t \<Rightarrow> \<exists>r c'. Table_get reference_deps t [1, 3] c = Some (r, c') \<and>
         (case r of Inl e \<Rightarrow> True | Inr v \<Rightarrow> v = Some [8, 9]))"
proof -
  have v: "map_of sample_kvs [1, 3] = Some [8, 9]" by (simp add: sample_kvs_def)
  have faulty: "faulty_reads (bad_sector tbl 1) tbl" for tbl by (simp add: faulty_reads_def bad_sector_def)
  have "0 < (2::nat)" "(2::nat) < 2 ^ 64" "length [1 :: u8, 3] < 2 ^ 32" "opt_cmp small_opt = DefaultCmp"
    by simp_all
  from read_faults_reported [OF ref_deps.third_party_laws_axioms this(4) sample_fits sample_not_extended
      small_policy this(1-3), unfolded v] obtain tbl r c where
    "build_file reference_deps small_opt sample_kvs = Some (Inr tbl)"
    "Cache_new 2 \<bind> Table_new reference_deps small_opt (bad_sector tbl 1) (length tbl) = Some (r, c)"
    "case r of Inl e \<Rightarrow> True
     | Inr t \<Rightarrow> (\<exists>r c'. Table_get reference_deps t [1, 3] c = Some (r, c') \<and>
         (case r of Inl e \<Rightarrow> True | Inr v \<Rightarrow> v = Some [8, 9])) \<and>
         (\<exists>it es it'. Table_iter reference_deps t = Some it \<and>
            drain (TableIterator_advance reference_deps) TableIterator_current (it, c) = Some (es, it') \<and>
            subseq es sample_kvs)"
    using faulty by blast
  then show ?thesis by (cases r) auto
qed

end
