(* ===== verification/SST_TableErrors.thy ===== *)
theory SST_TableErrors
  imports SST_TableThms
begin

text \<open>
  The order that the table builder checks, the bytes a block and a footer are stored in, and
  what happens with malformed files: a wrong checksum is an error, a malformed footer a panic.
\<close>

section \<open>The order of the keys\<close>

definition builder_ok ::
  "deps \<Rightarrow> Options \<Rightarrow> bytes TableBuilder \<Rightarrow> (bytes \<times> bytes) list \<Rightarrow> bool" where
  "builder_ok D opt self kvs \<longleftrightarrow>
     (\<exists>blocks cur. tb_inv D opt (\<lambda>w. w) self blocks cur \<and> (cur = [] \<longrightarrow> blocks = []) \<and>
        all_entries blocks @ cur = kvs)"

lemma builder_ok_new: "builder_ok D opt (TableBuilder_new opt []) []"
  using tb_inv_new [of "\<lambda>w. w" "[]" D opt] by (force simp: builder_ok_def)

lemma builder_ok_one:
  assumes "builder_ok D opt self [e]"
  shows "tb_inv D opt (\<lambda>w. w) self [] [e]"
proof -
  obtain blocks cur where t: "tb_inv D opt (\<lambda>w. w) self blocks cur" "cur = [] \<longrightarrow> blocks = []"
    "all_entries blocks @ cur = [e]"
    using assms by (auto simp: builder_ok_def)
  then have "\<forall>b \<in> set blocks. db_entries b \<noteq> []"
    by (simp add: tb_inv_def blocks_inv_def data_ok_def)
  with t(2,3) have "blocks = [] \<and> cur = [e]"
    by (cases blocks; cases cur) (auto simp: append_eq_Cons_conv)
  with t(1) show ?thesis by simp
qed

lemma builder_ok_add:
  assumes D: "third_party_laws D" and C: "short_comparator (opt_cmp opt)"
    and inv: "builder_ok D opt self kvs" and input: "table_input opt (kvs @ [(k, v)])"
  shows "\<exists>self'. TableBuilder_add D (vec_write D) self k v = Some (Inr (), self') \<and>
    builder_ok D opt self' (kvs @ [(k, v)])"
proof -
  obtain blocks cur where t: "tb_inv D opt (\<lambda>w. w) self blocks cur" "cur = [] \<Longrightarrow> blocks = []"
    "all_entries blocks @ cur = kvs"
    using inv by (auto simp: builder_ok_def)
  have "policy_creates (opt_filter_policy opt) (fst ` set kvs) (length kvs)"
    by (rule policy_creates_mono [of _ "fst ` set (kvs @ [(k, v)])" "length (kvs @ [(k, v)])"])
      (use input in \<open>auto simp: table_input_def\<close>)
  then have "table_options opt" "ascending (opt_cmp opt) (map fst (all_entries blocks @ cur @ [(k, v)]))"
    "k \<noteq> []" "table_weight (all_entries blocks @ cur @ [(k, v)]) < 2 ^ 30"
    "policy_creates (opt_filter_policy opt) (fst ` set (all_entries blocks @ cur)) (length (all_entries blocks @ cur))"
    using input unfolding t(3) append_assoc [symmetric] table_input_def by auto
  from table_env.add_inv [OF vec_table_envI [OF D C] t(1,2) refl this] t(3) show ?thesis
    unfolding builder_ok_def by (metis append_assoc)
qed

text \<open>C12: The table builder's invariant, which relates its blocks, its index, its filter block and the
  bytes written to the entries added so far: \<open>add\<close> of a key above all others keeps it, and
  neither panics nor fails.\<close>

theorem table_add_keeps_invariant:
  assumes "third_party_laws D" "short_comparator (opt_cmp opt)" "builder_ok D opt self kvs"
    and "table_input opt (kvs @ [(k, v)])"
  shows "\<exists>self'. TableBuilder_add D (vec_write D) self k v = Some (Inr (), self') \<and>
    builder_ok D opt self' (kvs @ [(k, v)])"
  using assms by (rule builder_ok_add)

lemma sample_input_one: "table_input small_opt [([98], [1])]"
  using small_fits [of "[([98], [1])]"] by (simp add: table_fits_def ascending_def entry_weight_def)

theorem table_add_keeps_invariant_witness:
  "\<exists>self. TableBuilder_add reference_deps (vec_write reference_deps) (TableBuilder_new small_opt []) [98] [1] =
      Some (Inr (), self) \<and> builder_ok reference_deps small_opt self [([98], [1])]"
  using table_add_keeps_invariant [OF ref_deps.third_party_laws_axioms small_short builder_ok_new, of "[98]" "[1]"]
    sample_input_one by simp

text \<open>Inside of a data block the builder refuses a key that is not above the last one: while the
  block is not full, adding such a key panics.\<close>

lemma table_add_checks_order:
  assumes "builder_ok D opt self kvs" "kvs \<noteq> []" "cmp (opt_cmp opt) (fst (last kvs)) k \<noteq> Less"
    and "integer_codec D" "tb_data_block self = Some db" "BlockBuilder_size_estimate db \<le> block_size opt"
  shows "TableBuilder_add D W self k v = None"
proof -
  obtain blocks cur where t: "tb_inv D opt (\<lambda>w. w) self blocks cur" "cur = [] \<longrightarrow> blocks = []"
    "all_entries blocks @ cur = kvs"
    using assms(1) by (auto simp: builder_ok_def)
  then have cur: "cur \<noteq> []" "fst (last cur) = fst (last kvs)" using assms(2) by auto
  have holds: "builder_holds D opt (Some db) cur" and opt: "tb_opt self = opt"
    using t(1) assms(5) by (simp_all add: tb_inv_def)
  have size: "8 < BlockBuilder_size_estimate db" by (rule builder_holds_size [OF assms(4) holds cur(1)])
  obtain es rs where db: "bb_opt db = opt" "bb_inv D db es rs" "cur = map snd es"
    using holds by (auto simp: builder_holds_def)
  have "bb_last_key db = fst (last cur)"
    using builder_holds_last_key [OF holds cur(1)] by (simp add: BlockBuilder_last_key_def)
  moreover have "bb_buffer db \<noteq> []"
  proof -
    obtain e es' where es: "es = e # es'" using cur(1) db(3) by (cases es) auto
    have "encode_var D (ent_shared e) \<noteq> []"
      using integer_codec.length_encode_var_pos [OF assms(4), of "ent_shared e"] by auto
    then show ?thesis using db(2) by (simp add: bb_inv_def es encoded_def entry_bytes_def entry_head_def)
  qed
  ultimately have "BlockBuilder_add D db k v = None"
    using assms(3) cur(2) db(1) by (simp add: BlockBuilder_add_def rassert_def)
  then have "TableBuilder_add_entry D self k v = None"
    using assms(5) by (auto simp: TableBuilder_add_entry_def usize_add_def)
  then show ?thesis
    using assms(5,6) opt by (simp add: TableBuilder_add_def rassert_def)
qed

lemma builder_holds_size_le:
  assumes "integer_codec D" "builder_holds D opt (Some b) kvs" "block_weight kvs < 2 ^ 32"
  shows "BlockBuilder_size_estimate b \<le> block_weight kvs"
proof -
  obtain es rs where b: "bb_inv D b es rs" using assms(2) by (auto simp: builder_holds_def)
  then have "BlockBuilder_size_estimate b = length (BlockBuilder_finish D b)"
    by (simp add: BlockBuilder_finish_bytes [OF b] integer_codec.block_bytes_length [OF assms(1)])
      (use b in \<open>simp add: BlockBuilder_size_estimate_def bb_inv_def\<close>)
  then show ?thesis using builder_holds_finish(2) [OF assms] by simp
qed

lemma length_table_weight: "length kvs \<le> table_weight kvs"
  by (induction kvs) (simp_all add: entry_weight_def)

text \<open>A full block is written whatever key comes next, when there is a separator, and the next block is empty.\<close>

lemma full_block_accepts:
  assumes D: "third_party_laws D" and opt: "opt_cmp opt = DefaultCmp" and input: "table_input opt kvs"
    and inv: "tb_inv D opt (\<lambda>w. w) self blocks cur" "cur \<noteq> []" "all_entries blocks @ cur = kvs"
    and less: "cmp DefaultCmp k (fst (last kvs)) = Less"
    and sep: "find_shortest_sep DefaultCmp (fst (last kvs)) k = Some sep"
  shows "\<exists>self1 self'. TableBuilder_write_data_block D (vec_write D) self k = Some (Inr (), self1) \<and>
    TableBuilder_add_entry D self1 k v = Some (Inr (), self') \<and> tb_num_entries self' = length kvs + 1 \<and>
    tb_prev_block_last_key self' = fst (last kvs)"
proof -
  have C: "short_comparator (opt_cmp opt)" using opt default_cmp.short_comparator_axioms by simp
  have last: "fst (last cur) = fst (last kvs)" using inv(2,3) by auto
  have weight: "table_weight kvs < 2 ^ 30" and options: "table_options opt"
    and creates: "policy_creates (opt_filter_policy opt) (fst ` set kvs) (length kvs)"
    using input by (simp_all add: table_input_def)
  have s: "sep = fst (last kvs) @ [0]"
    using find_shortest_sep_below [of k "fst (last kvs)" sep] less sep by (simp add: DefaultCmp_def)
  from table_env.write_data_block_sep [OF vec_table_envI [OF D C] inv(1,2) refl options, unfolded inv(3), OF weight creates,
      unfolded last, of k sep] sep opt obtain self1 b where
    s1: "TableBuilder_write_data_block D (vec_write D) self k = Some (Inr (), self1)"
      "tb_inv D opt (\<lambda>w. w) self1 (blocks @ [b]) []" "db_entries b = cur"
    by (auto simp: s DefaultCmp_def)
  obtain db where db: "tb_data_block self1 = Some db" "builder_holds D opt (Some db) []"
    using s1(2) by (rule tb_invE)
  from builder_holds_add [OF db(2)] options obtain db' where db': "BlockBuilder_add D db k v = Some db'"
    by (fastforce simp: table_options_def)
  have "tb_num_entries self1 = length kvs" "tb_prev_block_last_key self1 = fst (last kvs)"
    using s1(2,3) last by (simp_all add: tb_inv_def inv(3) [symmetric])
  moreover have "length kvs + 1 < 2 ^ 64" using weight length_table_weight [of kvs] by simp
  ultimately show ?thesis
    using s1(1) db(1) db' by (simp add: TableBuilder_add_entry_def usize_add_def)
qed

text \<open>C36: What happens to a key below the last one. When the data block is not full, adding it panics. When
  the block is full, the key is compared with the last key of the block before that one only, and is accepted
  without a panic or an error if it is above that key (or there is no such block) and the comparator returns a
  separator for it. The builder then goes on with an entry that is out of order.\<close>

theorem table_add_below_last_key:
  assumes "third_party_laws D" "opt_cmp opt = DefaultCmp" "builder_ok D opt self kvs" "table_input opt kvs"
    and "kvs \<noteq> []" "cmp DefaultCmp k (fst (last kvs)) = Less" "tb_data_block self = Some db"
  shows "if BlockBuilder_size_estimate db > block_size opt \<and>
      (tb_prev_block_last_key self = [] \<or> cmp DefaultCmp (tb_prev_block_last_key self) k = Less) \<and>
      find_shortest_sep DefaultCmp (fst (last kvs)) k \<noteq> None
    then \<exists>self'. TableBuilder_add D (vec_write D) self k v = Some (Inr (), self') \<and>
      tb_num_entries self' = length kvs + 1 \<and> tb_prev_block_last_key self' = fst (last kvs)
    else TableBuilder_add D (vec_write D) self k v = None"
proof -
  obtain blocks cur where t: "tb_inv D opt (\<lambda>w. w) self blocks cur" "cur = [] \<longrightarrow> blocks = []"
    "all_entries blocks @ cur = kvs"
    using assms(3) by (auto simp: builder_ok_def)
  then have cur: "cur \<noteq> []" "fst (last cur) = fst (last kvs)" using assms(5) by auto
  have o: "tb_opt self = opt" and holds: "builder_holds D opt (Some db) cur"
    using t(1) assms(7) by (simp_all add: tb_inv_def)
  have last: "BlockBuilder_last_key db = fst (last kvs)" using builder_holds_last_key [OF holds cur(1)] cur(2) by simp
  have codec: "integer_codec D" using assms(1) by (simp add: third_party_laws_def)
  have unsorted: "cmp (opt_cmp opt) (fst (last kvs)) k \<noteq> Less"
    using assms(2,6) default_cmp.cmp_swap [of k "fst (last kvs)"] by simp
  have room: "TableBuilder_add D (vec_write D) self k v = None" if "BlockBuilder_size_estimate db \<le> block_size opt"
    by (rule table_add_checks_order [OF assms(3,5) unsorted codec assms(7) that])
  have guard: "TableBuilder_add D (vec_write D) self k v = None"
    if "tb_prev_block_last_key self \<noteq> []" "cmp DefaultCmp (tb_prev_block_last_key self) k \<noteq> Less"
    using that o assms(2,7) by (simp add: TableBuilder_add_def rassert_def)
  have no_sep: "TableBuilder_add D (vec_write D) self k v = None"
    if "BlockBuilder_size_estimate db > block_size opt" "find_shortest_sep DefaultCmp (fst (last kvs)) k = None"
    using that o assms(2,7) last by (simp add: TableBuilder_add_def TableBuilder_write_data_block_def tb_try_def Let_def)
  have "\<exists>self'. TableBuilder_add D (vec_write D) self k v = Some (Inr (), self') \<and>
      tb_num_entries self' = length kvs + 1 \<and> tb_prev_block_last_key self' = fst (last kvs)"
    if "BlockBuilder_size_estimate db > block_size opt"
      "tb_prev_block_last_key self = [] \<or> cmp DefaultCmp (tb_prev_block_last_key self) k = Less"
      "find_shortest_sep DefaultCmp (fst (last kvs)) k = Some sep" for sep
    using full_block_accepts [OF assms(1,2,4) t(1) cur(1) t(3) assms(6) that(3), of v] that(1,2) o assms(2,7)
    by (auto simp: TableBuilder_add_def)
  with room guard no_sep show ?thesis
    by (cases "BlockBuilder_size_estimate db > block_size opt"; cases "find_shortest_sep DefaultCmp (fst (last kvs)) k")
      auto
qed

theorem table_add_below_last_key_witness:
  "\<exists>s1 s2. TableBuilder_add reference_deps (vec_write reference_deps) (TableBuilder_new small_opt []) [98] [1] =
      Some (Inr (), s1) \<and>
    TableBuilder_add reference_deps (vec_write reference_deps) s1 [97] [2] = Some (Inr (), s2) \<and>
    cmp DefaultCmp [97] [98] = Less"
proof -
  let ?D = reference_deps and ?add = "TableBuilder_add reference_deps (vec_write reference_deps)"
  obtain s1 where s1: "?add (TableBuilder_new small_opt []) [98] [1] = Some (Inr (), s1)"
    "builder_ok ?D small_opt s1 [([98], [1])]"
    using builder_ok_add [OF ref_deps.third_party_laws_axioms small_short builder_ok_new, of "[98]" "[1]"]
      sample_input_one by auto
  have inv: "tb_inv ?D small_opt (\<lambda>w. w) s1 [] [([98], [1])]" by (rule builder_ok_one [OF s1(2)])
  obtain db where db: "tb_data_block s1 = Some db" "builder_holds ?D small_opt (Some db) [([98], [1])]"
    using inv by (rule tb_invE)
  have "block_size small_opt < BlockBuilder_size_estimate db"
    using builder_holds_size [OF ref_deps.integer_codec_axioms db(2)] by simp
  moreover have "tb_prev_block_last_key s1 = []" using inv by (simp add: tb_inv_def)
  moreover have "DefaultCmp_find_shortest_sep [98] [97] = Some [98, 0]" by code_simp
  moreover have less: "cmp DefaultCmp [97] [98] = Less" by (simp add: DefaultCmp_def)
  ultimately have "\<exists>s2. ?add s1 [97] [2] = Some (Inr (), s2)"
    using table_add_below_last_key [OF ref_deps.third_party_laws_axioms _ s1(2) sample_input_one _ _ db(1), of "[97]" "[2]"]
    by (auto simp: DefaultCmp_def)
  with s1(1) less show ?thesis by blast
qed

section \<open>Blocks in the file\<close>

text \<open>C26: A block that \<open>write_block\<close> appended to the file is read back unchanged through the handle it
  returned, with either compression, and whatever is written after it.\<close>

theorem written_block_read_back:
  assumes "third_party_laws D" "tb_offset self = length (tb_dst self)" "tb_offset self < 2 ^ 55"
    and "4 < length contents" "length contents < 2 ^ 31" "length rest < 2 ^ 55"
  shows "\<exists>h self'. TableBuilder_write_block D (vec_write D) self contents ctype = Some (Inr h, self') \<and>
    read_table_block D opt (BufferBackedFile_read_at (tb_dst self' @ rest)) h =
      ok \<lparr>blk_contents = contents, blk_opt = opt\<rparr>"
proof -
  from table_env.write_contents [OF vec_table_envI [OF assms(1) default_cmp.short_comparator_axioms]
      assms(2,3,5)] obtain h w' n where
    w: "TableBuilder_write_block D (vec_write D) self contents ctype =
        Some (Inr h, self\<lparr>tb_dst := w', tb_offset := length w'\<rparr>)" "w' = tb_dst self @ n"
      "length n \<le> max_compress_len (length contents) + 5" "stored D w' h contents"
    by metis
  have "length n < 2 ^ 33" using w(3) assms(5) by (simp add: max_compress_len_def)
  then have "length (w' @ rest) < 2 ^ 63" using w(2) assms(2,3,6) by simp
  from read_table_block_stored [OF assms(1) buffer_file.random_access_file_axioms
      stored_append [OF w(4)] assms(4) this]
  show ?thesis using w(1) by auto
qed

theorem written_block_read_back_witness:
  "\<exists>h self. TableBuilder_write_block reference_deps (vec_write reference_deps) (TableBuilder_new small_opt [])
      [1, 2, 3, 4, 5] CompressionSnappy = Some (Inr h, self) \<and>
    read_table_block reference_deps small_opt (BufferBackedFile_read_at (tb_dst self @ [7])) h =
      ok \<lparr>blk_contents = [1, 2, 3, 4, 5], blk_opt = small_opt\<rparr>"
  using written_block_read_back [OF ref_deps.third_party_laws_axioms, of "TableBuilder_new small_opt []"
      "[1, 2, 3, 4, 5]" "[7]" CompressionSnappy small_opt]
  by (simp add: TableBuilder_new_def)

text \<open>C31: The outcome of reading a block is determined by its bytes in the file: when the checksum of the
  data and the type byte is not the stored one, the result is the error \<open>Corruption\<close> with the
  block's offset, otherwise an unknown type is the error \<open>InvalidData\<close>.\<close>

theorem read_block_outcome:
  assumes "length cksum = 4" "length data + 5 < 2 ^ 63"
  shows "read_table_block D opt (BufferBackedFile_read_at (pre @ data @ tag # cksum @ rest))
      (BlockHandle_new (length pre) (length data)) =
    (if crc32_iscsi D (data @ [tag]) = unmask_crc (decode_fixed32 D cksum) then unpack D opt tag data
     else err Corruption (''checksum verification failed for block at '' @ decimal (length pre)))"
  using read_table_block_cases [OF buffer_file.random_access_file_axioms assms refl] .

theorem read_block_outcome_witness:
  "read_table_block (reference_deps\<lparr>crc32_iscsi := \<lambda>_. 5\<rparr>) small_opt
      (BufferBackedFile_read_at ([9] @ [1, 2, 3, 4, 5] @ 0 # [0, 0, 0, 0] @ []))
      (BlockHandle_new (length ([9] :: bytes)) (length ([1, 2, 3, 4, 5] :: bytes))) =
    err Corruption (''checksum verification failed for block at '' @ decimal (length ([9] :: bytes)))"
proof -
  have "unmask_crc (le32_decode [0, 0, 0, 0]) \<noteq> 5" by code_simp
  then have "unmask_crc (decode_fixed32 reference_deps [0, 0, 0, 0]) \<noteq> 5" by (simp add: reference_deps_def)
  then show ?thesis
    using read_block_outcome [of "[0, 0, 0, 0]" "[1, 2, 3, 4, 5]" "reference_deps\<lparr>crc32_iscsi := \<lambda>_. 5\<rparr>"
        small_opt "[9]" 0 "[]"]
    by simp
qed

section \<open>The footer\<close>

text \<open>A footer whose handles are in range is encoded into 48 bytes without a panic, and decoding them
  gives it back.\<close>

lemma footer_round_trip:
  assumes "integer_codec D" "footer_ok ft"
  shows "\<exists>buf. Footer_encode D ft (replicate FULL_FOOTER_LENGTH 0) = Some buf \<and> length buf = 48 \<and>
    Footer_decode D buf = Some ft"
  using integer_codec.Footer_encode_eq [OF assms, of "replicate FULL_FOOTER_LENGTH 0"]
    integer_codec.Footer_decode_eq [OF assms] integer_codec.footer_bytes_length [OF assms]
  by (simp add: footer_consts)

text \<open>Opening a file that is shorter than a footer, or whose last eight bytes are not the magic
  number, panics: it is not an error value.\<close>

lemma open_malformed_panics:
  assumes "length file < 48 \<or> drop (length file - 8) file \<noteq> MAGIC_FOOTER_ENCODED"
  shows "open_file D opt file cache = None"
proof (cases "length file < 48")
  case True
  then have "read_footer D (BufferBackedFile_read_at file) (length file) = None"
    by (simp add: read_footer_def footer_consts zeroed_vec_def usize_sub_def)
  then show ?thesis by (simp add: open_file_def Table_new_def)
next
  case False
  then have read: "BufferBackedFile_read_at file (length file - 48) (replicate 48 0) =
      ok (48, drop (length file - 48) file)"
    using buffer_file.read_inside [of "length file - 48" "replicate 48 0" "file"] by simp
  have "drop 40 (drop (length file - 48) file) = drop (length file - 8) file" using False by simp
  then have "Footer_decode D (drop (length file - 48) file) = None"
    using assms False by (simp add: Footer_decode_def footer_consts slice_from_def rassert_def)
  then have "read_footer D (BufferBackedFile_read_at file) (length file) = None"
    using read False by (simp add: read_footer_def footer_consts zeroed_vec_def run_simps)
  then show ?thesis by (simp add: open_file_def Table_new_def)
qed

end
