(* ===== verification/SST_WriteErrors.thy ===== *)
theory SST_WriteErrors
  imports SST_TableErrors "HOL-Library.Sublist"
begin

text \<open>
  The table builder on a destination that can fail. The contract \<open>honest_writer\<close> says that each
  call either takes all bytes or fails after taking a prefix of them; it is interpreted on a
  destination of limited capacity. Under it a run of the builder follows the run on a byte vector up
  to the first error: a simulation between the two destinations, kept by every operation.
  A destination that takes a part of the bytes and reports how many shows what the contract is for.
\<close>

section \<open>Destinations that fail honestly\<close>

locale honest_writer =
  fixes D :: deps and W :: "'w Write" and out :: "'w \<Rightarrow> bytes"
  assumes write_honest: "(\<exists>w'. write_fn W w bs = Some (Inr (length bs), w') \<and> out w' = out w @ bs) \<or>
      (\<exists>e w' k. write_fn W w bs = Some (Inl e, w') \<and> out w' = out w @ take k bs)"
    and write_fixedint_honest:
      "(\<exists>w'. write_fixedint W w v = Some (Inr 4, w') \<and> out w' = out w @ encode_fixed32 D v) \<or>
       (\<exists>e w' k. write_fixedint W w v = Some (Inl e, w') \<and> out w' = out w @ take k (encode_fixed32 D v))"
    and flush_honest: "\<exists>r w'. flush_fn W w = Some (r, w') \<and> out w' = out w"

text \<open>A destination with room for a limited number of bytes.\<close>

definition storage_full :: io_error where
  "storage_full = \<lparr>kind = KOther, io_msg = ''no space left on device''\<rparr>"

definition disk_put :: "nat \<Rightarrow> bytes \<Rightarrow> bytes \<Rightarrow> ((io_error + usize) \<times> bytes) run" where
  "disk_put cap w bs =
     (if length w + length bs \<le> cap then Some (Inr (length bs), w @ bs)
      else Some (Inl storage_full, w @ take (cap - length w) bs))"

definition disk_write :: "deps \<Rightarrow> nat \<Rightarrow> bytes Write" where
  "disk_write D cap =
     \<lparr>write_fn = disk_put cap, write_fixedint = (\<lambda>w v. disk_put cap w (encode_fixed32 D v)),
      flush_fn = (\<lambda>w. Some (Inr (), w))\<rparr>"

lemma disk_honest: "integer_codec D \<Longrightarrow> honest_writer D (disk_write D cap) (\<lambda>w. w)"
  by (unfold_locales)
    (auto simp: disk_write_def disk_put_def integer_codec.length_encode_fixed32)

interpretation disk: honest_writer reference_deps "disk_write reference_deps cap" "\<lambda>w. w" for cap
  by (rule disk_honest) unfold_locales

section \<open>The simulation\<close>

text \<open>A builder on some destination with the state of a builder on a byte vector.\<close>

definition rehome :: "'w \<Rightarrow> bytes TableBuilder \<Rightarrow> 'w TableBuilder" where
  "rehome w self =
     \<lparr>tb_opt = tb_opt self, tb_dst = w, tb_offset = tb_offset self, tb_num_entries = tb_num_entries self,
      tb_prev_block_last_key = tb_prev_block_last_key self, tb_data_block = tb_data_block self,
      tb_index_block = tb_index_block self, tb_filter_block = tb_filter_block self\<rparr>"

lemma rehome_simps [simp]:
  "tb_opt (rehome w s) = tb_opt s" "tb_dst (rehome w s) = w" "tb_offset (rehome w s) = tb_offset s"
  "tb_num_entries (rehome w s) = tb_num_entries s"
  "tb_prev_block_last_key (rehome w s) = tb_prev_block_last_key s"
  "tb_data_block (rehome w s) = tb_data_block s" "tb_index_block (rehome w s) = tb_index_block s"
  "tb_filter_block (rehome w s) = tb_filter_block s"
  "(rehome w s)\<lparr>tb_dst := w'\<rparr> = rehome w' (s\<lparr>tb_dst := bs\<rparr>)"
  "(rehome w s)\<lparr>tb_offset := n\<rparr> = rehome w (s\<lparr>tb_offset := n\<rparr>)"
  "(rehome w s)\<lparr>tb_num_entries := n\<rparr> = rehome w (s\<lparr>tb_num_entries := n\<rparr>)"
  "(rehome w s)\<lparr>tb_prev_block_last_key := key\<rparr> = rehome w (s\<lparr>tb_prev_block_last_key := key\<rparr>)"
  "(rehome w s)\<lparr>tb_data_block := db\<rparr> = rehome w (s\<lparr>tb_data_block := db\<rparr>)"
  "(rehome w s)\<lparr>tb_index_block := db\<rparr> = rehome w (s\<lparr>tb_index_block := db\<rparr>)"
  "(rehome w s)\<lparr>tb_filter_block := fb\<rparr> = rehome w (s\<lparr>tb_filter_block := fb\<rparr>)"
  by (simp_all add: rehome_def)

lemma rehome_new: "TableBuilder_new opt dst = rehome dst (TableBuilder_new opt [])"
  by (simp add: rehome_def TableBuilder_new_def)

text \<open>An operation on a byte vector only appends.\<close>

definition grows :: "bytes \<Rightarrow> (bytes, 'a) tb_result \<Rightarrow> bool" where
  "grows base m \<longleftrightarrow> (\<forall>r t. m = Some (r, t) \<longrightarrow> prefix base (tb_dst t))"

lemma grows_panic: "grows base None"
  by (simp add: grows_def)

lemma grows_return: "prefix base (tb_dst t) \<Longrightarrow> grows base (Some (r, t))"
  by (simp add: grows_def)

lemma grows_try:
  "grows base m \<Longrightarrow> (\<And>x t. prefix base (tb_dst t) \<Longrightarrow> grows base (f x t)) \<Longrightarrow> grows base (tb_try m f)"
  by (cases m) (auto simp: grows_def tb_try_def split: sum.splits)

lemma grows_bind: "(\<And>x. m = Some x \<Longrightarrow> grows base (f x)) \<Longrightarrow> grows base (m \<bind> f)"
  by (cases m) (simp_all add: grows_panic)

lemma grows_put: "prefix base (tb_dst t) \<Longrightarrow> grows base (dst_call (\<lambda>w. Some (Inr n, w @ bs)) t)"
  by (simp add: grows_def dst_call_def)

lemma grows_flush: "prefix base (tb_dst t) \<Longrightarrow> grows base (dst_call (\<lambda>w. Some (Inr (), w)) t)"
  by (simp add: grows_def dst_call_def)

lemmas grows_intros = grows_panic grows_return grows_try grows_bind

lemma grows_write_block:
  "prefix base (tb_dst t) \<Longrightarrow> grows base (TableBuilder_write_block D (vec_write D) t block ctype)"
  unfolding TableBuilder_write_block_def Let_def
  by (auto simp: vec_write_def split: sum.split intro!: grows_intros grows_put)

lemma grows_write_data_block:
  "prefix base (tb_dst t) \<Longrightarrow> grows base (TableBuilder_write_data_block D (vec_write D) t key)"
  unfolding TableBuilder_write_data_block_def Let_def
  by (auto split: option.split intro!: grows_intros grows_write_block)

lemma grows_add:
  "prefix base (tb_dst t) \<Longrightarrow> grows base (TableBuilder_add D (vec_write D) t key val)"
  unfolding TableBuilder_add_def TableBuilder_add_entry_def Let_def
  by (auto intro!: grows_intros grows_write_data_block)

lemma grows_add_all:
  "prefix base (tb_dst t) \<Longrightarrow> grows base (TableBuilder_add_all D (vec_write D) t kvs)"
  by (induction kvs arbitrary: t) (auto intro!: grows_intros grows_add)

lemma grows_finish_filter:
  "prefix base (tb_dst t) \<Longrightarrow> grows base (TableBuilder_finish_filter D (vec_write D) t)"
  unfolding TableBuilder_finish_filter_def Let_def
  by (auto split: option.split intro!: grows_intros grows_write_block)

lemma grows_finish_footer:
  "prefix base (tb_dst t) \<Longrightarrow> grows base (TableBuilder_finish_footer D (vec_write D) t m i)"
  unfolding TableBuilder_finish_footer_def Let_def
  by (auto simp: vec_write_def intro!: grows_intros grows_put grows_flush)

lemma grows_finish:
  "prefix base (tb_dst t) \<Longrightarrow> grows base (TableBuilder_finish D (vec_write D) t)"
  unfolding TableBuilder_finish_def Let_def
  by (auto intro!: grows_intros grows_write_block grows_write_data_block grows_finish_filter grows_finish_footer)

text \<open>
  An operation \<open>m\<close> follows the same operation \<open>m'\<close> on a byte vector: it has the same result, or it
  fails and what it has written is a part of what \<open>m'\<close> writes.
\<close>

definition follows ::
  "('w \<Rightarrow> bytes) \<Rightarrow> bytes \<Rightarrow> ('w, 'a) tb_result \<Rightarrow> (bytes, 'a) tb_result \<Rightarrow> bool" where
  "follows out start m m' \<longleftrightarrow>
     (case m' of
        None \<Rightarrow> True
      | Some (r, t) \<Rightarrow>
          (\<exists>w. m = Some (r, rehome w t) \<and> out w = start @ tb_dst t) \<or>
          (\<exists>e s. m = Some (Inl e, s) \<and> prefix (out (tb_dst s)) (start @ tb_dst t)))"

lemma follows_panic: "follows out start m None"
  by (simp add: follows_def)

lemma follows_return: "out w = start @ tb_dst t \<Longrightarrow> follows out start (Some (r, rehome w t)) (Some (r, t))"
  by (auto simp: follows_def)

lemma follows_bind: "(\<And>x. m = Some x \<Longrightarrow> follows out start (f x) (f' x)) \<Longrightarrow> follows out start (m \<bind> f) (m \<bind> f')"
  by (cases m) (simp_all add: follows_panic)

lemma follows_try:
  assumes m: "follows out start m m'"
    and f: "\<And>x w t. out w = start @ tb_dst t \<Longrightarrow> follows out start (f x (rehome w t)) (f' x t)"
    and g: "\<And>x t. grows (tb_dst t) (f' x t)"
  shows "follows out start (tb_try m f) (tb_try m' f')"
proof (cases m')
  case (Some res)
  then obtain r t where t: "m' = Some (r, t)" by (cases res) auto
  with m consider (same) w where "m = Some (r, rehome w t)" "out w = start @ tb_dst t"
    | (fails) e s where "m = Some (Inl e, s)" "prefix (out (tb_dst s)) (start @ tb_dst t)"
    by (auto simp: follows_def)
  then show ?thesis
  proof cases
    case same
    with t f show ?thesis by (cases r) (auto intro: follows_return)
  next
    case fails
    have "prefix (out (tb_dst s)) (start @ tb_dst t2)" if "f' x t = Some (r2, t2)" for x r2 t2
      using fails(2) g [where x = x and t = t] that
      by (auto simp: grows_def intro: prefix_order.trans)
    with fails t show ?thesis
      by (cases r) (auto simp: follows_def split: option.split)
  qed
qed (simp add: follows_panic)

lemmas follows_intros = follows_panic follows_return follows_try follows_bind grows_intros

context honest_writer
begin

lemma follows_put:
  assumes "out w = start @ tb_dst t" "n = length bs"
  shows "follows out start (dst_call (\<lambda>w. write_fn W w bs) (rehome w t)) (dst_call (\<lambda>w. Some (Inr n, w @ bs)) t)"
  using write_honest [of w bs] assms
  by (auto simp: follows_def dst_call_def rehome_def take_is_prefix)

lemma follows_put_fixedint:
  assumes "out w = start @ tb_dst t"
  shows "follows out start (dst_call (\<lambda>w. write_fixedint W w v) (rehome w t))
    (dst_call (\<lambda>w. Some (Inr 4, w @ encode_fixed32 D v)) t)"
  using write_fixedint_honest [of w v] assms
  by (auto simp: follows_def dst_call_def rehome_def take_is_prefix)

lemma follows_flush:
  assumes "out w = start @ tb_dst t"
  shows "follows out start (dst_call (flush_fn W) (rehome w t)) (dst_call (\<lambda>w. Some (Inr (), w)) t)"
proof -
  obtain r w' where "flush_fn W w = Some (r, w')" "out w' = out w"
    using flush_honest by blast
  with assms show ?thesis by (cases r) (auto simp: follows_def dst_call_def rehome_def)
qed

lemma follows_write_block:
  assumes "out w = start @ tb_dst t"
  shows "follows out start (TableBuilder_write_block D W (rehome w t) block ctype)
    (TableBuilder_write_block D (vec_write D) t block ctype)"
  unfolding TableBuilder_write_block_def Let_def
  using assms
  by (auto simp: vec_write_def split: sum.split
      intro!: follows_intros follows_put follows_put_fixedint grows_put)

lemma follows_write_data_block:
  assumes "out w = start @ tb_dst t"
  shows "follows out start (TableBuilder_write_data_block D W (rehome w t) key)
    (TableBuilder_write_data_block D (vec_write D) t key)"
  unfolding TableBuilder_write_data_block_def Let_def
  using assms
  by (auto split: option.split intro!: follows_intros follows_write_block)

lemma follows_add:
  assumes "out w = start @ tb_dst t"
  shows "follows out start (TableBuilder_add D W (rehome w t) key val) (TableBuilder_add D (vec_write D) t key val)"
  unfolding TableBuilder_add_def TableBuilder_add_entry_def Let_def
  using assms
  by (auto intro!: follows_intros follows_write_data_block)

lemma follows_add_all:
  "out w = start @ tb_dst t \<Longrightarrow>
   follows out start (TableBuilder_add_all D W (rehome w t) kvs) (TableBuilder_add_all D (vec_write D) t kvs)"
  by (induction kvs arbitrary: w t) (auto intro!: follows_return follows_try follows_add grows_add_all)

lemma follows_finish_filter:
  assumes "out w = start @ tb_dst t"
  shows "follows out start (TableBuilder_finish_filter D W (rehome w t)) (TableBuilder_finish_filter D (vec_write D) t)"
  unfolding TableBuilder_finish_filter_def Let_def
  using assms
  by (auto split: option.split intro!: follows_intros follows_write_block)

lemma follows_finish_footer:
  assumes "out w = start @ tb_dst t"
  shows "follows out start (TableBuilder_finish_footer D W (rehome w t) m i)
    (TableBuilder_finish_footer D (vec_write D) t m i)"
  unfolding TableBuilder_finish_footer_def Let_def
  using assms
  by (auto simp: vec_write_def intro!: follows_intros follows_put follows_flush grows_flush)

lemma follows_finish:
  assumes "out w = start @ tb_dst t"
  shows "follows out start (TableBuilder_finish D W (rehome w t)) (TableBuilder_finish D (vec_write D) t)"
  unfolding TableBuilder_finish_def Let_def
  using assms
  by (auto intro!: follows_intros follows_write_block follows_write_data_block follows_finish_filter
      follows_finish_footer grows_write_block grows_finish_filter grows_finish_footer)

lemma follows_build:
  "follows out (out dst) (build_table D W opt dst kvs) (build_table D (vec_write D) opt [] kvs)"
  unfolding build_table_def rehome_new [of opt dst]
  by (intro follows_try follows_add_all follows_finish grows_finish prefix_order.refl)
    (simp_all add: TableBuilder_new_def)

lemma build_honest:
  assumes D: "third_party_laws D" and C: "short_comparator (opt_cmp opt)" and input: "table_input opt kvs"
  shows "\<exists>tbl r self. build_file D opt kvs = Some (Inr tbl) \<and> build_table D W opt dst kvs = Some (r, self) \<and>
    (case r of Inr n \<Rightarrow> n = length tbl \<and> out (tb_dst self) = out dst @ tbl
     | Inl e \<Rightarrow> prefix (out (tb_dst self)) (out dst @ tbl))"
proof -
  obtain s blocks where s: "build_table D (vec_write D) opt [] kvs = Some (Inr (length (tb_dst s)), s)"
    using table_env.build_table_file [OF vec_table_envI [OF D C] refl input, of "[]"] by auto
  then have "build_file D opt kvs = Some (Inr (tb_dst s))" by (simp add: build_file_def)
  moreover have "follows out (out dst) (build_table D W opt dst kvs) (Some (Inr (length (tb_dst s)), s))"
    using follows_build [of dst opt kvs] s by simp
  ultimately show ?thesis by (auto simp: follows_def)
qed

end

section \<open>Properties\<close>

text \<open>C7: A table written to a destination each of whose calls takes everything or fails after a prefix:
  the builder does not panic; if it reports success, the destination holds exactly the table that
  is built in memory, and the number returned is its length; if it reports an error, the
  destination holds a prefix of that table. So a failed build is never taken for a table.\<close>

theorem build_on_failing_destination:
  assumes "third_party_laws D" "short_comparator (opt_cmp opt)" "table_input opt kvs"
    and "honest_writer D W out"
  shows "\<exists>tbl r self. build_file D opt kvs = Some (Inr tbl) \<and> build_table D W opt dst kvs = Some (r, self) \<and>
    (case r of Inr n \<Rightarrow> n = length tbl \<and> out (tb_dst self) = out dst @ tbl
     | Inl e \<Rightarrow> prefix (out (tb_dst self)) (out dst @ tbl))"
  using assms(1-3) by (rule honest_writer.build_honest [OF assms(4)])

theorem build_on_failing_destination_witness:
  "\<exists>tbl r self. build_file reference_deps small_opt [([98], [1])] = Some (Inr tbl) \<and>
    build_table reference_deps (disk_write reference_deps 100) small_opt [7] [([98], [1])] = Some (r, self) \<and>
    (case r of Inr n \<Rightarrow> n = length tbl \<and> tb_dst self = [7] @ tbl | Inl e \<Rightarrow> prefix (tb_dst self) ([7] @ tbl))"
  using build_on_failing_destination [OF ref_deps.third_party_laws_axioms small_short sample_input_one
      disk.honest_writer_axioms, of 100 "[7]"] by simp

text \<open>A call that fails leaves the data block and, if it is a write of a data block, no data block.\<close>

lemma dst_call_data_block:
  "dst_call f self = Some (r, self') \<Longrightarrow> tb_data_block self' = tb_data_block self"
  by (cases "f (tb_dst self)") (auto simp: dst_call_def)

lemma tb_try_error:
  "tb_try m f = Some (Inl e, self') \<Longrightarrow>
   m = Some (Inl e, self') \<or> (\<exists>x self. m = Some (Inr x, self) \<and> f x self = Some (Inl e, self'))"
  by (auto simp: tb_try_def split: option.splits sum.splits)

lemma write_block_error_data_block:
  "TableBuilder_write_block D W self block ctype = Some (Inl e, self') \<Longrightarrow> tb_data_block self' = tb_data_block self"
  by (auto simp: TableBuilder_write_block_def Let_def bind_eq_Some_conv split: sum.splits
      dest!: tb_try_error dst_call_data_block)

lemma write_data_block_error:
  "TableBuilder_write_data_block D W self key = Some (Inl e, self') \<Longrightarrow> tb_data_block self' = None"
  by (auto simp: TableBuilder_write_data_block_def Let_def bind_eq_Some_conv split: option.splits
      dest!: tb_try_error write_block_error_data_block)

lemma add_error_no_data_block:
  "TableBuilder_add D W self key val = Some (Inl e, self') \<Longrightarrow> tb_data_block self' = None"
  by (auto simp: TableBuilder_add_def TableBuilder_add_entry_def Let_def bind_eq_Some_conv
      dest!: tb_try_error write_data_block_error split: if_splits)

text \<open>C37: After \<open>add\<close> returned an error the builder cannot be used: the next \<open>add\<close> or \<open>finish\<close>, even on
  a destination that works again, panics, because the failed write took the data block out of the
  builder and did not put a new one in.\<close>

theorem failed_builder_is_unusable:
  assumes "TableBuilder_add D W self key val = Some (Inl e, self')"
  shows "TableBuilder_add D W' self' key' val' = None \<and> TableBuilder_finish D W' self' = None"
  using add_error_no_data_block [OF assms] by (simp add: TableBuilder_add_def TableBuilder_finish_def)

text \<open>A destination on which every call fails.\<close>

definition broken_write :: "'w Write" where
  "broken_write =
     \<lparr>write_fn = (\<lambda>w _. Some (Inl storage_full, w)), write_fixedint = (\<lambda>w _. Some (Inl storage_full, w)),
      flush_fn = (\<lambda>w. Some (Inl storage_full, w))\<rparr>"

lemma broken_write_block:
  "\<exists>e. TableBuilder_write_block D broken_write self block ctype = Some (Inl e, self)"
  by (cases "pack D ctype block")
    (simp_all add: TableBuilder_write_block_def dst_call_def broken_write_def Let_def)

theorem failed_builder_is_unusable_witness:
  "\<exists>s1 e s2. TableBuilder_add reference_deps (vec_write reference_deps) (TableBuilder_new small_opt []) [98] [1] =
      Some (Inr (), s1) \<and>
    TableBuilder_add reference_deps broken_write s1 [99] [2] = Some (Inl e, s2) \<and>
    TableBuilder_finish reference_deps (vec_write reference_deps) s2 = None"
proof -
  let ?D = reference_deps
  obtain s1 where s1: "TableBuilder_add ?D (vec_write ?D) (TableBuilder_new small_opt []) [98] [1] = Some (Inr (), s1)"
    "builder_ok ?D small_opt s1 [([98], [1])]"
    using builder_ok_add [OF ref_deps.third_party_laws_axioms small_short builder_ok_new, of "[98]" "[1]"]
      sample_input_one by auto
  have inv: "tb_inv ?D small_opt (\<lambda>w. w) s1 [] [([98], [1])]" by (rule builder_ok_one [OF s1(2)])
  then obtain db where db: "tb_data_block s1 = Some db" "builder_holds ?D small_opt (Some db) [([98], [1])]"
    by (rule tb_invE)
  have full: "8 < BlockBuilder_size_estimate db"
    using builder_holds_size [OF ref_deps.integer_codec_axioms db(2)] by simp
  have last: "BlockBuilder_last_key db = [98]" using builder_holds_last_key [OF db(2)] by simp
  have sep: "find_shortest_sep DefaultCmp [98] [99] = Some [98, 0]"
    by (simp add: DefaultCmp_def) code_simp
  have "tb_opt s1 = small_opt" "tb_prev_block_last_key s1 = []" using inv by (simp_all add: tb_inv_def)
  then obtain e s2 where "TableBuilder_add ?D broken_write s1 [99] [2] = Some (Inl e, s2)"
    using db(1) full sep last
      broken_write_block [of ?D "s1\<lparr>tb_data_block := None, tb_prev_block_last_key := [98]\<rparr>"
        "BlockBuilder_finish ?D db" "compression_type small_opt"]
    by (auto simp: TableBuilder_add_def TableBuilder_write_data_block_def Let_def)
  moreover from failed_builder_is_unusable [OF this]
  have "TableBuilder_finish ?D (vec_write ?D) s2 = None" by blast
  ultimately show ?thesis using s1(1) by blast
qed

section \<open>Short writes\<close>

text \<open>
  The documented contract of \<open>write\<close> allows it to take only some of the bytes and to return how many.
  This destination takes one byte of each call. Then \<open>write_block\<close> returns the handle of a block of
  which the destination holds three bytes.
\<close>

definition one_byte_write :: "deps \<Rightarrow> bytes Write" where
  "one_byte_write D =
     \<lparr>write_fn = (\<lambda>w bs. Some (Inr (min 1 (length bs)), w @ take 1 bs)),
      write_fixedint = (\<lambda>w v. Some (Inr 1, w @ take 1 (encode_fixed32 D v))),
      flush_fn = (\<lambda>w. Some (Inr (), w))\<rparr>"

lemma short_write_unnoticed:
  assumes "integer_codec D" "block \<noteq> []" "length block + 5 < 2 ^ 64"
  shows "\<exists>self'. TableBuilder_write_block D (one_byte_write D) (TableBuilder_new opt []) block CompressionNone =
      Some (Inr (BlockHandle_new 0 (length block)), self') \<and>
    tb_offset self' = length block + 5 \<and> length (tb_dst self') = 3"
  using assms(2,3) integer_codec.length_encode_fixed32 [OF assms(1)]
  by (cases block)
    (auto simp: TableBuilder_write_block_def dst_call_def one_byte_write_def pack_def Let_def run_simps
      TABLE_BLOCK_COMPRESS_LEN_def TABLE_BLOCK_CKSUM_LEN_def TableBuilder_new_def)

end
