(* ===== verification/SST_TestUtil.thy ===== *)
theory SST_TestUtil
  imports SST_TableThms SST_BlockProps
begin

text \<open>
  \<open>src/test_util.rs\<close>: an iterator over a vector, and the test that every iterator with four
  entries should pass. The test is proved of the locale \<open>stored_seek_iterator\<close>, and so of all
  block iterators and, inside the bounds of their \<open>seek\<close>, of all table iterators. The iterator
  over a vector passes it too, but does not meet the contract of the trait.
\<close>

section \<open>The iterator over a vector\<close>

record TestSSIter =
  ts_v :: "(bytes \<times> bytes) list"
  ts_ix :: usize
  ts_init :: bool

definition TestSSIter_new :: "(bytes \<times> bytes) list \<Rightarrow> TestSSIter" where
  "TestSSIter_new c = \<lparr>ts_v = c, ts_ix = 0, ts_init = False\<rparr>"

definition TestSSIter_advance :: "TestSSIter \<Rightarrow> (bool \<times> TestSSIter) run" where
  "TestSSIter_advance self =
     do {
       n \<leftarrow> usize_sub (length (ts_v self)) 1;
       if ts_ix self = n then do { ix \<leftarrow> usize_add (ts_ix self) 1; Some (False, self\<lparr>ts_ix := ix\<rparr>) }
       else if \<not> ts_init self then Some (True, self\<lparr>ts_init := True\<rparr>)
       else do { ix \<leftarrow> usize_add (ts_ix self) 1; Some (True, self\<lparr>ts_ix := ix\<rparr>) }
     }"

definition TestSSIter_reset :: "TestSSIter \<Rightarrow> TestSSIter" where
  "TestSSIter_reset self = self\<lparr>ts_ix := 0, ts_init := False\<rparr>"

definition TestSSIter_valid :: "TestSSIter \<Rightarrow> bool" where
  "TestSSIter_valid self \<longleftrightarrow> ts_init self \<and> ts_ix self < length (ts_v self)"

definition TestSSIter_current :: "TestSSIter \<Rightarrow> bytes \<Rightarrow> bytes \<Rightarrow> (bool \<times> bytes \<times> bytes) run" where
  "TestSSIter_current self key val =
     (if ts_init self \<and> ts_ix self < length (ts_v self) then
        do { (k, v) \<leftarrow> vec_index (ts_v self) (ts_ix self); Some (True, k, v) }
      else Some (False, key, val))"

definition TestSSIter_current_key :: "TestSSIter \<Rightarrow> bytes option" where
  "TestSSIter_current_key self =
     (if ts_init self \<and> ts_ix self < length (ts_v self) then Some (fst (ts_v self ! ts_ix self)) else None)"

function test_seek_loop :: "bytes \<Rightarrow> TestSSIter \<Rightarrow> TestSSIter" where
  "test_seek_loop k self =
     (if ts_ix self < length (ts_v self) \<and> cmp DefaultCmp (fst (ts_v self ! ts_ix self)) k = Less
      then test_seek_loop k (self\<lparr>ts_ix := ts_ix self + 1\<rparr>) else self)"
  by pat_completeness auto
termination by (relation "measure (\<lambda>(k, self). length (ts_v self) - ts_ix self)") auto

declare test_seek_loop.simps [simp del]

definition TestSSIter_seek :: "TestSSIter \<Rightarrow> bytes \<Rightarrow> TestSSIter run" where
  "TestSSIter_seek self k = Some (test_seek_loop k (self\<lparr>ts_ix := 0, ts_init := True\<rparr>))"

definition TestSSIter_prev :: "TestSSIter \<Rightarrow> (bool \<times> TestSSIter) run" where
  "TestSSIter_prev self =
     (if \<not> ts_init self \<or> ts_ix self = 0 then Some (False, self\<lparr>ts_init := False\<rparr>)
      else do { ix \<leftarrow> usize_sub (ts_ix self) 1; Some (True, self\<lparr>ts_ix := ix\<rparr>) })"

section \<open>The shared test\<close>

definition SSIteratorIter_next :: "'it SSIterator \<Rightarrow> 'it \<Rightarrow> ((bytes \<times> bytes) option \<times> 'it) run" where
  "SSIteratorIter_next T inner = SSIterator_next (it_advance T) (it_current T) inner"

text \<open>
  The steps the test repeats: \<open>assert!(it.advance())\<close>; reading the current entry and comparing its
  key with \<open>current_key\<close>, where both are unwrapped; and \<open>assert_eq!(x, current_key_val(&it))\<close>.
\<close>

definition must_advance :: "'it SSIterator \<Rightarrow> 'it \<Rightarrow> 'it run" where
  "must_advance T it = do { (b, it) \<leftarrow> it_advance T it; rassert b; Some it }"

definition entry_with_key :: "'it SSIterator \<Rightarrow> 'it \<Rightarrow> (bytes \<times> bytes) option run" where
  "entry_with_key T it =
     do {
       e \<leftarrow> current_key_val (it_current T) it;
       (k, _) \<leftarrow> e;
       k' \<leftarrow> it_current_key T it;
       rassert (k = k');
       Some e
     }"

definition assert_current :: "'it SSIterator \<Rightarrow> (bytes \<times> bytes) option \<Rightarrow> 'it \<Rightarrow> unit run" where
  "assert_current T x it = do { e \<leftarrow> current_key_val (it_current T) it; rassert (x = e) }"

definition test_iterator_properties :: "'it SSIterator \<Rightarrow> 'it \<Rightarrow> unit run" where
  "test_iterator_properties T it =
     do {
       rassert (\<not> it_valid T it);
       it \<leftarrow> must_advance T it;
       rassert (it_valid T it);
       first \<leftarrow> entry_with_key T it;
       it \<leftarrow> must_advance T it;
       second \<leftarrow> entry_with_key T it;
       it \<leftarrow> must_advance T it;
       third \<leftarrow> entry_with_key T it;
       it \<leftarrow> must_advance T it;
       rassert (it_valid T it);
       fourth \<leftarrow> entry_with_key T it;
       (b, it) \<leftarrow> it_advance T it;
       rassert (\<not> b);
       rassert (\<not> it_valid T it);
       let it = it_reset T it;
       (k4, _) \<leftarrow> fourth;
       it \<leftarrow> it_seek T it k4;
       rassert (it_valid T it);
       (k2, _) \<leftarrow> second;
       it \<leftarrow> it_seek T it k2;
       rassert (it_valid T it);
       (_, it) \<leftarrow> it_prev T it;
       assert_current T first it;
       let it = it_reset T it;
       rassert (\<not> it_valid T it);
       it \<leftarrow> must_advance T it;
       assert_current T first it;
       it \<leftarrow> must_advance T it;
       assert_current T second it;
       it \<leftarrow> must_advance T it;
       assert_current T third it;
       (b, it) \<leftarrow> it_prev T it;
       rassert b;
       assert_current T second it;
       (b, it) \<leftarrow> it_prev T it;
       rassert b;
       assert_current T first it;
       (b, it) \<leftarrow> it_prev T it;
       rassert (\<not> b);
       rassert (\<not> it_valid T it)
     }"

section \<open>The test passes on every iterator of the contract\<close>

context stored_seek_iterator
begin

abbreviation methods :: "'it SSIterator" where
  "methods \<equiv> \<lparr>it_advance = advance, it_current = current, it_current_key = current_key,
     it_seek = seek, it_reset = reset, it_valid = valid, it_prev = prev\<rparr>"

lemma must_advance_at:
  assumes "at_pos es p it" "next_pos p < length es"
  shows "\<exists>it'. must_advance methods it = Some it' \<and> at_pos es (Some (next_pos p)) it'"
  using advance_inside [OF assms] by (auto simp: must_advance_def)

lemma entry_with_key_at: "at_pos es (Some i) it \<Longrightarrow> entry_with_key methods it = Some (Some (es ! i))"
  by (auto simp: entry_with_key_def current_key_val_at current_key_at split: prod.split)

lemma assert_current_at: "at_pos es (Some i) it \<Longrightarrow> assert_current methods (Some (es ! i)) it = Some ()"
  by (simp add: assert_current_def current_key_val_at)

lemma valid_at: "at_pos es (Some i) it \<Longrightarrow> valid it"
  using valid_iff by blast

lemma invalid_at: "at_pos es None it \<Longrightarrow> \<not> valid it"
  using valid_iff by blast

lemma passes_test:
  assumes start: "at_pos es None it" and len: "length es = 4"
  shows "test_iterator_properties methods it = Some ()"
proof -
  obtain a1 where a1: "must_advance methods it = Some a1" "at_pos es (Some 0) a1"
    using must_advance_at [OF start] len by auto
  obtain a2 where a2: "must_advance methods a1 = Some a2" "at_pos es (Some 1) a2"
    using must_advance_at [OF a1(2)] len by auto
  obtain a3 where a3: "must_advance methods a2 = Some a3" "at_pos es (Some 2) a3"
    using must_advance_at [OF a2(2)] len by (auto simp: numeral_2_eq_2)
  obtain a4 where a4: "must_advance methods a3 = Some a4" "at_pos es (Some 3) a4"
    using must_advance_at [OF a3(2)] len by (auto simp: numeral_3_eq_3 numeral_2_eq_2)
  obtain a5 where a5: "advance a4 = Some (False, a5)" "at_pos es None a5"
    using advance_end [OF a4(2)] len by auto
  obtain s4 where s4: "seek (reset a5) (fst (es ! 3)) = Some s4" "at_pos es (Some 3) s4"
    using seek_stored [OF at_reset [OF a5(2)], of 3] len by auto
  obtain s2 where s2: "seek s4 (fst (es ! 1)) = Some s2" "at_pos es (Some 1) s2"
    using seek_stored [OF s4(2), of 1] len by auto
  obtain p1 where p1: "prev s2 = Some (True, p1)" "at_pos es (Some 0) p1"
    using prev_to [of es 0 s2] s2(2) by auto
  obtain b1 where b1: "must_advance methods (reset p1) = Some b1" "at_pos es (Some 0) b1"
    using must_advance_at [OF at_reset [OF p1(2)]] len by auto
  obtain b2 where b2: "must_advance methods b1 = Some b2" "at_pos es (Some 1) b2"
    using must_advance_at [OF b1(2)] len by auto
  obtain b3 where b3: "must_advance methods b2 = Some b3" "at_pos es (Some 2) b3"
    using must_advance_at [OF b2(2)] len by (auto simp: numeral_2_eq_2)
  obtain c2 where c2: "prev b3 = Some (True, c2)" "at_pos es (Some 1) c2"
    using prev_to [of es 1 b3] b3(2) by (auto simp: numeral_2_eq_2)
  obtain c1 where c1: "prev c2 = Some (True, c1)" "at_pos es (Some 0) c1"
    using prev_to [of es 0 c2] c2(2) by auto
  obtain c0 where c0: "prev c1 = Some (False, c0)" "\<not> valid c0"
    using prev_out [OF c1(2)] by auto
  note steps = a1(1) a2(1) a3(1) a4(1) a5(1) s4(1) s2(1) p1(1) b1(1) b2(1) b3(1) c2(1) c1(1) c0
  note at = start a1(2) a2(2) a3(2) a4(2) a5(2) at_reset [OF a5(2)] s4(2) s2(2) p1(2)
    at_reset [OF p1(2)] b1(2) b2(2) b3(2) c2(2) c1(2)
  have entries: "entry_with_key methods a1 = Some (Some (es ! 0))" "entry_with_key methods a2 = Some (Some (es ! 1))"
    "entry_with_key methods a3 = Some (Some (es ! 2))" "entry_with_key methods a4 = Some (Some (es ! 3))"
    using at by (simp_all only: entry_with_key_at)
  have valids: "valid a1" "valid a4" "valid s4" "valid s2" "\<not> valid it" "\<not> valid a5" "\<not> valid (reset p1)"
    using at valid_at invalid_at by blast+
  have currents: "assert_current methods (Some (es ! 0)) p1 = Some ()" "assert_current methods (Some (es ! 0)) b1 = Some ()"
    "assert_current methods (Some (es ! 1)) b2 = Some ()" "assert_current methods (Some (es ! 2)) b3 = Some ()"
    "assert_current methods (Some (es ! 1)) c2 = Some ()" "assert_current methods (Some (es ! 0)) c1 = Some ()"
    using at by (simp_all only: assert_current_at)
  show ?thesis
    by (simp add: test_iterator_properties_def steps entries valids currents case_prod_beta del: One_nat_def)
qed

end

section \<open>The iterators of the crate\<close>

definition BlockIter_methods :: "deps \<Rightarrow> BlockIter SSIterator" where
  "BlockIter_methods D =
     \<lparr>it_advance = BlockIter_advance D, it_current = BlockIter_current, it_current_key = BlockIter_current_key,
      it_seek = BlockIter_seek D, it_reset = BlockIter_reset, it_valid = BlockIter_valid,
      it_prev = BlockIter_prev D\<rparr>"

definition TableIterator_methods :: "deps \<Rightarrow> table_iter SSIterator" where
  "TableIterator_methods D =
     \<lparr>it_advance = TableIterator_advance D, it_current = TableIterator_current,
      it_current_key = TableIterator_current_key, it_seek = TableIterator_seek D,
      it_reset = TableIterator_reset, it_valid = TableIterator_valid, it_prev = TableIterator_prev D\<rparr>"

definition TestSSIter_methods :: "TestSSIter SSIterator" where
  "TestSSIter_methods =
     \<lparr>it_advance = TestSSIter_advance, it_current = TestSSIter_current,
      it_current_key = TestSSIter_current_key, it_seek = TestSSIter_seek,
      it_reset = TestSSIter_reset, it_valid = TestSSIter_valid, it_prev = TestSSIter_prev\<rparr>"

lemma block_passes_shared_test:
  assumes "integer_codec D" "comparator (opt_cmp opt)" "block_input opt kvs" "length kvs = 4"
  shows "\<exists>it. block_open D opt kvs = Some it \<and> test_iterator_properties (BlockIter_methods D) it = Some ()"
  using block_open_at [OF assms(1-3)] block_seeks.passes_test assms(4)
  unfolding BlockIter_methods_def by blast

text \<open>The shared test of the iterators passes on the iterator of every opened table with four entries,
  with the default comparator and when no key is another one followed by a zero byte.\<close>

lemma table_passes_shared_test:
  assumes "third_party_laws D" "opt_cmp opt = DefaultCmp" "table_fits opt kvs" "\<not> zero_extended kvs"
    and "0 < cap" "cap < 2 ^ 64" "length kvs = 4"
  shows "\<exists>t c it. open_new D opt cap kvs = Some (Inr t, c) \<and> Table_iter D t = Some it \<and>
    test_iterator_properties (TableIterator_methods D) (it, c) = Some ()"
proof -
  have C: "short_comparator (opt_cmp opt)" using assms(2) default_cmp.short_comparator_axioms by simp
  obtain t c blocks where t: "open_new D opt cap kvs = Some (Inr t, c)" "opened_with D opt cap kvs blocks t c"
    using open_new_opened [OF assms(1) C assms(3,5,6)] by blast
  obtain it where it: "Table_iter D t = Some it"
    "table_at D DefaultCmp cap 1 {(t, blocks)} blocks kvs None (it, c)"
    using opened_iter [OF assms(1) C t(2)] assms(2) by auto
  have "test_iterator_properties (TableIterator_methods D) (it, c) = Some ()"
    unfolding TableIterator_methods_def
    by (rule table_seeks.passes_test [OF conjI [OF it(2) assms(4)] assms(7)])
  with t(1) it(1) show ?thesis by blast
qed

definition four_kvs :: "(bytes \<times> bytes) list" where
  "four_kvs = [([97], [1]), ([98], [2]), ([99], [3]), ([100], [4])]"

lemma four_fits: "table_fits small_opt four_kvs"
  by (rule small_fits)
    (simp_all add: four_kvs_def ascending_def DefaultCmp_def entry_weight_def)

section \<open>Runs of the iterator over a vector\<close>

lemma test_seek_loop_at:
  assumes "ascending DefaultCmp (map fst v)" "i < length v" "j \<le> i"
  shows "test_seek_loop (fst (v ! i)) \<lparr>ts_v = v, ts_ix = j, ts_init = True\<rparr> =
    \<lparr>ts_v = v, ts_ix = i, ts_init = True\<rparr>"
  using assms(3)
proof (induction "i - j" arbitrary: j)
  case 0
  then show ?case by (simp add: test_seek_loop.simps default_cmp.cmp_less_irrefl)
next
  case (Suc n)
  then have less: "j < i" by simp
  then have "cmp DefaultCmp (fst (v ! j)) (fst (v ! i)) = Less"
    using assms(1,2) sorted_wrt_nth_less [of _ "map fst v" j i] by (simp add: ascending_def)
  moreover have "n = i - Suc j" "Suc j \<le> i" using Suc.hyps(2) less by simp_all
  ultimately show ?case
    using Suc.hyps(1) [of "Suc j"] assms(2) less by (subst test_seek_loop.simps) simp
qed

lemmas test_iter_defs = TestSSIter_advance_def TestSSIter_prev_def TestSSIter_seek_def TestSSIter_reset_def
  TestSSIter_valid_def TestSSIter_current_def TestSSIter_current_key_def TestSSIter_methods_def

lemma four_entries:
  assumes "length v = 4"
  obtains a b c d where "v = [a, b, c, d]"
  using assms that by (auto simp: numeral_eq_Suc length_Suc_conv)

lemma test_iter_passes:
  assumes len: "length v = 4" and asc: "ascending DefaultCmp (map fst v)"
  shows "test_iterator_properties TestSSIter_methods (TestSSIter_new v) = Some ()"
proof -
  obtain a b c d where v: "v = [a, b, c, d]" by (rule four_entries [OF len])
  note seek = test_seek_loop_at [OF asc, unfolded v]
  have seeks: "test_seek_loop (fst b) \<lparr>ts_v = [a, b, c, d], ts_ix = 0, ts_init = True\<rparr> =
      \<lparr>ts_v = [a, b, c, d], ts_ix = 1, ts_init = True\<rparr>"
    "test_seek_loop (fst d) \<lparr>ts_v = [a, b, c, d], ts_ix = 0, ts_init = True\<rparr> =
      \<lparr>ts_v = [a, b, c, d], ts_ix = 3, ts_init = True\<rparr>"
    using seek [of 1 0] seek [of 3 0] by (simp_all add: numeral_3_eq_3)
  show ?thesis
    by (simp add: test_iterator_properties_def must_advance_def entry_with_key_def assert_current_def
        current_key_val_def test_iter_defs v TestSSIter_new_def run_simps seeks case_prod_beta)
qed

lemma test_iter_drain:
  assumes "length v = 4"
  shows "drain TestSSIter_advance TestSSIter_current (TestSSIter_new v) =
    Some (v, \<lparr>ts_v = v, ts_ix = 4, ts_init = True\<rparr>)"
  by (rule four_entries [OF assms])
    (simp add: drain.simps [of TestSSIter_advance] SSIterator_next_def test_iter_defs TestSSIter_new_def
      run_simps case_prod_beta)

lemma test_iter_single:
  "drain TestSSIter_advance TestSSIter_current (TestSSIter_new [e]) =
    Some ([], \<lparr>ts_v = [e], ts_ix = 1, ts_init = False\<rparr>)"
  by (subst drain.simps) (simp add: SSIterator_next_def test_iter_defs TestSSIter_new_def run_simps)

lemma test_iter_past_end:
  "length v = 4 \<Longrightarrow> TestSSIter_advance \<lparr>ts_v = v, ts_ix = 4, ts_init = True\<rparr> =
    Some (True, \<lparr>ts_v = v, ts_ix = 5, ts_init = True\<rparr>)"
  by (simp add: TestSSIter_advance_def run_simps)

lemma test_iter_empty: "TestSSIter_advance (TestSSIter_new []) = None"
  by (simp add: TestSSIter_advance_def TestSSIter_new_def usize_sub_def)

text \<open>The iterator over a vector passes the shared test for any four ascending entries, and yet it does
  not do what the trait documents: after the end, where it is not valid, \<open>advance\<close> succeeds
  without coming to an entry; a vector with one entry yields nothing, and an empty one panics.\<close>

lemma test_iterator_deviates:
  assumes "length v = 4" "ascending DefaultCmp (map fst v)"
  shows "test_iterator_properties TestSSIter_methods (TestSSIter_new v) = Some () \<and>
    (\<exists>it it'. drain TestSSIter_advance TestSSIter_current (TestSSIter_new v) = Some (v, it) \<and>
      \<not> TestSSIter_valid it \<and> TestSSIter_advance it = Some (True, it') \<and> \<not> TestSSIter_valid it') \<and>
    (\<exists>it. drain TestSSIter_advance TestSSIter_current (TestSSIter_new [e]) = Some ([], it)) \<and>
    TestSSIter_advance (TestSSIter_new []) = None"
  using test_iter_passes [OF assms] test_iter_drain [OF assms(1)] assms(1)
  by (simp add: test_iter_single test_iter_past_end test_iter_empty TestSSIter_valid_def)

end
