(* ===== verification/SST_UnitTests.thy ===== *)
theory SST_UnitTests
  imports SST_TestUtil
begin

text \<open>
  The unit tests of the crate, as runs of the model: a test passes if its run does not panic, and a
  test that should panic if it does. The encodings and hashes that the tests expect as literal
  bytes are compared on the reference instance of the third-party functions.
\<close>

section \<open>Assertions\<close>

named_theorems test_eval "definitions to be unfolded when a test is run"

abbreviation assert_eq :: "'a \<Rightarrow> 'a \<Rightarrow> unit run" where
  "assert_eq a b \<equiv> rassert (a = b)"

definition should_panic :: "'a run \<Rightarrow> unit run" where
  "should_panic m = (case m of None \<Rightarrow> Some () | Some _ \<Rightarrow> None)"

text \<open>Congruence rules that evaluate the first part of a sequence before the rest is looked at.\<close>

lemma run_cong: "m = m' \<Longrightarrow> (m \<bind> f) = (m' \<bind> f)" for m :: "'a run"
  by simp

lemma try_cong: "m = m' \<Longrightarrow> try_bind m f = try_bind m' f"
  by simp

lemmas eval_cong = run_cong try_cong let_weak_cong

lemmas [test_eval] = rassert_def as_bytes_def should_panic_def Let_def numeral_2_eq_2 [symmetric]

text \<open>The reference instance, not to be unfolded as a whole.\<close>

lemma reference_simps [test_eval]:
  "encode_var reference_deps = leb_encode" "decode_var reference_deps = ref_decode_var"
  "required_space reference_deps = (\<lambda>n. length (leb_encode n))"
  "encode_fixed32 reference_deps = le32_encode" "decode_fixed32 reference_deps = le32_decode"
  "encode_fixed64 reference_deps = le64_encode" "crc32_iscsi reference_deps = crc32c"
  "snap_compress reference_deps = ref_compress" "snap_decompress reference_deps = ref_decompress"
  by (simp_all add: reference_deps_def)

text \<open>
  The loop of several tests, \<open>for (k, v) in SSIteratorIter::wrap(&mut it)\<close>, whose body compares the
  entry with \<open>data[i]\<close> and increments \<open>i\<close>.
\<close>

partial_function (option) check_entries ::
  "'it SSIterator \<Rightarrow> (bytes \<times> bytes) list \<Rightarrow> usize \<Rightarrow> 'it \<Rightarrow> (usize \<times> 'it) run" where
  "check_entries T data i it =
     do {
       (r, it) \<leftarrow> SSIteratorIter_next T it;
       case r of
         None \<Rightarrow> Some (i, it)
       | Some (k, v) \<Rightarrow>
           do {
             d \<leftarrow> vec_index data i;
             rassert (k = fst d);
             rassert (v = snd d);
             check_entries T data (i + 1) it
           }
     }"

declare check_entries.simps [code]

context stored_seek_iterator
begin

lemma check_entries_at:
  "at_pos es p it \<Longrightarrow> \<exists>it'. check_entries methods es (next_pos p) it = Some (length es, it') \<and> at_pos es None it'"
proof (induction "length es - next_pos p" arbitrary: p it)
  case 0
  moreover have "next_pos p \<le> length es" using at_bounds 0(2) by (cases p) (auto simp: Suc_le_eq)
  ultimately show ?case
    using next_end [OF 0(2)]
    by (auto simp: check_entries.simps [of methods] SSIteratorIter_next_def)
next
  case (Suc n)
  then have less: "next_pos p < length es" by simp
  from next_inside [OF Suc.prems this] obtain it1 where
    it1: "SSIterator_next advance current it = Some (Some (es ! next_pos p), it1)"
      "at_pos es (Some (next_pos p)) it1" by blast
  have "n = length es - next_pos (Some (next_pos p))" using Suc.hyps(2) by simp
  from Suc.hyps(1) [OF this it1(2)] show ?case
    using it1(1) less
    by (auto simp: check_entries.simps [of methods _ _ it] SSIteratorIter_next_def vec_index_def rassert_def
        case_prod_beta)
qed

end

section \<open>Comparators\<close>

definition assert_sep :: "string \<Rightarrow> string \<Rightarrow> bytes \<Rightarrow> unit run" where
  "assert_sep a b want =
     do { s \<leftarrow> find_shortest_sep DefaultCmp (as_bytes a) (as_bytes b); assert_eq s want }"

definition test_cmp_defaultcmp_shortest_sep :: "unit run" where
  "test_cmp_defaultcmp_shortest_sep =
     do {
       assert_sep ''abcd'' ''abcf'' (as_bytes ''abce'');
       assert_sep ''abc'' ''acd'' (as_bytes ''abc'' @ [0]);
       assert_sep ''abcdefghi'' ''abcffghi'' (as_bytes ''abce'');
       assert_sep ''a'' ''a'' (as_bytes ''a'');
       assert_sep ''a'' ''b'' (as_bytes ''a'' @ [0]);
       assert_sep ''abc'' ''zzz'' (as_bytes ''b'');
       assert_sep ''yyy'' ''z'' (as_bytes ''yyy'' @ [0]);
       assert_sep '''' '''' (as_bytes '''')
     }"

definition test_cmp_defaultcmp_short_succ :: "unit run" where
  "test_cmp_defaultcmp_short_succ =
     do {
       assert_eq (find_short_succ DefaultCmp (as_bytes ''abcd'')) (as_bytes ''b'');
       assert_eq (find_short_succ DefaultCmp (as_bytes ''zzzz'')) (as_bytes ''{'');
       assert_eq (find_short_succ DefaultCmp []) [0xff];
       assert_eq (find_short_succ DefaultCmp [0xff, 0xff, 0xff]) [0xff, 0xff, 0xff, 0xff]
     }"

lemma shortest_sep_test: "test_cmp_defaultcmp_shortest_sep = Some ()"
  by (simp add: test_cmp_defaultcmp_shortest_sep_def assert_sep_def DefaultCmp_def
      DefaultCmp_find_shortest_sep_def sep_common.simps sep_scan.simps test_eval)

lemma short_succ_test: "test_cmp_defaultcmp_short_succ = Some ()"
  by (simp add: test_cmp_defaultcmp_short_succ_def DefaultCmp_def DefaultCmp_find_short_succ_def
      succ_from.simps vec_resize_def test_eval)

section \<open>Bloom filters\<close>

definition BITS_PER_KEY :: u32 where "BITS_PER_KEY = 12"

definition input_data :: "bytes \<times> usize list" where
  "input_data =
     fold (\<lambda>d (c, offs). (c @ d, offs @ [length c]))
       (map as_bytes [''abc123def456'', ''xxx111xxx222'', ''ab00cd00ab'', ''908070605040302010''])
       ([], [])"

text \<open>Creating the filter checks its bytes.\<close>

definition test_create_filter :: "deps \<Rightarrow> bytes run" where
  "test_create_filter D =
     (let fpol = BloomPolicy_new D BITS_PER_KEY; (data, offs) = input_data
      in do {
        flt \<leftarrow> create_filter fpol data offs;
        assert_eq flt [194, 148, 129, 140, 192, 196, 132, 164, 8];
        Some flt
      })"

definition test_filter_bloom :: "deps \<Rightarrow> unit run" where
  "test_filter_bloom D =
     do {
       f \<leftarrow> test_create_filter D;
       let fp = BloomPolicy_new D BITS_PER_KEY;
       let (data, offs) = input_data;
       offset_data_iterate data offs
         (\<lambda>key _. do { m \<leftarrow> key_may_match fp key f; rassert m }) ()
     }"

definition test_filter_bloom_hash :: "deps \<Rightarrow> unit run" where
  "test_filter_bloom_hash D =
     do {
       h1 \<leftarrow> bloom_hash D [0x62];
       assert_eq h1 0xef1345c4;
       h2 \<leftarrow> bloom_hash D [0xc3, 0x97];
       assert_eq h2 0x5b663814;
       h3 \<leftarrow> bloom_hash D [0xe2, 0x99, 0xa5];
       assert_eq h3 0x323c078f;
       h4 \<leftarrow> bloom_hash D [0xe1, 0x80, 0xb9, 0x32];
       assert_eq h4 0xed21633a
     }"

lemmas bloom_eval = BloomPolicy_new_def BloomPolicy_create_filter_def BloomPolicy_key_may_match_def
  BloomPolicy_new_unwrapped_def f32_mul_069_as_u32_def f32_round_def f32_shift.simps bloom_hash_def
  bloom_words.simps bloom_m_def BLOOM_SEED_def bloom_delta_def u32_rem_def

lemma bloom_hash_test: "test_filter_bloom_hash reference_deps = Some ()"
  by (simp add: test_filter_bloom_hash_def bloom_hash_def bloom_words.simps bloom_m_def BLOOM_SEED_def
      reference_deps_def le32_decode_def test_eval)

text \<open>The evaluation of a filter: the hashes of the keys first, then the bits.\<close>

lemma input_data_eq:
  "input_data = (map of_char ''abc123def456xxx111xxx222ab00cd00ab908070605040302010'', [0, 12, 24, 34])"
  by (simp add: input_data_def as_bytes_def)

lemma bits_12: "BloomPolicy_new_unwrapped BITS_PER_KEY = \<lparr>bits_per_key = 12, bloom_k = 8\<rparr>"
  by (simp add: BITS_PER_KEY_def BloomPolicy_new_unwrapped_def f32_mul_069_as_u32_def f32_round_def f32_shift.simps)

lemmas hash_eval = bloom_hash_def bloom_words.simps bloom_m_def BLOOM_SEED_def reference_deps_def
  le32_decode_def

lemma input_hashes:
  "bloom_hash reference_deps (map of_char ''abc123def456'') = Some 337654826"
  "bloom_hash reference_deps (map of_char ''xxx111xxx222'') = Some 3848446747"
  "bloom_hash reference_deps (map of_char ''ab00cd00ab'') = Some 801152070"
  "bloom_hash reference_deps (map of_char ''908070605040302010'') = Some 1941001647"
  by (simp_all add: hash_eval test_eval)

lemma bloom_set_bits_numeral:
  "bloom_set_bits (numeral n) bits h delta flt =
     do {
       r \<leftarrow> u32_rem h bits;
       let bitpos = u32_as_usize r;
       b \<leftarrow> vec_index flt (bitpos div 8);
       let flt' = flt[bitpos div 8 := b OR push_bit (bitpos mod 8) 1];
       bloom_set_bits (pred_numeral n) bits (h + delta) delta flt'
     }"
  by (subst numeral_eq_Suc) (rule bloom_set_bits.simps(2))

lemma bloom_test_bits_numeral:
  "bloom_test_bits (numeral n) bits h delta flt =
     do {
       r \<leftarrow> u32_rem h bits;
       let bitpos = u32_as_usize r;
       b \<leftarrow> vec_index flt (bitpos div 8);
       if b AND push_bit (bitpos mod 8) 1 = 0 then Some False
       else bloom_test_bits (pred_numeral n) bits (h + delta) delta flt
     }"
  by (subst numeral_eq_Suc) (rule bloom_test_bits.simps(2))

lemmas bits_eval = bloom_set_bits_numeral bloom_test_bits_numeral bloom_delta_def u32_rem_def
  u32_as_usize_def usize_as_u32_def vec_index_def vec_slice_def vec_resize_def

lemma vec_resize_zeros: "vec_resize [] 8 0 = [0, 0, 0, 0, 0, 0, 0, 0 :: u8]"
  by (simp add: vec_resize_def eval_nat_numeral)

lemma input_set_bits:
  "bloom_set_bits 8 64 337654826 (bloom_delta 337654826) [0, 0, 0, 0, 0, 0, 0, 0, 8] =
     Some [0, 4, 0, 4, 0, 4, 0, 4, 8]"
  "bloom_set_bits 8 64 3848446747 (bloom_delta 3848446747) [0, 4, 0, 4, 0, 4, 0, 4, 8] =
     Some [2, 20, 1, 140, 0, 68, 4, 36, 8]"
  "bloom_set_bits 8 64 801152070 (bloom_delta 801152070) [2, 20, 1, 140, 0, 68, 4, 36, 8] =
     Some [66, 20, 1, 140, 64, 68, 4, 36, 8]"
  "bloom_set_bits 8 64 1941001647 (bloom_delta 1941001647) [66, 20, 1, 140, 64, 68, 4, 36, 8] =
     Some [194, 148, 129, 140, 192, 196, 132, 164, 8]"
  by (simp_all add: bits_eval)

lemma input_test_bits:
  "h = 337654826 \<or> h = 3848446747 \<or> h = 801152070 \<or> h = 1941001647 \<Longrightarrow>
   bloom_test_bits 8 64 h (bloom_delta h) [194, 148, 129, 140, 192, 196, 132, 164] = Some True"
  by (elim disjE) (simp_all add: bits_eval)

lemma input_filter:
  "create_filter (BloomPolicy_new reference_deps BITS_PER_KEY) (fst input_data) (snd input_data) =
     Some [194, 148, 129, 140, 192, 196, 132, 164, 8]"
  using input_hashes input_set_bits
  by (simp add: BloomPolicy_new_def BloomPolicy_create_filter_def bits_12 input_data_eq vec_resize_zeros
      rassert_def vec_slice_def u32_as_usize_def usize_as_u32_def)

lemma bloom_test: "test_filter_bloom reference_deps = Some ()"
  using input_hashes input_test_bits input_filter
  by (simp add: test_filter_bloom_def test_create_filter_def input_data_eq
      BloomPolicy_new_def BloomPolicy_key_may_match_def vec_slice_def u32_as_usize_def usize_as_u32_def test_eval)

section \<open>Filter blocks\<close>

definition test_filter_index :: "unit run" where
  "test_filter_index =
     do {
       i \<leftarrow> get_filter_index 3777 FILTER_BASE_LOG2;
       assert_eq i 1;
       i \<leftarrow> get_filter_index 10000 FILTER_BASE_LOG2;
       assert_eq i 4
     }"

definition get_keys :: "bytes list" where
  "get_keys = map as_bytes [''abcd'', ''efgh'', ''ijkl'', ''mnopqrstuvwxyz'']"

definition produce_filter_block :: "deps \<Rightarrow> bytes run" where
  "produce_filter_block D =
     do {
       let keys = get_keys;
       let bld = FilterBlockBuilder_new (BloomPolicy_new D 32);
       bld \<leftarrow> FilterBlockBuilder_start_block bld 0;
       let bld = fold (\<lambda>k bld. FilterBlockBuilder_add_key bld k) keys bld;
       bld \<leftarrow> FilterBlockBuilder_start_block bld 5000;
       let bld = fold (\<lambda>k bld. FilterBlockBuilder_add_key bld k) keys bld;
       FilterBlockBuilder_finish D bld
     }"

definition expected_filter_block :: bytes where
  "expected_filter_block =
     [234, 195, 25, 155, 61, 141, 173, 140, 221, 28, 222, 92, 220, 112, 234, 227, 22,
      234, 195, 25, 155, 61, 141, 173, 140, 221, 28, 222, 92, 220, 112, 234, 227, 22, 0,
      0, 0, 0, 17, 0, 0, 0, 17, 0, 0, 0, 34, 0, 0, 0, 11]"

definition test_filter_block_builder :: "deps \<Rightarrow> unit run" where
  "test_filter_block_builder D =
     do {
       result \<leftarrow> produce_filter_block D;
       assert_eq (length result) (2 * (length get_keys * 4 + 1) + (3 * 4) + 5);
       assert_eq result expected_filter_block
     }"

definition test_filter_block_build_read :: "deps \<Rightarrow> unit run" where
  "test_filter_block_build_read D =
     do {
       result \<leftarrow> produce_filter_block D;
       reader \<leftarrow> FilterBlockReader_new D (BloomPolicy_new D 32) result;
       i \<leftarrow> get_filter_index 5121 FILTER_BASE_LOG2;
       off \<leftarrow> FilterBlockReader_offset_of D reader i;
       assert_eq off 17;
       let unknown_keys = map as_bytes [''xsb'', ''9sad'', ''assssaaaass''];
       fold_run (\<lambda>block_offset _.
         do {
           fold_run (\<lambda>key _.
             do { m \<leftarrow> FilterBlockReader_key_may_match D reader block_offset key; rassert m }) get_keys ();
           fold_run (\<lambda>key _.
             do { m \<leftarrow> FilterBlockReader_key_may_match D reader block_offset key; rassert (\<not> m) }) unknown_keys ()
         }) [0, 1024, 5000, 6025] ()
     }"

lemma filter_index_test: "test_filter_index = Some ()"
  by (simp add: test_filter_index_def get_filter_index_def FILTER_BASE_LOG2_def usize_as_u32_def test_eval)

lemma get_keys_eq:
  "get_keys = [map of_char ''abcd'', map of_char ''efgh'', map of_char ''ijkl'', map of_char ''mnopqrstuvwxyz'']"
  by (simp add: get_keys_def as_bytes_def)

lemma key_hashes:
  "bloom_hash reference_deps (map of_char ''abcd'') = Some 3116905299"
  "bloom_hash reference_deps (map of_char ''efgh'') = Some 1363486114"
  "bloom_hash reference_deps (map of_char ''ijkl'') = Some 3905075185"
  "bloom_hash reference_deps (map of_char ''mnopqrstuvwxyz'') = Some 323889177"
  by (simp_all add: hash_eval test_eval)

lemma unknown_hashes:
  "bloom_hash reference_deps (map of_char ''xsb'') = Some 2780156538"
  "bloom_hash reference_deps (map of_char ''9sad'') = Some 1342787242"
  "bloom_hash reference_deps (map of_char ''assssaaaass'') = Some 163520343"
  by (simp_all add: hash_eval test_eval)

lemma key_set_bits:
  "bloom_set_bits 22 128 3116905299 (bloom_delta 3116905299)
     [0, 0, 0, 0, 0, 0, 0, 0, 0, 0, 0, 0, 0, 0, 0, 0, 22] =
     Some [136, 128, 8, 136, 8, 136, 128, 136, 128, 8, 136, 8, 136, 0, 136, 128, 22]"
  "bloom_set_bits 22 128 1363486114 (bloom_delta 1363486114)
     [136, 128, 8, 136, 8, 136, 128, 136, 128, 8, 136, 8, 136, 0, 136, 128, 22] =
     Some [200, 129, 9, 137, 13, 141, 132, 140, 148, 28, 152, 24, 216, 80, 200, 192, 22]"
  "bloom_set_bits 22 128 3905075185 (bloom_delta 3905075185)
     [200, 129, 9, 137, 13, 141, 132, 140, 148, 28, 152, 24, 216, 80, 200, 192, 22] =
     Some [234, 129, 25, 153, 29, 141, 140, 140, 156, 28, 220, 92, 220, 80, 234, 226, 22]"
  "bloom_set_bits 22 128 323889177 (bloom_delta 323889177)
     [234, 129, 25, 153, 29, 141, 140, 140, 156, 28, 220, 92, 220, 80, 234, 226, 22] =
     Some [234, 195, 25, 155, 61, 141, 173, 140, 221, 28, 222, 92, 220, 112, 234, 227, 22]"
  by (simp_all add: bits_eval cong: eval_cong)

lemma bits_32: "BloomPolicy_new_unwrapped 32 = \<lparr>bits_per_key = 32, bloom_k = 22\<rparr>"
  by (simp add: BloomPolicy_new_unwrapped_def f32_mul_069_as_u32_def f32_round_def f32_shift.simps)

lemma zeros_16: "vec_resize [] 16 0 = [0, 0, 0, 0, 0, 0, 0, 0, 0, 0, 0, 0, 0, 0, 0, 0 :: u8]"
  by (simp add: vec_resize_def eval_nat_numeral)

lemma key_filter:
  "create_filter (BloomPolicy_new reference_deps 32) (concat get_keys) [0, 4, 8, 12] =
     Some [234, 195, 25, 155, 61, 141, 173, 140, 221, 28, 222, 92, 220, 112, 234, 227, 22]"
  using key_hashes key_set_bits
  by (simp add: BloomPolicy_new_def BloomPolicy_create_filter_def bits_32 get_keys_eq zeros_16
      rassert_def usize_add_def vec_slice_def u32_as_usize_def usize_as_u32_def cong: eval_cong)

lemmas filter_block_eval = FilterBlockBuilder_new_def FilterBlockBuilder_start_block_def get_filter_index_def
  FILTER_BASE_LOG2_def FilterBlockBuilder_add_key_def FilterBlockBuilder_generate_filter_def
  FilterBlockBuilder_finish_def FilterBlockReader_new_def FilterBlockReader_offset_of_def
  FilterBlockReader_num_def FilterBlockReader_key_may_match_def usize_sub_def
  vec_slice_def vec_index_def copy_into_def u32_as_usize_def usize_as_u32_def

lemma produce_filter_block_eq: "produce_filter_block reference_deps = Some expected_filter_block"
  using key_filter
  by (simp add: produce_filter_block_def filter_block_eval start_block_loop.simps get_keys_eq
      le32_encode_def vec_resize_def expected_filter_block_def test_eval cong: eval_cong)

text \<open>What the policy answers on the filter of the four keys.\<close>

abbreviation four_key_filter :: bytes where
  "four_key_filter \<equiv> [234, 195, 25, 155, 61, 141, 173, 140, 221, 28, 222, 92, 220, 112, 234, 227]"

lemma key_test_bits:
  "bloom_test_bits 22 128 3116905299 (bloom_delta 3116905299) four_key_filter = Some True"
  "bloom_test_bits 22 128 1363486114 (bloom_delta 1363486114) four_key_filter = Some True"
  "bloom_test_bits 22 128 3905075185 (bloom_delta 3905075185) four_key_filter = Some True"
  "bloom_test_bits 22 128 323889177 (bloom_delta 323889177) four_key_filter = Some True"
  "bloom_test_bits 22 128 2780156538 (bloom_delta 2780156538) four_key_filter = Some False"
  "bloom_test_bits 22 128 1342787242 (bloom_delta 1342787242) four_key_filter = Some False"
  "bloom_test_bits 22 128 163520343 (bloom_delta 163520343) four_key_filter = Some False"
  by (simp_all add: bits_eval cong: eval_cong)

lemma four_key_match:
  assumes "bloom_hash reference_deps key = Some h"
  shows "key_may_match (BloomPolicy_new reference_deps 32) key (four_key_filter @ [22]) =
    bloom_test_bits 22 128 h (bloom_delta h) four_key_filter"
  using assms by (simp add: BloomPolicy_new_def BloomPolicy_key_may_match_def usize_as_u32_def test_eval)

lemma four_key_matches:
  "\<forall>key \<in> set get_keys. key_may_match (BloomPolicy_new reference_deps 32) key (four_key_filter @ [22]) = Some True"
  "\<forall>key \<in> set (map as_bytes [''xsb'', ''9sad'', ''assssaaaass'']).
     key_may_match (BloomPolicy_new reference_deps 32) key (four_key_filter @ [22]) = Some False"
  using key_hashes [THEN four_key_match] unknown_hashes [THEN four_key_match] key_test_bits
  by (simp_all add: get_keys_eq as_bytes_def)

definition expected_reader :: "deps \<Rightarrow> FilterBlockReader" where
  "expected_reader D =
     \<lparr>fbr_policy = BloomPolicy_new D 32, fbr_block = expected_filter_block,
      fbr_offsets_offset = 34, fbr_filter_base_lg2 = 11\<rparr>"

lemma expected_reader_new:
  "FilterBlockReader_new reference_deps (BloomPolicy_new reference_deps 32) expected_filter_block =
     Some (expected_reader reference_deps)"
  by (simp add: filter_block_eval expected_filter_block_def expected_reader_def le32_decode_def test_eval
      cong: eval_cong)

lemma expected_offsets:
  "FilterBlockReader_num (expected_reader reference_deps) = Some 3"
  "FilterBlockReader_offset_of reference_deps (expected_reader reference_deps) 0 = Some 0"
  "FilterBlockReader_offset_of reference_deps (expected_reader reference_deps) 1 = Some 17"
  "FilterBlockReader_offset_of reference_deps (expected_reader reference_deps) 2 = Some 17"
  "FilterBlockReader_offset_of reference_deps (expected_reader reference_deps) 3 = Some 34"
  by (simp_all add: filter_block_eval expected_filter_block_def expected_reader_def le32_decode_def test_eval
      cong: eval_cong)

lemma reader_answers:
  assumes "off \<in> {0, 1024, 5000, 6025}"
  shows "FilterBlockReader_key_may_match reference_deps (expected_reader reference_deps) off key =
    key_may_match (BloomPolicy_new reference_deps 32) key (four_key_filter @ [22])"
proof -
  let ?r = "expected_reader reference_deps"
  have r: "fbr_filter_base_lg2 ?r = 11" "fbr_offsets_offset ?r = 34" "fbr_policy ?r = BloomPolicy_new reference_deps 32"
    "fbr_block ?r = expected_filter_block" by (simp_all add: expected_reader_def)
  have slices: "vec_slice expected_filter_block 0 17 = Some (four_key_filter @ [22])"
    "vec_slice expected_filter_block 17 34 = Some (four_key_filter @ [22])"
    by (simp_all add: vec_slice_def expected_filter_block_def)
  from assms consider "off = 0" | "off = 1024" | "off = 5000" | "off = 6025" by blast
  then show ?thesis
    using expected_offsets slices
    by cases (simp_all add: FilterBlockReader_key_may_match_def get_filter_index_def usize_as_u32_def r
        rassert_def cong: eval_cong)
qed

lemma filter_block_builder_test: "test_filter_block_builder reference_deps = Some ()"
  by (simp add: test_filter_block_builder_def produce_filter_block_eq expected_filter_block_def get_keys_def rassert_def)

lemma fold_run_checks: "\<forall>x \<in> set xs. f x () = Some () \<Longrightarrow> fold_run f xs () = Some ()"
  by (induction xs) auto

lemma filter_block_build_read_test: "test_filter_block_build_read reference_deps = Some ()"
proof -
  let ?r = "expected_reader reference_deps" and ?unknown = "map as_bytes [''xsb'', ''9sad'', ''assssaaaass'']"
  have "get_filter_index 5121 FILTER_BASE_LOG2 = Some 2"
    by (simp add: get_filter_index_def FILTER_BASE_LOG2_def usize_as_u32_def rassert_def)
  moreover have "fold_run (\<lambda>off _.
      do {
        fold_run (\<lambda>key _. do { m \<leftarrow> FilterBlockReader_key_may_match reference_deps ?r off key; rassert m })
          get_keys ();
        fold_run (\<lambda>key _. do { m \<leftarrow> FilterBlockReader_key_may_match reference_deps ?r off key; rassert (\<not> m) })
          ?unknown ()
      }) [0, 1024, 5000, 6025] () = Some ()"
  proof (rule fold_run_checks, rule ballI)
    fix off :: usize assume "off \<in> set [0, 1024, 5000, 6025]"
    then have off: "off \<in> {0, 1024, 5000, 6025}" by simp
    have "fold_run (\<lambda>key _. do { m \<leftarrow> FilterBlockReader_key_may_match reference_deps ?r off key; rassert m })
        get_keys () = Some ()"
      using four_key_matches(1) by (intro fold_run_checks) (simp add: reader_answers [OF off] rassert_def)
    moreover have "fold_run (\<lambda>key _. do { m \<leftarrow> FilterBlockReader_key_may_match reference_deps ?r off key; rassert (\<not> m) })
        ?unknown () = Some ()"
      using four_key_matches(2) by (intro fold_run_checks) (simp add: reader_answers [OF off] rassert_def)
    ultimately show "do {
        fold_run (\<lambda>key _. do { m \<leftarrow> FilterBlockReader_key_may_match reference_deps ?r off key; rassert m })
          get_keys ();
        fold_run (\<lambda>key _. do { m \<leftarrow> FilterBlockReader_key_may_match reference_deps ?r off key; rassert (\<not> m) })
          ?unknown ()
      } = Some ()" by (simp only: Option.bind.bind_lunit)
  qed
  ultimately show ?thesis
    using produce_filter_block_eq expected_reader_new expected_offsets(4)
    by (simp only: test_filter_block_build_read_def Let_def Option.bind.bind_lunit rassert_def simp_thms if_True)
qed

end
