(* ===== verification/SST_Files.thy ===== *)
theory SST_Files
  imports SST_TableThms
begin

text \<open>
  Tables in files. The operations of the operating system that the library and the example program
  use on files are a parameter, a record; the locale \<open>working_disk\<close> is the contract of a disk on
  which no operation fails, interpreted on a map from paths to contents. Modelled are
  \<open>RandomAccess for File\<close> (\<open>src/types.rs\<close>), \<open>Table::new_from_file\<close> (\<open>src/table_reader.rs\<close>)
  and the example program (\<open>examples/rw_sstable/src/main.rs\<close>).
\<close>

section \<open>The operating system\<close>

text \<open>The state \<open>'fs\<close> holds the files; \<open>'p\<close> are paths and \<open>'h\<close> open files.\<close>

record ('fs, 'p, 'h) OS =
  os_create :: "'p \<Rightarrow> 'fs \<Rightarrow> (io_error + 'h) \<times> 'fs"
  os_open :: "'p \<Rightarrow> 'fs \<Rightarrow> io_error + 'h"
  os_len :: "'h \<Rightarrow> 'fs \<Rightarrow> io_error + u64"
  os_read_at :: "'h \<Rightarrow> bytes \<Rightarrow> u64 \<Rightarrow> 'fs \<Rightarrow> io_error + (usize \<times> bytes)"
  os_write :: "'h \<Rightarrow> bytes \<Rightarrow> 'fs \<Rightarrow> (io_error + usize) \<times> 'fs"
  os_write_fixedint :: "'h \<Rightarrow> u32 \<Rightarrow> 'fs \<Rightarrow> (io_error + usize) \<times> 'fs"
  os_flush :: "'h \<Rightarrow> 'fs \<Rightarrow> (io_error + unit) \<times> 'fs"

text \<open>A file as the destination of a table builder.\<close>

definition File_write :: "('fs, 'p, 'h) OS \<Rightarrow> 'h \<Rightarrow> 'fs Write" where
  "File_write os h =
     \<lparr>write_fn = (\<lambda>fs bs. Some (os_write os h bs fs)),
      write_fixedint = (\<lambda>fs v. Some (os_write_fixedint os h v fs)),
      flush_fn = (\<lambda>fs. Some (os_flush os h fs))\<rparr>"

definition File_read_at :: "('fs, 'p, 'h) OS \<Rightarrow> 'fs \<Rightarrow> 'h \<Rightarrow> random_access" where
  "File_read_at os fs self off dst =
     (case os_read_at os self dst (usize_as_u64 off) fs of
        Inl e \<Rightarrow> Some (Inl (Status_from_io e))
      | Inr r \<Rightarrow> ok r)"

definition Table_new_from_file ::
  "deps \<Rightarrow> ('fs, 'p, 'h) OS \<Rightarrow> 'fs \<Rightarrow> Options \<Rightarrow> 'p \<Rightarrow> block_cache \<Rightarrow> ((Status + Table) \<times> block_cache) run" where
  "Table_new_from_file D os fs opt path cache =
     (case os_open os path fs of
        Inl e \<Rightarrow> Some (Inl (Status_from_io e), cache)
      | Inr f \<Rightarrow>
          (case os_len os f fs of
             Inl e \<Rightarrow> Some (Inl (Status_from_io e), cache)
           | Inr n \<Rightarrow> Table_new D opt (File_read_at os fs f) (unat n) cache))"

text \<open>
  The contract: \<open>content\<close> gives the bytes of the file at a path, none if there is no file. Creating a
  file truncates it, a write takes everything and appends, a file that has contents can be
  opened, and a read inside of the file fills the whole buffer.
\<close>

locale working_disk =
  fixes D :: deps and os :: "('fs, 'p, 'h) OS" and path_of :: "'h \<Rightarrow> 'p" and content :: "'fs \<Rightarrow> 'p \<Rightarrow> bytes"
  assumes create_empty: "\<exists>h fs'. os_create os p fs = (Inr h, fs') \<and> path_of h = p \<and> content fs' p = []"
    and open_content: "content fs p \<noteq> [] \<Longrightarrow> \<exists>h. os_open os p fs = Inr h \<and> path_of h = p"
    and len_content: "length (content fs (path_of h)) < 2 ^ 64 \<Longrightarrow>
      os_len os h fs = Inr (of_nat (length (content fs (path_of h))))"
    and read_content: "unat off + length dst \<le> length (content fs (path_of h)) \<Longrightarrow>
      os_read_at os h dst off fs = Inr (length dst, take (length dst) (drop (unat off) (content fs (path_of h))))"
    and write_content: "\<exists>fs'. os_write os h bs fs = (Inr (length bs), fs') \<and>
      content fs' (path_of h) = content fs (path_of h) @ bs"
    and write_fixedint_content: "\<exists>n fs'. os_write_fixedint os h v fs = (Inr n, fs') \<and>
      content fs' (path_of h) = content fs (path_of h) @ encode_fixed32 D v"
    and flush_content: "\<exists>fs'. os_flush os h fs = (Inr (), fs') \<and> content fs' (path_of h) = content fs (path_of h)"
begin

lemma file_writer: "append_writer D (File_write os h) (\<lambda>fs. content fs (path_of h))"
proof
  fix fs bs v
  show "\<exists>fs'. write_fn (File_write os h) fs bs = Some (Inr (length bs), fs') \<and>
      content fs' (path_of h) = content fs (path_of h) @ bs"
    using write_content [of h bs fs] by (auto simp: File_write_def)
  show "\<exists>n fs'. write_fixedint (File_write os h) fs v = Some (Inr n, fs') \<and>
      content fs' (path_of h) = content fs (path_of h) @ encode_fixed32 D v"
    using write_fixedint_content [of h v fs] by (auto simp: File_write_def)
  show "\<exists>fs'. flush_fn (File_write os h) fs = Some (Inr (), fs') \<and>
      content fs' (path_of h) = content fs (path_of h)"
    using flush_content [of h fs] by (auto simp: File_write_def)
qed

lemma file_reader:
  assumes "length (content fs (path_of h)) < 2 ^ 64"
  shows "random_access_file (File_read_at os fs h) (content fs (path_of h))"
proof
  fix off :: usize and dst :: bytes
  assume "off + length dst \<le> length (content fs (path_of h))"
  moreover from this assms have "unat (usize_as_u64 off) = off" by (simp add: unat_usize_as_u64)
  ultimately show "File_read_at os fs h off dst =
      ok (length dst, take (length dst) (drop off (content fs (path_of h))))"
    using read_content [of "usize_as_u64 off" dst fs h] by (simp add: File_read_at_def)
qed

end

text \<open>A disk that keeps its files in a map; an open file is its path.\<close>

definition map_content :: "('p \<rightharpoonup> bytes) \<Rightarrow> 'p \<Rightarrow> bytes" where
  "map_content fs p = (case fs p of None \<Rightarrow> [] | Some data \<Rightarrow> data)"

definition map_append :: "'p \<Rightarrow> bytes \<Rightarrow> ('p \<rightharpoonup> bytes) \<Rightarrow> 'p \<rightharpoonup> bytes" where
  "map_append p bs fs = fs(p \<mapsto> map_content fs p @ bs)"

definition map_os :: "deps \<Rightarrow> ('p \<rightharpoonup> bytes, 'p, 'p) OS" where
  "map_os D =
     \<lparr>os_create = (\<lambda>p fs. (Inr p, fs(p \<mapsto> []))),
      os_open = (\<lambda>p fs. case fs p of
        None \<Rightarrow> Inl \<lparr>kind = KNotFound, io_msg = ''No such file or directory''\<rparr> | Some _ \<Rightarrow> Inr p),
      os_len = (\<lambda>p fs. Inr (of_nat (length (map_content fs p)))),
      os_read_at = (\<lambda>p dst off fs.
        let src = take (length dst) (drop (unat off) (map_content fs p)) in
        Inr (length src, src @ drop (length src) dst)),
      os_write = (\<lambda>p bs fs. (Inr (length bs), map_append p bs fs)),
      os_write_fixedint = (\<lambda>p v fs. (Inr 4, map_append p (encode_fixed32 D v) fs)),
      os_flush = (\<lambda>p fs. (Inr (), fs))\<rparr>"

interpretation map_disk: working_disk D "map_os D" "\<lambda>p. p" map_content for D
  by unfold_locales
    (auto simp: map_os_def map_content_def map_append_def Let_def min_absorb2 split: option.splits)

section \<open>Writing a table to a file and opening it\<close>

definition write_file ::
  "deps \<Rightarrow> ('fs, 'p, 'h) OS \<Rightarrow> Options \<Rightarrow> 'p \<Rightarrow> (bytes \<times> bytes) list \<Rightarrow> 'fs \<Rightarrow> ((Status + usize) \<times> 'fs) run" where
  "write_file D os opt p kvs fs =
     (case os_create os p fs of
        (Inl e, fs) \<Rightarrow> Some (Inl (Status_from_io e), fs)
      | (Inr dst, fs) \<Rightarrow>
          do {
            (r, tb) \<leftarrow> build_table D (File_write os dst) opt fs kvs;
            Some (r, tb_dst tb)
          })"

context working_disk
begin

lemma write_file_table:
  assumes D: "third_party_laws D" and C: "short_comparator (opt_cmp opt)" and fits: "table_fits opt kvs"
  shows "\<exists>fs' blocks. write_file D os opt p kvs fs = Some (Inr (length (content fs' p)), fs') \<and>
    table_file D opt (content fs' p) blocks \<and> all_entries blocks = kvs \<and>
    content fs' p = ref_file D opt kvs \<and>
    blocks = table_blocks D opt kvs \<and> length (content fs' p) < 2 ^ 29"
proof -
  obtain c where c: "filter_growth (opt_filter_policy opt) c"
    "table_size_bound opt c (table_weight kvs) < 2 ^ 29" and input: "table_input opt kvs"
    using fits by (auto simp: table_fits_def)
  obtain h fs1 where h: "os_create os p fs = (Inr h, fs1)" "path_of h = p" "content fs1 p = []"
    using create_empty by blast
  have "table_env D (File_write os h) (\<lambda>fs. content fs p) (opt_cmp opt)"
    using D C file_writer [of h] h(2)
    by (simp add: table_env_def table_writer_def third_party_laws_def)
  from table_env.build_table_file [OF this refl input h(3)] obtain tb blocks where
    tb: "build_table D (File_write os h) opt fs1 kvs = Some (Inr (length (content (tb_dst tb) p)), tb)"
      "table_exact D opt (content (tb_dst tb) p) blocks" "all_entries blocks = kvs"
      "content (tb_dst tb) p = ref_file D opt kvs"
      "blocks = table_blocks D opt kvs"
      "length (content (tb_dst tb) p) \<le> table_size_bound opt c (table_weight kvs)"
    using c(1) by blast
  then have "length (content (tb_dst tb) p) < 2 ^ 29" using c(2) by linarith
  with tb table_exact_file [OF tb(2)] h(1) show ?thesis by (auto simp: write_file_def)
qed

lemma new_from_file_opened:
  assumes D: "third_party_laws D" and C: "short_comparator (opt_cmp opt)" and fits: "table_fits opt kvs"
    and cap: "0 < cap" "cap < 2 ^ 64"
  shows "\<exists>n fs' t c blocks. write_file D os opt p kvs fs = Some (Inr n, fs') \<and>
    Cache_new cap \<bind> Table_new_from_file D os fs' opt p = Some (Inr t, c) \<and>
    opened_with D opt cap kvs blocks t c"
proof -
  obtain fs' blocks where fl: "write_file D os opt p kvs fs = Some (Inr (length (content fs' p)), fs')"
    "table_file D opt (content fs' p) blocks" "all_entries blocks = kvs"
    "blocks = table_blocks D opt kvs" "length (content fs' p) < 2 ^ 29"
    using write_file_table [OF D C fits] by blast
  have "content fs' p \<noteq> []" using fl(2) by (auto simp: table_file_def table_tail_def stored_def sealed_def)
  then obtain h where h: "os_open os p fs' = Inr h" "path_of h = p" using open_content by blast
  have small: "length (content fs' (path_of h)) < 2 ^ 64" using fl(5) h(2) by simp
  have sz: "os_len os h fs' = Inr (of_nat (length (content fs' p)))" using len_content [OF small] h(2) by simp
  have n: "unat (of_nat (length (content fs' p)) :: u64) = length (content fs' p)"
    using small h(2) unat_usize_as_u64 [of "length (content fs' p)"] by (simp add: usize_as_u64_def)
  have rd: "random_access_file (File_read_at os fs' h) (content fs' p)" using file_reader [OF small] h(2) by simp
  obtain c0 where c0: "Cache_new cap = Some (c0 :: block_cache)" "cache_inv D cap 0 {} c0"
    using cache_inv_new [OF cap] by blast
  then have id: "ca_id c0 = 0" by (blast intro: cache_inv_id)
  then have "unat (ca_id c0) + 1 < 2 ^ 64" by simp
  from table_reader.Table_new_view [OF opened_reader [OF D C] refl rd fl(2,5) this] id
  obtain t fs where t: "Table_new D opt (File_read_at os fs' h) (length (content fs' p)) c0 =
      Some (Inr t, c0\<lparr>ca_id := 0 + 1\<rparr>)"
    "table_view D opt (content fs' p) blocks fs t" "tab_cache_id t = 0 + 1" by auto
  have "(\<forall>b \<in> set blocks. handle_ok (db_handle b)) \<and> distinct (map (\<lambda>b. bh_offset (db_handle b)) blocks)"
    by (rule table_view_handles [OF t(2)])
  then have "cache_inv D cap (0 + 1) {(t, blocks)} (c0\<lparr>ca_id := 0 + 1\<rparr>)"
    using integer_codec.cache_inv_open [OF third_party_laws.axioms(1) [OF D] c0(2) _ t(3)] by simp
  then have "opened_with D opt cap kvs blocks t (c0\<lparr>ca_id := 0 + 1\<rparr>)"
    using t(2) fl(3,4) by (auto simp: opened_with_def)
  moreover have "Cache_new cap \<bind> Table_new_from_file D os fs' opt p = Some (Inr t, c0\<lparr>ca_id := 0 + 1\<rparr>)"
    using c0(1) h(1) sz n t(1) by (simp add: Table_new_from_file_def)
  ultimately show ?thesis using fl(1) by blast
qed

end

section \<open>The example program\<close>

text \<open>The check that \<open>String::from_utf8\<close> makes.\<close>

definition utf8_cont :: "u8 \<Rightarrow> bool" where
  "utf8_cont b \<longleftrightarrow> 0x80 \<le> b \<and> b \<le> 0xbf"

fun utf8_valid :: "bytes \<Rightarrow> bool" where
  "utf8_valid [] = True"
| "utf8_valid (b # bs) =
     (if b < 0x80 then utf8_valid bs
      else if 0xc2 \<le> b \<and> b \<le> 0xdf then
        (case bs of c # bs \<Rightarrow> utf8_cont c \<and> utf8_valid bs | _ \<Rightarrow> False)
      else if 0xe0 \<le> b \<and> b \<le> 0xef then
        (case bs of
           c # d # bs \<Rightarrow>
             utf8_cont c \<and> utf8_cont d \<and> (b = 0xe0 \<longrightarrow> 0xa0 \<le> c) \<and> (b = 0xed \<longrightarrow> c \<le> 0x9f) \<and> utf8_valid bs
         | _ \<Rightarrow> False)
      else if 0xf0 \<le> b \<and> b \<le> 0xf4 then
        (case bs of
           c # d # e # bs \<Rightarrow>
             utf8_cont c \<and> utf8_cont d \<and> utf8_cont e \<and> (b = 0xf0 \<longrightarrow> 0x90 \<le> c) \<and> (b = 0xf4 \<longrightarrow> c \<le> 0x8f) \<and>
             utf8_valid bs
         | _ \<Rightarrow> False)
      else False)"

definition from_utf8_unwrap :: "bytes \<Rightarrow> bytes run" where
  "from_utf8_unwrap bs = do { rassert (utf8_valid bs); Some bs }"

definition run_unwrap :: "Status + 'a \<Rightarrow> 'a run" where
  "run_unwrap r = (case r of Inl e \<Rightarrow> None | Inr x \<Rightarrow> Some x)"

text \<open>What the program prints: a line of text, or a key with the \<open>Debug\<close> form of an optional value.\<close>

datatype printed = Line bytes | Found bytes "bytes option"

definition make_table :: "(bytes \<times> bytes) list" where
  "make_table =
     map (\<lambda>(k, v). (as_bytes k, as_bytes v))
       [(''abc'', ''111111''), (''def'', ''11222''), (''dfg'', ''0001''), (''zzz'', ''123456'')]"

definition write_table :: "deps \<Rightarrow> ('fs, 'p, 'h) OS \<Rightarrow> 'p \<Rightarrow> 'fs \<Rightarrow> ((Status + unit) \<times> 'fs) run" where
  "write_table D os p fs =
     do {
       (r, fs) \<leftarrow> write_file D os (Options_default D) p make_table fs;
       Some (map_sum id (\<lambda>_. ()) r, fs)
     }"

partial_function (option) print_entries :: "deps \<Rightarrow> table_iter \<Rightarrow> (printed list \<times> table_iter) run" where
  "print_entries D iter =
     do {
       (more_left, iter) \<leftarrow> TableIterator_advance D iter;
       if \<not> more_left then Some ([], iter)
       else do {
         kv \<leftarrow> current_key_val TableIterator_current iter;
         (k, v) \<leftarrow> kv;
         k \<leftarrow> from_utf8_unwrap k;
         v \<leftarrow> from_utf8_unwrap v;
         (ls, iter) \<leftarrow> print_entries D iter;
         Some (Line (k @ as_bytes '' => '' @ v) # ls, iter)
       }
     }"

definition read_table ::
  "deps \<Rightarrow> ('fs, 'p, 'h) OS \<Rightarrow> 'p \<Rightarrow> 'fs \<Rightarrow> ((Status + Table \<times> printed list) \<times> block_cache) run" where
  "read_table D os p fs =
     do {
       cache \<leftarrow> Cache_new Options_default_cache_capacity;
       (r, cache) \<leftarrow> Table_new_from_file D os fs (Options_default D) p cache;
       case r of
         Inl e \<Rightarrow> Some (Inl e, cache)
       | Inr tr \<Rightarrow>
           do {
             iter \<leftarrow> Table_iter D tr;
             (ls, (_, cache)) \<leftarrow> print_entries D (iter, cache);
             Some (Inr (tr, ls), cache)
           }
     }"

definition lookup_key :: "deps \<Rightarrow> Table \<Rightarrow> string \<Rightarrow> block_cache \<Rightarrow> ((Status + bytes option) \<times> block_cache) run" where
  "lookup_key D t key cache = Table_get D t (as_bytes key) cache"

fun print_lookups :: "deps \<Rightarrow> Table \<Rightarrow> string list \<Rightarrow> block_cache \<Rightarrow> (printed list \<times> block_cache) run" where
  "print_lookups D t [] cache = Some ([], cache)"
| "print_lookups D t (key # keys) cache =
     do {
       (r, cache) \<leftarrow> lookup_key D t key cache;
       v \<leftarrow> run_unwrap r;
       (ls, cache) \<leftarrow> print_lookups D t keys cache;
       Some (Found (as_bytes key) v # ls, cache)
     }"

definition example_main :: "deps \<Rightarrow> ('fs, 'p, 'h) OS \<Rightarrow> 'p \<Rightarrow> 'fs \<Rightarrow> (printed list \<times> 'fs) run" where
  "example_main D os path fs =
     do {
       (r, fs) \<leftarrow> write_table D os path fs;
       _ \<leftarrow> run_unwrap r;
       (r, cache) \<leftarrow> read_table D os path fs;
       (tr, ls) \<leftarrow> run_unwrap r;
       (found, cache) \<leftarrow> print_lookups D tr [''000'', ''def'', ''zzy'', ''zzz''] cache;
       Some (ls @ [Line (as_bytes ''=== lookups ==='')] @ found, fs)
     }"

lemma default_opt_simps [simp]:
  "opt_cmp (Options_default D) = DefaultCmp" "block_size (Options_default D) = 4096"
  "block_restart_interval (Options_default D) = 16"
  "opt_filter_policy (Options_default D) = BloomPolicy_new D 10"
  by (simp_all add: Options_default_def BLOCK_MAX_SIZE_def KB_def DEFAULT_BITS_PER_KEY_def)

lemma default_fits:
  assumes "ascending DefaultCmp (map fst kvs)" "[] \<notin> fst ` set kvs" "\<forall>k \<in> fst ` set kvs. length k < 2 ^ 32"
    and "length kvs < 1000" "table_weight kvs < 1000000"
  shows "table_fits (Options_default D) kvs"
  using assms
  by (intro bloom_fits [of _ D 10])
    (simp_all add: table_options_def table_size_bound_def BloomPolicy_new_def)

lemma make_table_eq:
  "make_table = [([97, 98, 99], [49, 49, 49, 49, 49, 49]), ([100, 101, 102], [49, 49, 50, 50, 50]),
     ([100, 102, 103], [48, 48, 48, 49]), ([122, 122, 122], [49, 50, 51, 52, 53, 54])]"
  by (simp add: make_table_def as_bytes_def)

lemma print_entries_from:
  assumes utf8: "\<forall>(k, v) \<in> set es. utf8_valid k \<and> utf8_valid v"
  shows "table_at D C cap cid T bs es p it \<Longrightarrow>
    \<exists>it'. print_entries D it = Some (map (\<lambda>(k, v). Line (k @ as_bytes '' => '' @ v)) (drop (next_pos p) es), it') \<and>
      table_at D C cap cid T bs es None it'"
proof (induction "length es - next_pos p" arbitrary: p it)
  case 0
  then show ?case
    using table_iterator.advance_end [OF 0(2)] by (auto simp: print_entries.simps [of D it])
next
  case (Suc n)
  then have less: "next_pos p < length es" by simp
  obtain it1 where it1: "TableIterator_advance D it = Some (True, it1)"
    "table_at D C cap cid T bs es (Some (next_pos p)) it1"
    using table_iterator.advance_inside [OF Suc.prems less] by blast
  obtain k v where kv: "es ! next_pos p = (k, v)" by (cases "es ! next_pos p")
  have "current_key_val TableIterator_current it1 = Some (Some (k, v))"
    using table_iterator.current_key_val_at [OF it1(2)] kv by simp
  moreover have "utf8_valid k" "utf8_valid v" using utf8 nth_mem [OF less] kv by auto
  moreover have "n = length es - next_pos (Some (next_pos p))" using Suc.hyps(2) by simp
  ultimately show ?case
    using Suc.hyps(1) [OF _ it1(2)] it1(1) kv Cons_nth_drop_Suc [OF less]
    by (auto simp: print_entries.simps [of D it] from_utf8_unwrap_def rassert_def simp flip: Cons_nth_drop_Suc [OF less])
qed

lemma opened_lookup:
  assumes D: "third_party_laws D" and C: "opt_cmp opt = DefaultCmp" and at: "opened_with D opt cap kvs blocks t c"
    and zero: "\<not> zero_extended kvs" and P: "nonempty_filter_policy (opt_filter_policy opt)"
    and key: "length key < 2 ^ 32"
  shows "\<exists>c'. Table_get D t key c = Some (Inr (map_of kvs key), c') \<and> opened_with D opt cap kvs blocks t c'"
proof -
  have sc: "short_comparator (opt_cmp opt)" using C default_cmp.short_comparator_axioms by simp
  note b = opened_blocks [OF D sc at, unfolded C]
  have "get_result DefaultCmp key blocks = map_of kvs key"
    using get_result_default [OF b(1,2), of key] b(3) zero by simp
  with opened_get [OF D sc at P _ key] C show ?thesis by fastforce
qed

lemma print_lookups_map_of:
  assumes D: "third_party_laws D" and C: "opt_cmp opt = DefaultCmp"
    and zero: "\<not> zero_extended kvs" and P: "nonempty_filter_policy (opt_filter_policy opt)"
    and keys: "\<forall>key \<in> set keys. length key < 2 ^ 32"
  shows "opened_with D opt cap kvs blocks t c \<Longrightarrow>
    \<exists>c'. print_lookups D t keys c = Some (map (\<lambda>key. Found (as_bytes key) (map_of kvs (as_bytes key))) keys, c')"
  using keys
proof (induction keys arbitrary: c)
  case (Cons key keys)
  have "length (as_bytes key) < 2 ^ 32" using Cons.prems(2) by (simp add: as_bytes_def)
  from opened_lookup [OF D C Cons.prems(1) zero P this] obtain c1 where
    c1: "Table_get D t (as_bytes key) c = Some (Inr (map_of kvs (as_bytes key)), c1)"
      "opened_with D opt cap kvs blocks t c1" by blast
  from Cons.IH [OF c1(2)] Cons.prems(2) c1(1) show ?case
    by (auto simp: lookup_key_def run_unwrap_def)
qed simp

section \<open>Properties\<close>

text \<open>C15: A table written to a file of a working disk and opened again with \<open>new_from_file\<close> gives, for
  every key, what the entries map it to, with the default comparator and when no stored key is
  another one followed by a zero byte; its iterator yields all entries.\<close>

theorem file_table_round_trip:
  assumes "third_party_laws D" "opt_cmp opt = DefaultCmp" "table_fits opt kvs" "\<not> zero_extended kvs"
    and "nonempty_filter_policy (opt_filter_policy opt)" "0 < cap" "cap < 2 ^ 64" "length key < 2 ^ 32"
    and "working_disk D os path_of content"
  shows "\<exists>n fs' t c c' it it'. write_file D os opt p kvs fs = Some (Inr n, fs') \<and>
    Cache_new cap \<bind> Table_new_from_file D os fs' opt p = Some (Inr t, c) \<and>
    Table_get D t key c = Some (Inr (map_of kvs key), c') \<and> Table_iter D t = Some it \<and>
    drain (TableIterator_advance D) TableIterator_current (it, c') = Some (kvs, it')"
proof -
  have C: "short_comparator (opt_cmp opt)" using assms(2) default_cmp.short_comparator_axioms by simp
  from working_disk.new_from_file_opened [OF assms(9,1) C assms(3,6,7), of p fs] obtain n fs' t c blocks where
    t: "write_file D os opt p kvs fs = Some (Inr n, fs')"
      "Cache_new cap \<bind> Table_new_from_file D os fs' opt p = Some (Inr t, c)"
      "opened_with D opt cap kvs blocks t c" by blast
  from opened_lookup [OF assms(1,2) t(3) assms(4,5,8)] obtain c' where
    c': "Table_get D t key c = Some (Inr (map_of kvs key), c')" "opened_with D opt cap kvs blocks t c'" by blast
  from opened_iter [OF assms(1) C c'(2)] obtain it where it: "Table_iter D t = Some it"
    "table_at D (opt_cmp opt) cap 1 {(t, blocks)} blocks kvs None (it, c')" by blast
  from table_iterator.drain_all [OF it(2)] t(1,2) c'(1) it(1) show ?thesis by blast
qed

theorem file_table_round_trip_witness:
  "\<exists>n fs' t c c'. write_file reference_deps (map_os reference_deps) small_opt ''table'' sample_kvs Map.empty =
      Some (Inr n, fs') \<and>
    Cache_new 2 \<bind> Table_new_from_file reference_deps (map_os reference_deps) fs' small_opt ''table'' =
      Some (Inr t, c) \<and>
    Table_get reference_deps t [1, 3] c = Some (Inr (Some [8, 9]), c')"
proof -
  have "map_of sample_kvs [1, 3] = Some [8, 9]" by (simp add: sample_kvs_def)
  moreover have "0 < (2::nat)" "(2::nat) < 2 ^ 64" "length [1 :: u8, 3] < 2 ^ 32" "opt_cmp small_opt = DefaultCmp"
    by simp_all
  note file_table_round_trip [OF ref_deps.third_party_laws_axioms this(4) sample_fits sample_not_extended
      small_policy this(1-3) map_disk.working_disk_axioms, of "''table''" Map.empty]
  ultimately show ?thesis by auto
qed

text \<open>C16: The example program, on any working disk and with any implementation of the third-party
  functions that keeps their laws, runs to its end without a panic and prints the four entries it
  wrote, in order, and then the results of the four lookups: nothing for the two missing keys and
  the stored values for the two others.\<close>

theorem example_program_output:
  assumes "third_party_laws D" "working_disk D os path_of content"
  shows "\<exists>fs'. example_main D os path fs = Some
    (map (\<lambda>l. Line (as_bytes l)) [''abc => 111111'', ''def => 11222'', ''dfg => 0001'', ''zzz => 123456'',
       ''=== lookups ===''] @
     [Found (as_bytes ''000'') None, Found (as_bytes ''def'') (Some (as_bytes ''11222'')),
      Found (as_bytes ''zzy'') None, Found (as_bytes ''zzz'') (Some (as_bytes ''123456''))], fs')"
proof -
  let ?opt = "Options_default D" and ?cap = "Options_default_cache_capacity"
  have opt: "opt_cmp ?opt = DefaultCmp" "short_comparator (opt_cmp ?opt)"
    "nonempty_filter_policy (opt_filter_policy ?opt)"
    by (simp_all add: default_cmp.short_comparator_axioms bloom.nonempty_filter_policy_axioms)
  have fits: "table_fits ?opt make_table"
    by (rule default_fits) (simp_all add: make_table_eq ascending_def DefaultCmp_def entry_weight_def)
  have zero: "\<not> zero_extended make_table" by (simp add: zero_extended_def make_table_eq)
  have cap: "0 < ?cap" "?cap < 2 ^ 64"
    by (simp_all add: Options_default_cache_capacity_def BLOCK_CACHE_CAPACITY_def BLOCK_MAX_SIZE_def MB_def KB_def)
  from working_disk.new_from_file_opened [OF assms(2,1) opt(2) fits cap, of path fs] obtain n fs' t c0 c blocks where
    t: "write_file D os ?opt path make_table fs = Some (Inr n, fs')" "Cache_new ?cap = Some c0"
      "Table_new_from_file D os fs' ?opt path c0 = Some (Inr t, c)"
      "opened_with D ?opt ?cap make_table blocks t c" by (auto simp: bind_eq_Some_conv)
  from opened_iter [OF assms(1) opt(2) t(4)] obtain it where it: "Table_iter D t = Some it"
    "table_at D DefaultCmp ?cap 1 {(t, blocks)} blocks make_table None (it, c)" by auto
  have utf8: "\<forall>(k, v) \<in> set make_table. utf8_valid k \<and> utf8_valid v" by (simp add: make_table_eq)
  from print_entries_from [OF utf8 it(2)] obtain self c1 where p: "print_entries D (it, c) =
      Some (map (\<lambda>(k, v). Line (k @ as_bytes '' => '' @ v)) make_table, (self, c1))"
    "table_at D DefaultCmp ?cap 1 {(t, blocks)} blocks make_table None (self, c1)" by auto
  then have "opened_with D ?opt ?cap make_table blocks t c1"
    using t(4) by (auto simp: table_at_def reading_def opened_with_def)
  from print_lookups_map_of [OF assms(1) opt(1) zero opt(3) _ this, of "[''000'', ''def'', ''zzy'', ''zzz'']"]
  obtain c2 where "print_lookups D t [''000'', ''def'', ''zzy'', ''zzz''] c1 =
      Some (map (\<lambda>key. Found (as_bytes key) (map_of make_table (as_bytes key))) [''000'', ''def'', ''zzy'', ''zzz''], c2)"
    by auto
  with t(1-3) it(1) p(1) show ?thesis
    by (simp add: example_main_def write_table_def read_table_def run_unwrap_def make_table_eq as_bytes_def
        del: print_lookups.simps)
qed

theorem example_program_output_witness:
  "\<exists>ls fs'. example_main reference_deps (map_os reference_deps) ''/tmp/some.random.sstable'' Map.empty = Some (ls, fs') \<and>
    length ls = 9"
  using example_program_output [OF ref_deps.third_party_laws_axioms map_disk.working_disk_axioms,
      of "''/tmp/some.random.sstable''" Map.empty] by auto

end
