(* ===== verification/SST_BlockTests.thy ===== *)
theory SST_BlockTests
  imports SST_UnitTests SST_Files
begin

text \<open>
  The unit tests of \<open>src/block_builder.rs\<close> and \<open>src/block.rs\<close> as runs of the model.
\<close>

section \<open>The block builder\<close>

definition get_data :: "(bytes \<times> bytes) list" where
  "get_data =
     map (\<lambda>(k, v). (as_bytes k, as_bytes v))
       [(''key1'', ''value1''),
        (''loooooooooooooooooooooooooooooooooongerkey1'', ''shrtvl1''),
        (''medium length key 1'', ''some value 2''),
        (''prefix_key1'', ''value''),
        (''prefix_key2'', ''value''),
        (''prefix_key3'', ''value'')]"

definition test_block_builder_sanity :: "deps \<Rightarrow> unit run" where
  "test_block_builder_sanity D =
     do {
       let opt = (Options_default D)\<lparr>block_restart_interval := 3\<rparr>;
       let builder = BlockBuilder_new opt;
       builder \<leftarrow> fold_run (\<lambda>(k, v) builder.
         do {
           builder \<leftarrow> BlockBuilder_add D builder k v;
           rassert (bb_restart_counter builder \<le> 3);
           assert_eq (BlockBuilder_last_key builder) k;
           Some builder
         }) get_data builder;
       assert_eq 149 (BlockBuilder_size_estimate builder);
       assert_eq (length get_data) (BlockBuilder_entries builder);
       assert_eq (length (BlockBuilder_finish D builder)) 149
     }"

definition test_block_builder_panics :: "deps \<Rightarrow> unit run" where
  "test_block_builder_panics D =
     should_panic (do {
       let d = get_data[4 := (as_bytes ''prefix_key1'', snd (get_data ! 4))];
       fold_run (\<lambda>(k, v) builder.
         do {
           builder \<leftarrow> BlockBuilder_add D builder k v;
           assert_eq k (BlockBuilder_last_key builder);
           Some builder
         }) d (BlockBuilder_new (Options_default D))
     })"

lemmas builder_eval = BlockBuilder_new_def BlockBuilder_add_def BlockBuilder_last_key_def
  BlockBuilder_entries_def BlockBuilder_size_estimate_def BlockBuilder_finish_def shared_prefix.simps
  Options_default_def DefaultCmp_def slice_from_def usize_sub_def usize_as_u32_def vec_resize_def
  leb_encode.simps le32_encode_def

lemma get_data_eq:
  "get_data =
     map (\<lambda>(k, v). (map of_char k, map of_char v))
       [(''key1'', ''value1''),
        (''loooooooooooooooooooooooooooooooooongerkey1'', ''shrtvl1''),
        (''medium length key 1'', ''some value 2''),
        (''prefix_key1'', ''value''),
        (''prefix_key2'', ''value''),
        (''prefix_key3'', ''value'')]"
  by (simp add: get_data_def as_bytes_def)

lemma block_builder_panics_test: "test_block_builder_panics reference_deps = Some ()"
  by (simp add: test_block_builder_panics_def get_data_eq builder_eval test_eval cong: eval_cong)

lemma block_builder_sanity_test: "test_block_builder_sanity reference_deps = Some ()"
  by (simp add: test_block_builder_sanity_def get_data_eq builder_eval test_eval cong: eval_cong)

section \<open>Blocks\<close>

text \<open>\<open>block_open\<close> is the beginning of these tests: the entries are added to a builder, and the
  finished block is opened.\<close>

definition test_block_iterator_properties :: "deps \<Rightarrow> unit run" where
  "test_block_iterator_properties D =
     do {
       block \<leftarrow> block_open D (Options_default D) (vec_truncate get_data 4);
       test_iterator_properties (BlockIter_methods D) block
     }"

definition test_block_empty :: "deps \<Rightarrow> unit run" where
  "test_block_empty D =
     do {
       let opt = (Options_default D)\<lparr>block_restart_interval := 16\<rparr>;
       let blockc = BlockBuilder_finish D (BlockBuilder_new opt);
       assert_eq (length blockc) 8;
       assert_eq blockc [0, 0, 0, 0, 1, 0, 0, 0];
       block \<leftarrow> Block_new (Options_default D) blockc;
       it \<leftarrow> Block_iter D block;
       (r, _) \<leftarrow> SSIteratorIter_next (BlockIter_methods D) it;
       rassert (r = None)
     }"

definition test_block_build_iterate :: "deps \<Rightarrow> unit run" where
  "test_block_build_iterate D =
     do {
       block \<leftarrow> block_open D (Options_default D) get_data;
       rassert (\<not> BlockIter_valid block);
       (i, _) \<leftarrow> check_entries (BlockIter_methods D) get_data 0 block;
       assert_eq i (length get_data)
     }"

definition test_block_iterate_reverse :: "deps \<Rightarrow> unit run" where
  "test_block_iterate_reverse D =
     do {
       block \<leftarrow> block_open D ((Options_default D)\<lparr>block_restart_interval := 3\<rparr>) get_data;
       rassert (\<not> BlockIter_valid block);
       (e, block) \<leftarrow> BlockIter_next D block;
       assert_eq e (Some (as_bytes ''key1'', as_bytes ''value1''));
       rassert (BlockIter_valid block);
       (_, block) \<leftarrow> BlockIter_next D block;
       rassert (BlockIter_valid block);
       (_, block) \<leftarrow> BlockIter_prev D block;
       rassert (BlockIter_valid block);
       e \<leftarrow> current_key_val BlockIter_current block;
       assert_eq e (Some (as_bytes ''key1'', as_bytes ''value1''));
       (_, block) \<leftarrow> BlockIter_prev D block;
       rassert (\<not> BlockIter_valid block);
       (_, block) \<leftarrow> drain (BlockIter_advance D) BlockIter_current block;
       (_, block) \<leftarrow> BlockIter_prev D block;
       rassert (BlockIter_valid block);
       e \<leftarrow> current_key_val BlockIter_current block;
       assert_eq e (Some (as_bytes ''prefix_key2'', as_bytes ''value''))
     }"

text \<open>\<open>test_block_seek\<close> makes five searches, of which the last finds nothing.\<close>

definition seek_expecting :: "deps \<Rightarrow> string \<Rightarrow> string \<Rightarrow> string \<Rightarrow> BlockIter \<Rightarrow> BlockIter run" where
  "seek_expecting D to k v block =
     do {
       block \<leftarrow> BlockIter_seek D block (as_bytes to);
       rassert (BlockIter_valid block);
       e \<leftarrow> current_key_val BlockIter_current block;
       assert_eq e (Some (as_bytes k, as_bytes v));
       Some block
     }"

definition test_block_seek :: "deps \<Rightarrow> unit run" where
  "test_block_seek D =
     do {
       block \<leftarrow> block_open D ((Options_default D)\<lparr>block_restart_interval := 3\<rparr>) get_data;
       block \<leftarrow> seek_expecting D ''prefix_key2'' ''prefix_key2'' ''value'' block;
       block \<leftarrow> seek_expecting D ''prefix_key0'' ''prefix_key1'' ''value'' block;
       block \<leftarrow> seek_expecting D ''key1'' ''key1'' ''value1'' block;
       block \<leftarrow> seek_expecting D ''prefix_key3'' ''prefix_key3'' ''value'' block;
       block \<leftarrow> BlockIter_seek D block (as_bytes ''prefix_key8'');
       rassert (\<not> BlockIter_valid block);
       e \<leftarrow> current_key_val BlockIter_current block;
       assert_eq e None
     }"

definition test_block_seek_to_last :: "deps \<Rightarrow> unit run" where
  "test_block_seek_to_last D =
     fold_run (\<lambda>interval _.
       do {
         block \<leftarrow> block_open D ((Options_default D)\<lparr>block_restart_interval := interval\<rparr>) get_data;
         block \<leftarrow> BlockIter_seek_to_last D block;
         rassert (BlockIter_valid block);
         e \<leftarrow> current_key_val BlockIter_current block;
         assert_eq e (Some (as_bytes ''prefix_key3'', as_bytes ''value''))
       }) [2, 6, 10] ()"

subsection \<open>The tests pass\<close>

lemma get_data_input:
  "0 < block_restart_interval opt \<Longrightarrow> opt_cmp opt = DefaultCmp \<Longrightarrow> block_input opt get_data"
  by (simp add: block_input_def ascending_def DefaultCmp_def block_weight_simps get_data_eq)

lemma get_data_open:
  assumes "integer_codec D" "0 < n"
  obtains block where "block_open D ((Options_default D)\<lparr>block_restart_interval := n\<rparr>) get_data = Some block"
    "block_at D DefaultCmp get_data None block"
  using block_open_at [OF assms(1) _ get_data_input, of "(Options_default D)\<lparr>block_restart_interval := n\<rparr>"]
    default_cmp.comparator_axioms assms(2) by auto

lemma default_interval: "(Options_default D)\<lparr>block_restart_interval := 16\<rparr> = Options_default D"
  by (simp add: Options_default_def)

lemma length_get_data [simp]: "length get_data = 6"
  by (simp add: get_data_def)

lemma get_data_nth:
  "get_data ! 0 = (as_bytes ''key1'', as_bytes ''value1'')"
  "get_data ! 3 = (as_bytes ''prefix_key1'', as_bytes ''value'')"
  "get_data ! 4 = (as_bytes ''prefix_key2'', as_bytes ''value'')"
  "get_data ! 5 = (as_bytes ''prefix_key3'', as_bytes ''value'')"
  by (simp_all add: get_data_def)

lemma block_iterator_properties_test:
  assumes D: "integer_codec D"
  shows "test_block_iterator_properties D = Some ()"
proof -
  have "block_input (Options_default D) (take 4 get_data)"
    by (simp add: block_input_def ascending_def DefaultCmp_def block_weight_simps get_data_eq)
  with block_passes_shared_test [OF D, of "Options_default D" "take 4 get_data"] default_cmp.comparator_axioms
  show ?thesis by (auto simp: test_block_iterator_properties_def vec_truncate_def)
qed

lemma block_empty_test: "test_block_empty reference_deps = Some ()"
  by (simp add: test_block_empty_def builder_eval Block_new_def Block_iter_def le32_decode_def u32_as_usize_def
      SSIteratorIter_next_def SSIterator_next_def BlockIter_methods_def BlockIter_advance_def test_eval
      cong: eval_cong)

lemma block_build_iterate_test:
  assumes D: "integer_codec D"
  shows "test_block_build_iterate D = Some ()"
proof -
  obtain block where block: "block_open D (Options_default D) get_data = Some block"
    "block_at D DefaultCmp get_data None block"
    using get_data_open [OF D, of 16] by (auto simp: default_interval)
  obtain it' where "check_entries (BlockIter_methods D) get_data 0 block = Some (6, it')"
    using block_seeks.check_entries_at [OF block(2)] by (auto simp: BlockIter_methods_def)
  then show ?thesis
    using block block_iter.valid_iff [OF block(2)] by (simp add: test_block_build_iterate_def rassert_def)
qed

lemma seek_expecting_at:
  assumes "block_at D C kvs p it" "seek_pos C (as_bytes to) kvs = Some i" "kvs ! i = (as_bytes k, as_bytes v)"
  shows "\<exists>it'. seek_expecting D to k v it = Some it' \<and> block_at D C kvs (Some i) it'"
proof -
  obtain it' where "BlockIter_seek D it (as_bytes to) = Some it'" "block_at D C kvs (Some i) it'"
    using block_iter.seek_at [OF assms(1)] assms(2) by metis
  then show ?thesis
    using block_iter.valid_iff block_iter.current_key_val_at assms(3)
    by (fastforce simp: seek_expecting_def rassert_def)
qed

lemma get_data_seeks:
  "seek_pos DefaultCmp (as_bytes ''prefix_key2'') get_data = Some 4"
  "seek_pos DefaultCmp (as_bytes ''prefix_key0'') get_data = Some 3"
  "seek_pos DefaultCmp (as_bytes ''key1'') get_data = Some 0"
  "seek_pos DefaultCmp (as_bytes ''prefix_key3'') get_data = Some 5"
  "seek_pos DefaultCmp (as_bytes ''prefix_key8'') get_data = None"
  by (simp_all add: seek_pos_def seek_index_def get_data_def as_bytes_def DefaultCmp_def)

lemma block_seek_test:
  assumes D: "integer_codec D"
  shows "test_block_seek D = Some ()"
proof -
  obtain b0 where b0: "block_open D ((Options_default D)\<lparr>block_restart_interval := 3\<rparr>) get_data = Some b0"
    "block_at D DefaultCmp get_data None b0" by (rule get_data_open [OF D, of 3]) simp_all
  note seeks = get_data_seeks and entries = get_data_nth
  obtain b1 where b1: "seek_expecting D ''prefix_key2'' ''prefix_key2'' ''value'' b0 = Some b1"
    "block_at D DefaultCmp get_data (Some 4) b1" using seek_expecting_at [OF b0(2) seeks(1) entries(3)] by blast
  obtain b2 where b2: "seek_expecting D ''prefix_key0'' ''prefix_key1'' ''value'' b1 = Some b2"
    "block_at D DefaultCmp get_data (Some 3) b2" using seek_expecting_at [OF b1(2) seeks(2) entries(2)] by blast
  obtain b3 where b3: "seek_expecting D ''key1'' ''key1'' ''value1'' b2 = Some b3"
    "block_at D DefaultCmp get_data (Some 0) b3" using seek_expecting_at [OF b2(2) seeks(3) entries(1)] by blast
  obtain b4 where b4: "seek_expecting D ''prefix_key3'' ''prefix_key3'' ''value'' b3 = Some b4"
    "block_at D DefaultCmp get_data (Some 5) b4" using seek_expecting_at [OF b3(2) seeks(4) entries(4)] by blast
  obtain b5 where b5: "BlockIter_seek D b4 (as_bytes ''prefix_key8'') = Some b5"
    "block_at D DefaultCmp get_data None b5" using block_iter.seek_at [OF b4(2)] seeks(5) by metis
  show ?thesis
    using block_iter.valid_iff [OF b5(2)] block_iter.current_key_val_none [OF b5(2)]
    by (simp add: test_block_seek_def b0(1) b1(1) b2(1) b3(1) b4(1) b5(1) rassert_def)
qed

lemma get_data_last:
  assumes D: "integer_codec D" and n: "0 < n"
  shows "do {
      block \<leftarrow> block_open D ((Options_default D)\<lparr>block_restart_interval := n\<rparr>) get_data;
      block \<leftarrow> BlockIter_seek_to_last D block;
      rassert (BlockIter_valid block);
      e \<leftarrow> current_key_val BlockIter_current block;
      rassert (e = Some (as_bytes ''prefix_key3'', as_bytes ''value''))
    } = Some ()"
proof -
  obtain b0 where b0: "block_open D ((Options_default D)\<lparr>block_restart_interval := n\<rparr>) get_data = Some b0"
    "block_at D DefaultCmp get_data None b0" by (rule get_data_open [OF D n])
  have "get_data \<noteq> []" by (simp add: get_data_def)
  from block_at_last [OF b0(2) this] obtain b1 where b1: "BlockIter_seek_to_last D b0 = Some b1"
    "block_at D DefaultCmp get_data (Some 5) b1" by auto
  show ?thesis
    using block_iter.valid_iff [OF b1(2)] block_iter.current_key_val_at [OF b1(2)]
    by (simp add: b0(1) b1(1) rassert_def get_data_nth)
qed

lemma block_seek_to_last_test: "integer_codec D \<Longrightarrow> test_block_seek_to_last D = Some ()"
  unfolding test_block_seek_to_last_def by (rule fold_run_checks) (auto intro!: get_data_last)

lemma block_at_prev_end:
  assumes at: "block_at D C kvs (Some (Suc i)) it" and off: "BlockIter_advance D it = Some (False, it')"
  shows "\<exists>it''. BlockIter_prev D it' = Some (True, it'') \<and> block_at D C kvs (Some i) it''"
  using at
proof (cases rule: block_atE)
  case (1 es rs)
  have "it' = BlockIter_reset it" using off by (auto simp: BlockIter_advance_def Let_def bind_eq_Some_conv split: if_splits)
  with integer_codec.prev_at_end [OF 1(1,6)] 1 show ?thesis by (metis block_atI)
qed

lemma block_iterate_reverse_test:
  assumes D: "integer_codec D"
  shows "test_block_iterate_reverse D = Some ()"
proof -
  obtain b0 where b0: "block_open D ((Options_default D)\<lparr>block_restart_interval := 3\<rparr>) get_data = Some b0"
    "block_at D DefaultCmp get_data None b0" by (rule get_data_open [OF D, of 3]) simp_all
  obtain b1 where b1: "BlockIter_next D b0 = Some (Some (get_data ! 0), b1)" "block_at D DefaultCmp get_data (Some 0) b1"
    using block_iter.next_inside [OF b0(2)] by (auto simp: BlockIter_next_def)
  obtain b2 where b2: "BlockIter_next D b1 = Some (Some (get_data ! 1), b2)" "block_at D DefaultCmp get_data (Some 1) b2"
    using block_iter.next_inside [OF b1(2)] by (auto simp: BlockIter_next_def)
  obtain b3 where b3: "BlockIter_prev D b2 = Some (True, b3)" "block_at D DefaultCmp get_data (Some 0) b3"
    using block_iter.prev_inside [of D DefaultCmp get_data 0 b2] b2(2) by auto
  obtain b4 where b4: "BlockIter_prev D b3 = Some (False, b4)" "block_at D DefaultCmp get_data None b4"
    using block_iter.prev_first [OF b3(2)] by blast
  obtain last b5 where b5: "block_at D DefaultCmp get_data (Some 5) last" "BlockIter_advance D last = Some (False, b5)"
    "drain (BlockIter_advance D) BlockIter_current b4 = Some (get_data, b5)"
    using block_iter.drain_last [OF b4(2)] by auto
  have "block_at D DefaultCmp get_data (Some (Suc 4)) last" using b5(1) by (simp add: numeral_eq_Suc)
  from block_at_prev_end [OF this b5(2)] obtain b6 where
    b6: "BlockIter_prev D b5 = Some (True, b6)" "block_at D DefaultCmp get_data (Some 4) b6" by blast
  note at = b0(2) b1(2) b2(2) b3(2) b4(2) b6(2)
  note valid = at [THEN block_iter.valid_iff]
  have current: "current_key_val BlockIter_current b3 = Some (Some (get_data ! 0))"
    "current_key_val BlockIter_current b6 = Some (Some (get_data ! 4))"
    using at by (simp_all only: block_iter.current_key_val_at)
  show ?thesis
    by (simp add: test_block_iterate_reverse_def b0(1) b1(1) b2(1) b3(1) b4(1) b5(3) b6(1) valid current rassert_def
        get_data_nth)
qed

end
