(* ===== verification/SST_TableTests.thy ===== *)
theory SST_TableTests
  imports SST_BlockTests
begin

text \<open>
  The unit tests of \<open>src/blockhandle.rs\<close>, \<open>src/test_util.rs\<close>, \<open>src/table_builder.rs\<close> and
  \<open>src/table_reader.rs\<close> as runs of the model. Those that depend on how the default codecs lay out a
  table are run on the reference instance; the others are proved for all implementations of the
  third-party functions.
\<close>

section \<open>Handles and the footer\<close>

definition test_blockhandle :: "deps \<Rightarrow> unit run" where
  "test_blockhandle D =
     do {
       let bh = BlockHandle_new 890 777;
       (enc_sz, dst) \<leftarrow> BlockHandle_encode_to D bh (replicate 128 0);
       (bh2, dec_sz) \<leftarrow> BlockHandle_decode D dst;
       assert_eq enc_sz dec_sz;
       assert_eq (bh_size bh) (bh_size bh2);
       assert_eq (bh_offset bh) (bh_offset bh2)
     }"

definition test_footer :: "deps \<Rightarrow> unit run" where
  "test_footer D =
     do {
       let f = Footer_new (BlockHandle_new 44 4) (BlockHandle_new 55 5);
       buf \<leftarrow> Footer_encode D f (replicate 48 0);
       f2 \<leftarrow> Footer_decode D buf;
       assert_eq (bh_offset (ft_meta_index f2)) 44;
       assert_eq (bh_size (ft_meta_index f2)) 4;
       assert_eq (bh_offset (ft_index f2)) 55;
       assert_eq (bh_size (ft_index f2)) 5
     }"

section \<open>The iterator over a vector\<close>

definition test_test_util_basic :: "unit run" where
  "test_test_util_basic =
     do {
       let v = map (\<lambda>(k, v). (as_bytes k, as_bytes v)) [(''abc'', ''def''), (''abd'', ''deg'')];
       (r, _) \<leftarrow> SSIteratorIter_next TestSSIter_methods (TestSSIter_new v);
       assert_eq r (Some (as_bytes ''abc'', as_bytes ''def''))
     }"

definition test_test_util_ssiter_properties :: "unit run" where
  "test_test_util_ssiter_properties =
     test_iterator_properties TestSSIter_methods
       (TestSSIter_new (map (\<lambda>(k, v). (as_bytes k, as_bytes v))
         [(''abc'', ''def''), (''abd'', ''deg''), (''abe'', ''deg''), (''abf'', ''deg'')]))"

section \<open>The table builder\<close>

text \<open>\<open>b.add(k, v).unwrap()\<close> on a builder that writes to a vector.\<close>

definition add_unwrap :: "deps \<Rightarrow> bytes \<times> bytes \<Rightarrow> bytes TableBuilder \<Rightarrow> bytes TableBuilder run" where
  "add_unwrap D kv b =
     do { (r, b) \<leftarrow> TableBuilder_add D (vec_write D) b (fst kv) (snd kv); run_unwrap r; Some b }"

definition finish_unwrap :: "deps \<Rightarrow> bytes TableBuilder \<Rightarrow> (usize \<times> bytes) run" where
  "finish_unwrap D b =
     do { (r, b) \<leftarrow> TableBuilder_finish D (vec_write D) b; n \<leftarrow> run_unwrap r; Some (n, tb_dst b) }"

definition builder_data :: "(bytes \<times> bytes) list" where
  "builder_data = map (\<lambda>(k, v). (as_bytes k, as_bytes v))
     [(''abc'', ''def''), (''abe'', ''dee''), (''bcd'', ''asa''), (''dcc'', ''a00'')]"

definition builder_data2 :: "(bytes \<times> bytes) list" where
  "builder_data2 = map (\<lambda>(k, v). (as_bytes k, as_bytes v))
     [(''abd'', ''def''), (''abf'', ''dee''), (''ccd'', ''asa''), (''dcd'', ''a00'')]"

definition test_table_builder :: "deps \<Rightarrow> unit run" where
  "test_table_builder D =
     do {
       let opt = (Options_default D)\<lparr>block_restart_interval := 3, compression_type := CompressionSnappy\<rparr>;
       b \<leftarrow> fold_run (\<lambda>i b.
         do {
           kv \<leftarrow> vec_index builder_data i;
           b \<leftarrow> add_unwrap D kv b;
           kv \<leftarrow> vec_index builder_data2 i;
           add_unwrap D kv b
         }) [0..<length builder_data] (TableBuilder_new opt []);
       assert_eq 143 (TableBuilder_size_estimate b);
       rassert (tb_filter_block b \<noteq> None);
       (actual, d) \<leftarrow> finish_unwrap D b;
       rassert (d \<noteq> []);
       assert_eq (length d) actual
     }"

definition test_bad_input :: "deps \<Rightarrow> unit run" where
  "test_bad_input D =
     should_panic (do {
       let opt = (Options_default D)\<lparr>block_restart_interval := 3\<rparr>;
       let data = map (\<lambda>(k, v). (as_bytes k, as_bytes v))
         [(''abc'', ''def''), (''abc'', ''dee''), (''bcd'', ''asa''), (''bsr'', ''a00'')];
       b \<leftarrow> fold_run (add_unwrap D) data (TableBuilder_new opt []);
       finish_unwrap D b
     })"

subsection \<open>The tests pass\<close>

lemma blockhandle_test:
  assumes D: "integer_codec D"
  shows "test_blockhandle D = Some ()"
proof -
  let ?h = "BlockHandle_new 890 777"
  have h: "handle_ok ?h" by (simp add: handle_ok_def)
  then have "length (handle_bytes D ?h) \<le> 20" by (rule integer_codec.handle_bytes_max [OF D])
  then show ?thesis
    using h by (simp add: test_blockhandle_def integer_codec.encode_to_eq [OF D] integer_codec.decode_handle_bytes [OF D]
        rassert_def Let_def)
qed

lemma footer_test:
  assumes D: "integer_codec D"
  shows "test_footer D = Some ()"
proof -
  have "footer_ok (Footer_new (BlockHandle_new 44 4) (BlockHandle_new 55 5))"
    by (simp add: footer_ok_def handle_ok_def Footer_new_def)
  then show ?thesis
    by (simp add: test_footer_def integer_codec.Footer_encode_eq [OF D] integer_codec.Footer_decode_eq [OF D]
        rassert_def Let_def) (simp add: Footer_new_def)
qed

lemma test_util_basic_test: "test_test_util_basic = Some ()"
  by (simp add: test_test_util_basic_def SSIteratorIter_next_def SSIterator_next_def test_iter_defs TestSSIter_new_def
      usize_sub_def vec_index_def test_eval)

lemma test_util_properties_test: "test_test_util_ssiter_properties = Some ()"
  unfolding test_test_util_ssiter_properties_def
  by (rule test_iter_passes) (simp_all add: ascending_def DefaultCmp_def as_bytes_def)

lemmas table_builder_eval = add_unwrap_def TableBuilder_new_def TableBuilder_add_def TableBuilder_add_entry_def
  tb_try_def run_unwrap_def FilterBlockBuilder_new_def FilterBlockBuilder_add_key_def
  builder_eval usize_add_def BLOCK_MAX_SIZE_def KB_def

lemma bad_input_test: "test_bad_input reference_deps = Some ()"
  by (simp add: test_bad_input_def table_builder_eval test_eval cong: eval_cong)

lemma add_unwrap_all:
  "fold_run (add_unwrap D) kvs b =
     do { (r, b) \<leftarrow> TableBuilder_add_all D (vec_write D) b kvs; run_unwrap r; Some b }"
proof (induction kvs arbitrary: b)
  case (Cons kv kvs)
  obtain k v where "kv = (k, v)" by (cases kv)
  with Cons show ?case
    by (cases "TableBuilder_add D (vec_write D) b k v")
      (auto simp: add_unwrap_def tb_try_def run_unwrap_def split: sum.split)
qed (simp add: run_unwrap_def)

definition eight_kvs :: "(bytes \<times> bytes) list" where
  "eight_kvs = map (\<lambda>(k, v). (as_bytes k, as_bytes v))
     [(''abc'', ''def''), (''abd'', ''def''), (''abe'', ''dee''), (''abf'', ''dee''),
      (''bcd'', ''asa''), (''ccd'', ''asa''), (''dcc'', ''a00''), (''dcd'', ''a00'')]"

abbreviation snappy_opt :: "deps \<Rightarrow> Options" where
  "snappy_opt D \<equiv> (Options_default D)\<lparr>block_restart_interval := 3, compression_type := CompressionSnappy\<rparr>"

lemma eight_fits: "table_fits (snappy_opt D) eight_kvs"
  by (rule bloom_fits [of _ D 10])
    (simp_all add: table_options_def table_size_bound_def BloomPolicy_new_def eight_kvs_def as_bytes_def
      ascending_def DefaultCmp_def entry_weight_def)

lemma eight_estimate:
  "do {
     b \<leftarrow> fold_run (add_unwrap reference_deps) eight_kvs (TableBuilder_new (snappy_opt reference_deps) []);
     rassert (143 = TableBuilder_size_estimate b);
     rassert (tb_filter_block b \<noteq> None)
   } = Some ()"
  by (simp add: eight_kvs_def table_builder_eval TableBuilder_size_estimate_def FilterBlockBuilder_size_estimate_def
      footer_consts test_eval cong: eval_cong)

lemma interleaved:
  "fold_run (\<lambda>i b.
     do {
       kv \<leftarrow> vec_index builder_data i;
       b \<leftarrow> add_unwrap D kv b;
       kv \<leftarrow> vec_index builder_data2 i;
       add_unwrap D kv b
     }) [0..<length builder_data] b = fold_run (add_unwrap D) eight_kvs b"
  by (simp add: builder_data_def builder_data2_def eight_kvs_def vec_index_def upt_rec cong: bind_option_cong)

lemma build_unwrap:
  assumes "build_table D (vec_write D) opt [] kvs = Some (Inr (length tbl), self)" "tb_dst self = tbl"
    and "fold_run (add_unwrap D) kvs (TableBuilder_new opt []) = Some b"
  shows "finish_unwrap D b = Some (length tbl, tbl)"
proof -
  obtain r where "TableBuilder_add_all D (vec_write D) (TableBuilder_new opt []) kvs = Some (r, b)"
    "run_unwrap r \<noteq> None"
    using assms(3) by (auto simp: add_unwrap_all bind_eq_Some_conv)
  then have add: "TableBuilder_add_all D (vec_write D) (TableBuilder_new opt []) kvs = Some (Inr (), b)"
    by (cases r) (auto simp: run_unwrap_def)
  with assms(1,2) show ?thesis by (simp add: build_table_def tb_try_def finish_unwrap_def run_unwrap_def)
qed

lemma tests_build:
  assumes D: "third_party_laws D" and opt: "opt_cmp opt = DefaultCmp" and fits: "table_fits opt kvs"
  obtains b tbl where "fold_run (add_unwrap D) kvs (TableBuilder_new opt []) = Some b"
    "finish_unwrap D b = Some (length tbl, tbl)" "build_file D opt kvs = Some (Inr tbl)" "tbl \<noteq> []"
proof -
  have C: "short_comparator (opt_cmp opt)" using opt default_cmp.short_comparator_axioms by simp
  have "table_input opt kvs" using fits by (simp add: table_fits_def)
  from table_env.build_table_file [OF vec_table_envI [OF D C] refl this, of "[]"] obtain self blocks where
    t: "build_table D (vec_write D) opt [] kvs = Some (Inr (length (tb_dst self)), self)"
      "table_exact D opt (tb_dst self) blocks" by auto
  then obtain b where "TableBuilder_add_all D (vec_write D) (TableBuilder_new opt []) kvs = Some (Inr (), b)"
    by (auto simp: build_table_def tb_try_def split: option.splits sum.splits)
  then have b: "fold_run (add_unwrap D) kvs (TableBuilder_new opt []) = Some b"
    by (simp add: add_unwrap_all run_unwrap_def)
  from table_exact_file [OF t(2)] obtain body ft where "tb_dst self = body @ footer_bytes D ft" "footer_ok ft"
    by (auto simp: table_file_def table_tail_def)
  then have "tb_dst self \<noteq> []"
    using integer_codec.footer_bytes_length [OF third_party_laws.axioms(1) [OF D], of ft] by auto
  with that [OF b build_unwrap [OF t(1) refl b]] t(1) show thesis by (simp add: build_file_def)
qed

lemma table_builder_test: "test_table_builder reference_deps = Some ()"
proof -
  let ?D = reference_deps
  obtain b tbl where b: "fold_run (add_unwrap ?D) eight_kvs (TableBuilder_new (snappy_opt ?D) []) = Some b"
    "finish_unwrap ?D b = Some (length tbl, tbl)" "tbl \<noteq> []"
    by (rule tests_build [OF ref_deps.third_party_laws_axioms _ eight_fits]) simp_all
  then have "143 = TableBuilder_size_estimate b" "tb_filter_block b \<noteq> None"
    using eight_estimate by (auto simp: rassert_def split: if_splits)
  with b show ?thesis
    unfolding test_table_builder_def interleaved Let_def by (simp add: rassert_def)
qed

end
