(* ===== verification/SST_CacheTests.thy ===== *)
theory SST_CacheTests
  imports SST_UnitTests
begin

text \<open>
  The unit tests of \<open>src/cache.rs\<close> as runs of the model, from the empty list or cache.
\<close>

section \<open>The list\<close>

definition test_blockcache_lru_remove :: "unit run" where
  "test_blockcache_lru_remove =
     do {
       let lru = (LRUList_new :: usize LRUList);
       (h_56, lru) \<leftarrow> LRUList_insert lru 56;
       (_, lru) \<leftarrow> LRUList_insert lru 22;
       (_, lru) \<leftarrow> LRUList_insert lru 223;
       (h_244, lru) \<leftarrow> LRUList_insert lru 244;
       (_, lru) \<leftarrow> LRUList_insert lru 1111;
       (h_12, lru) \<leftarrow> LRUList_insert lru 12;
       assert_eq (LRUList_count lru) 6;
       (d, lru) \<leftarrow> LRUList_remove lru h_244;
       assert_eq 244 d;
       assert_eq (LRUList_count lru) 5;
       (d, lru) \<leftarrow> LRUList_remove lru h_12;
       assert_eq 12 d;
       assert_eq (LRUList_count lru) 4;
       (d, lru) \<leftarrow> LRUList_remove lru h_56;
       assert_eq 56 d;
       assert_eq (LRUList_count lru) 3
     }"

definition test_blockcache_lru_1 :: "unit run" where
  "test_blockcache_lru_1 =
     do {
       let lru = (LRUList_new :: usize LRUList);
       (_, lru) \<leftarrow> LRUList_insert lru 56;
       (_, lru) \<leftarrow> LRUList_insert lru 22;
       (_, lru) \<leftarrow> LRUList_insert lru 244;
       (_, lru) \<leftarrow> LRUList_insert lru 12;
       assert_eq (LRUList_count lru) 4;
       (d, lru) \<leftarrow> LRUList_remove_last lru;
       assert_eq (Some 56) d;
       (d, lru) \<leftarrow> LRUList_remove_last lru;
       assert_eq (Some 22) d;
       (d, lru) \<leftarrow> LRUList_remove_last lru;
       assert_eq (Some 244) d;
       assert_eq (LRUList_count lru) 1;
       (d, lru) \<leftarrow> LRUList_remove_last lru;
       assert_eq (Some 12) d;
       assert_eq (LRUList_count lru) 0;
       (d, lru) \<leftarrow> LRUList_remove_last lru;
       assert_eq None d
     }"

text \<open>\<open>lru.reinsert_front(handle)\<close>, and the element that is then at the front.\<close>

definition reinsert_expecting :: "lru_ptr \<Rightarrow> 'a \<Rightarrow> 'a LRUList \<Rightarrow> 'a LRUList run" where
  "reinsert_expecting handle x lru =
     do {
       lru \<leftarrow> LRUList_reinsert_front lru handle;
       e \<leftarrow> LRUList_testing_head_ref lru;
       assert_eq e (Some x);
       Some lru
     }"

definition test_blockcache_lru_reinsert :: "unit run" where
  "test_blockcache_lru_reinsert =
     do {
       let lru = (LRUList_new :: usize LRUList);
       (handle1, lru) \<leftarrow> LRUList_insert lru 56;
       (handle2, lru) \<leftarrow> LRUList_insert lru 22;
       (handle3, lru) \<leftarrow> LRUList_insert lru 244;
       e \<leftarrow> LRUList_testing_head_ref lru;
       assert_eq e (Some 244);
       lru \<leftarrow> reinsert_expecting handle1 56 lru;
       lru \<leftarrow> reinsert_expecting handle3 244 lru;
       lru \<leftarrow> reinsert_expecting handle2 22 lru;
       (d, lru) \<leftarrow> LRUList_remove_last lru;
       assert_eq d (Some 56);
       (d, lru) \<leftarrow> LRUList_remove_last lru;
       assert_eq d (Some 244);
       (d, lru) \<leftarrow> LRUList_remove_last lru;
       assert_eq d (Some 22)
     }"

definition test_blockcache_lru_reinsert_2 :: "unit run" where
  "test_blockcache_lru_reinsert_2 =
     do {
       (handles, lru) \<leftarrow> fold_run (\<lambda>x (handles, lru).
         do { (h, lru) \<leftarrow> LRUList_insert lru x; Some (handles @ [h], lru) }) [0..<9] ([], LRUList_new);
       lru \<leftarrow> fold_run (\<lambda>i lru. do { h \<leftarrow> vec_index handles i; reinsert_expecting h i lru }) [0..<9] lru;
       Some ()
     }"

definition test_blockcache_lru_edge_cases :: "unit run" where
  "test_blockcache_lru_edge_cases =
     do {
       let lru = (LRUList_new :: usize LRUList);
       (handle, lru) \<leftarrow> LRUList_insert lru 3;
       lru \<leftarrow> reinsert_expecting handle 3 lru;
       (d, lru) \<leftarrow> LRUList_remove_last lru;
       assert_eq d (Some 3);
       (d, lru) \<leftarrow> LRUList_remove_last lru;
       assert_eq d None;
       (d, lru) \<leftarrow> LRUList_remove_last lru;
       assert_eq d None
     }"

lemmas lru_eval = LRUList_new_def LRUList_insert_def LRUList_remove_last_def LRUList_remove_def
  LRUList_reinsert_front_def LRUList_count_def LRUList_testing_head_ref_def reinsert_expecting_def
  deref_def set_next_def set_prev_def set_data_def swap_next_def swap_prev_def drop_box.simps
  usize_add_def usize_sub_def vec_index_def

lemma lru_edge_cases_test: "test_blockcache_lru_edge_cases = Some ()"
  by (simp add: test_blockcache_lru_edge_cases_def lru_eval test_eval cong: eval_cong)

lemma lru_remove_test: "test_blockcache_lru_remove = Some ()"
  by (simp add: test_blockcache_lru_remove_def lru_eval test_eval cong: eval_cong)

lemma lru_1_test: "test_blockcache_lru_1 = Some ()"
  by (simp add: test_blockcache_lru_1_def lru_eval test_eval cong: eval_cong)

lemma lru_reinsert_test: "test_blockcache_lru_reinsert = Some ()"
  by (simp add: test_blockcache_lru_reinsert_def lru_eval test_eval cong: eval_cong)

lemma lru_reinsert_2_test: "test_blockcache_lru_reinsert_2 = Some ()"
  by (simp add: test_blockcache_lru_reinsert_2_def lru_eval upt_rec test_eval cong: eval_cong)

section \<open>The cache\<close>

definition make_key :: "u8 \<Rightarrow> u8 \<Rightarrow> u8 \<Rightarrow> CacheKey" where
  "make_key a b c = [a, b, c, 0, 0, 0, 0, 0, 0, 0, 0, 0, 0, 0, 0, 0]"

text \<open>The beginning of both tests, the five keys being \<open>h_123\<close>, \<open>h_332\<close>, \<open>h_521\<close>, \<open>h_372\<close> and \<open>h_899\<close>.\<close>

definition five_inserts :: "nat Cache \<Rightarrow> nat Cache run" where
  "five_inserts cache =
     do {
       cache \<leftarrow> Cache_insert cache (make_key 1 2 3) 123;
       cache \<leftarrow> Cache_insert cache (make_key 6 3 1) 332;
       cache \<leftarrow> Cache_insert cache (make_key 1 2 4) 521;
       cache \<leftarrow> Cache_insert cache (make_key 3 4 5) 372;
       Cache_insert cache (make_key 8 2 1) 899
     }"

definition get_expecting :: "CacheKey \<Rightarrow> nat option \<Rightarrow> nat Cache \<Rightarrow> nat Cache run" where
  "get_expecting key want cache =
     do { (r, cache) \<leftarrow> Cache_get cache key; assert_eq r want; Some cache }"

definition test_blockcache_cache_add_rm :: "unit run" where
  "test_blockcache_cache_add_rm =
     do {
       let h_123 = make_key 1 2 3;
       let h_521 = make_key 1 2 4;
       let h_372 = make_key 3 4 5;
       cache \<leftarrow> Cache_new 128;
       cache \<leftarrow> five_inserts cache;
       assert_eq (Cache_count cache) 5;
       cache \<leftarrow> get_expecting h_123 (Some 123) cache;
       cache \<leftarrow> get_expecting h_372 (Some 372) cache;
       (r, cache) \<leftarrow> Cache_remove cache h_521;
       assert_eq r (Some 521);
       cache \<leftarrow> get_expecting h_521 None cache;
       (r, cache) \<leftarrow> Cache_remove cache h_521;
       assert_eq r None;
       assert_eq (Cache_count cache) 4
     }"

definition test_blockcache_cache_capacity :: "unit run" where
  "test_blockcache_cache_capacity =
     do {
       cache \<leftarrow> Cache_new 3;
       cache \<leftarrow> five_inserts cache;
       assert_eq (Cache_count cache) 3;
       cache \<leftarrow> get_expecting (make_key 1 2 3) None cache;
       cache \<leftarrow> get_expecting (make_key 6 3 1) None cache;
       cache \<leftarrow> get_expecting (make_key 1 2 4) (Some 521) cache;
       cache \<leftarrow> get_expecting (make_key 3 4 5) (Some 372) cache;
       cache \<leftarrow> get_expecting (make_key 8 2 1) (Some 899) cache;
       Some ()
     }"

lemmas cache_eval = make_key_def five_inserts_def get_expecting_def Cache_new_def Cache_insert_def
  Cache_get_def Cache_remove_def Cache_count_def

lemma cache_add_rm_test: "test_blockcache_cache_add_rm = Some ()"
  by (simp add: test_blockcache_cache_add_rm_def cache_eval lru_eval test_eval cong: eval_cong)

lemma cache_capacity_test: "test_blockcache_cache_capacity = Some ()"
  by (simp add: test_blockcache_cache_capacity_def cache_eval lru_eval test_eval cong: eval_cong)

end
