(* ===== verification/SST_ReaderTests.thy ===== *)
theory SST_ReaderTests
  imports SST_TableTests SST_CacheTests
begin

text \<open>
  The unit tests of \<open>src/table_reader.rs\<close> that check what an iterator sees, as runs of the model:
  they write a table with small blocks and compression and open it with the default options. They
  pass with any implementation of the third-party functions that keeps their laws.
\<close>

section \<open>The table under test\<close>

definition build_data :: "(bytes \<times> bytes) list" where
  "build_data = map (\<lambda>(k, v). (as_bytes k, as_bytes v))
     [(''abc'', ''def''), (''abd'', ''dee''), (''bcd'', ''asa''),
      (''bsr'', ''a00''), (''xyz'', ''xxx''), (''xzz'', ''yyy''),
      (''zzz'', ''111'')]"

definition tests_build_table :: "deps \<Rightarrow> (bytes \<times> bytes) list \<Rightarrow> (bytes \<times> usize) run" where
  "tests_build_table D data =
     do {
       let opt = (Options_default D)\<lparr>block_restart_interval := 2, block_size := 32,
                                     compression_type := CompressionSnappy\<rparr>;
       b \<leftarrow> fold_run (add_unwrap D) data (TableBuilder_new opt []);
       (_, d) \<leftarrow> finish_unwrap D b;
       Some (d, length d)
     }"

text \<open>\<open>Table::new(Options::default(), wrap_buffer(src), size).unwrap()\<close> and \<open>table.iter()\<close>.\<close>

definition open_default :: "deps \<Rightarrow> bytes \<Rightarrow> usize \<Rightarrow> (Table \<times> block_cache) run" where
  "open_default D src len =
     do {
       (opt, cache) \<leftarrow> Options_default_block_cache D;
       (r, cache) \<leftarrow> Table_new D opt (BufferBackedFile_read_at src) len cache;
       table \<leftarrow> run_unwrap r;
       Some (table, cache)
     }"

definition iter_under_test :: "deps \<Rightarrow> (bytes \<times> bytes) list \<Rightarrow> table_iter run" where
  "iter_under_test D data =
     do {
       (src, len) \<leftarrow> tests_build_table D data;
       (table, cache) \<leftarrow> open_default D src len;
       iter \<leftarrow> Table_iter D table;
       Some (iter, cache)
     }"

abbreviation table_next :: "deps \<Rightarrow> table_iter \<Rightarrow> ((bytes \<times> bytes) option \<times> table_iter) run" where
  "table_next D \<equiv> SSIterator_next (TableIterator_advance D) TableIterator_current"

section \<open>The tests\<close>

text \<open>
  The loops of \<open>test_table_iterator_fwd_bwd\<close>: forwards, comparing with the data (\<open>check_entries\<close>),
  forwards to an entry, and backwards, counting.
\<close>

partial_function (option) skip_to :: "deps \<Rightarrow> bytes \<Rightarrow> table_iter \<Rightarrow> table_iter run" where
  "skip_to D key iter =
     do {
       (r, iter) \<leftarrow> table_next D iter;
       case r of
         None \<Rightarrow> Some iter
       | Some (k, _) \<Rightarrow> if k = key then Some iter else skip_to D key iter
     }"

declare skip_to.simps [code]

partial_function (option) backwards_count ::
  "deps \<Rightarrow> (bytes \<times> bytes) list \<Rightarrow> usize \<Rightarrow> table_iter \<Rightarrow> usize run" where
  "backwards_count D data j iter =
     do {
       (b, iter) \<leftarrow> TableIterator_prev D iter;
       if \<not> b then Some j
       else do {
         e \<leftarrow> current_key_val TableIterator_current iter;
         case e of
           None \<Rightarrow> Some j
         | Some kv \<Rightarrow>
             do {
               let j = j + 1;
               n \<leftarrow> usize_sub (length data) 1;
               n \<leftarrow> usize_sub n j;
               d \<leftarrow> vec_index data n;
               assert_eq d kv;
               backwards_count D data j iter
             }
       }
     }"

declare backwards_count.simps [code]

definition test_table_iterator_fwd_bwd :: "deps \<Rightarrow> unit run" where
  "test_table_iterator_fwd_bwd D =
     do {
       iter \<leftarrow> iter_under_test D build_data;
       (i, iter) \<leftarrow> check_entries (TableIterator_methods D) build_data 0 iter;
       assert_eq i (length build_data);
       rassert (\<not> TableIterator_valid iter);
       iter \<leftarrow> skip_to D (as_bytes ''zzz'') iter;
       rassert (TableIterator_valid iter);
       j \<leftarrow> backwards_count D build_data 0 iter;
       assert_eq j 6
     }"

definition test_table_iterator_state_behavior :: "deps \<Rightarrow> unit run" where
  "test_table_iterator_state_behavior D =
     do {
       iter \<leftarrow> iter_under_test D build_data;
       rassert (\<not> TableIterator_valid iter);
       e \<leftarrow> current_key_val TableIterator_current iter;
       rassert (e = None);
       (b, iter) \<leftarrow> TableIterator_prev D iter;
       rassert (\<not> b);
       (b, iter) \<leftarrow> TableIterator_advance D iter;
       rassert b;
       first \<leftarrow> current_key_val TableIterator_current iter;
       rassert (TableIterator_valid iter);
       e \<leftarrow> current_key_val TableIterator_current iter;
       rassert (e \<noteq> None);
       (b, iter) \<leftarrow> TableIterator_advance D iter;
       rassert b;
       (b, iter) \<leftarrow> TableIterator_prev D iter;
       rassert b;
       rassert (TableIterator_valid iter);
       let iter = TableIterator_reset iter;
       rassert (\<not> TableIterator_valid iter);
       e \<leftarrow> current_key_val TableIterator_current iter;
       rassert (e = None);
       (r, _) \<leftarrow> table_next D iter;
       assert_eq first r
     }"

definition test_table_iterator_behavior_standard :: "deps \<Rightarrow> unit run" where
  "test_table_iterator_behavior_standard D =
     do {
       iter \<leftarrow> iter_under_test D (vec_truncate build_data 4);
       test_iterator_properties (TableIterator_methods D) iter
     }"

text \<open>The loop of \<open>test_table_iterator_values\<close>: one entry back, two forwards.\<close>

partial_function (option) back_and_forth ::
  "deps \<Rightarrow> (bytes \<times> bytes) list \<Rightarrow> usize \<Rightarrow> table_iter \<Rightarrow> usize run" where
  "back_and_forth D data i iter =
     do {
       (_, iter) \<leftarrow> TableIterator_prev D iter;
       e \<leftarrow> current_key_val TableIterator_current iter;
       case e of
         None \<Rightarrow> Some i
       | Some kv \<Rightarrow>
           do {
             d \<leftarrow> vec_index data i;
             assert_eq d kv;
             let i = i + 1;
             (r, iter) \<leftarrow> table_next D iter;
             if r = None then Some i
             else do {
               (r, iter) \<leftarrow> table_next D iter;
               if r = None then Some i else back_and_forth D data i iter
             }
           }
     }"

declare back_and_forth.simps [code]

definition test_table_iterator_values :: "deps \<Rightarrow> unit run" where
  "test_table_iterator_values D =
     do {
       iter \<leftarrow> iter_under_test D build_data;
       (_, iter) \<leftarrow> table_next D iter;
       (_, iter) \<leftarrow> table_next D iter;
       i \<leftarrow> back_and_forth D build_data 0 iter;
       assert_eq i 6
     }"

definition table_seek_expecting :: "deps \<Rightarrow> string \<Rightarrow> string \<Rightarrow> table_iter \<Rightarrow> table_iter run" where
  "table_seek_expecting D k v iter =
     do {
       iter \<leftarrow> TableIterator_seek D iter (as_bytes k);
       rassert (TableIterator_valid iter);
       e \<leftarrow> current_key_val TableIterator_current iter;
       assert_eq e (Some (as_bytes k, as_bytes v));
       Some iter
     }"

definition test_table_iterator_seek :: "deps \<Rightarrow> unit run" where
  "test_table_iterator_seek D =
     do {
       iter \<leftarrow> iter_under_test D build_data;
       iter \<leftarrow> table_seek_expecting D ''bcd'' ''asa'' iter;
       iter \<leftarrow> table_seek_expecting D ''abc'' ''def'' iter;
       iter \<leftarrow> TableIterator_seek D iter (as_bytes ''{{{'');
       rassert (\<not> TableIterator_valid iter);
       iter \<leftarrow> TableIterator_seek D iter (as_bytes ''bbb'');
       rassert (TableIterator_valid iter)
     }"

section \<open>The iterator under test\<close>

abbreviation build_opt :: "deps \<Rightarrow> Options" where
  "build_opt D \<equiv> (Options_default D)\<lparr>block_restart_interval := 2, block_size := 32,
     compression_type := CompressionSnappy\<rparr>"

lemma build_data_ascending: "ascending DefaultCmp (map fst build_data)"
  by (simp add: build_data_def ascending_def DefaultCmp_def as_bytes_def)

lemma build_data_keys: "\<forall>k \<in> fst ` set build_data. length k = 3"
  by (simp add: build_data_def as_bytes_def)

lemma length_build_data [simp]: "length build_data = 7"
  by (simp add: build_data_def)

lemma build_data_weight: "table_weight build_data < 1000"
  by (simp add: build_data_def as_bytes_def entry_weight_def)

lemma build_data_plain: "\<not> zero_extended build_data"
proof
  assume "zero_extended build_data"
  then obtain k where "k \<in> fst ` set build_data" "k @ [0] \<in> fst ` set build_data"
    by (auto simp: zero_extended_def)
  then have "length k = 3" "length (k @ [0]) = 3" using build_data_keys by blast+
  then show False by simp
qed

lemma take_weight: "table_weight (take n kvs) \<le> table_weight kvs"
  by (metis append_take_drop_id le_add1 table_weight_simps(3))

lemma take_fits: "table_fits (build_opt D) (take n build_data)"
proof (rule bloom_fits [of _ D 10])
  have keys: "\<forall>k \<in> fst ` set (take n build_data). length k = 3"
    using build_data_keys set_take_subset [of n build_data] by blast
  then show "[] \<notin> fst ` set (take n build_data)" "\<forall>k \<in> fst ` set (take n build_data). length k < 2 ^ 32"
    by auto
  have weight: "table_weight (take n build_data) < 1000"
    using take_weight [of n build_data] build_data_weight by linarith
  then show "table_weight (take n build_data) < 2 ^ 30" by simp
  from weight show "table_size_bound (build_opt D) (unat (10 :: u32) + 9) (table_weight (take n build_data)) < 2 ^ 29"
    by (simp add: table_size_bound_def BloomPolicy_new_def)
  have "ascending DefaultCmp (map fst (take n build_data))"
    using build_data_ascending by (simp add: ascending_def take_map [symmetric] sorted_wrt_take)
  then show "ascending (opt_cmp (build_opt D)) (map fst (take n build_data))" by simp
qed (simp_all add: table_options_def BloomPolicy_new_def)

text \<open>Position of the iterator over the table that holds the first \<open>n\<close> entries.\<close>

lemma under_test:
  assumes D: "third_party_laws D"
  obtains t c it blocks where "iter_under_test D (take n build_data) = Some (it, c)" "Table_iter D t = Some it"
    "blocks = table_blocks D (build_opt D) (take n build_data)" "reference_parts D (build_opt D) (take n build_data) t"
    "cache_holds Options_default_cache_capacity 1 c []"
    "opened_with D (Options_default D) Options_default_cache_capacity (take n build_data) blocks t c"
    "table_at D DefaultCmp Options_default_cache_capacity 1 {(t, blocks)} blocks (take n build_data) None (it, c)"
proof -
  let ?cap = Options_default_cache_capacity and ?kvs = "take n build_data"
  have C: "short_comparator (opt_cmp (build_opt D))" "short_comparator (opt_cmp (Options_default D))"
    using default_cmp.short_comparator_axioms by simp_all
  have cap: "0 < ?cap" "?cap < 2 ^ 64"
    by (simp_all add: Options_default_cache_capacity_def BLOCK_CACHE_CAPACITY_def BLOCK_MAX_SIZE_def MB_def KB_def)
  have same: "opt_cmp (Options_default D) = opt_cmp (build_opt D)"
    "opt_filter_policy (Options_default D) = opt_filter_policy (build_opt D)" by simp_all
  obtain b tbl where b: "fold_run (add_unwrap D) ?kvs (TableBuilder_new (build_opt D) []) = Some b"
    "finish_unwrap D b = Some (length tbl, tbl)" "build_file D (build_opt D) ?kvs = Some (Inr tbl)"
    by (rule tests_build [OF D _ take_fits]) simp_all
  from open_written [OF D C(1) take_fits [of D n] cap same] b(3) obtain cache t c blocks where
    t: "Cache_new ?cap = Some cache" "open_file D (Options_default D) tbl cache = Some (Inr t, c)"
      "opened_with D (Options_default D) ?cap ?kvs blocks t c"
      "blocks = table_blocks D (build_opt D) ?kvs" "cache_holds ?cap 1 c []" "reference_parts D (build_opt D) ?kvs t" by auto
  from opened_iter [OF D C(2) t(3)] obtain it where it: "Table_iter D t = Some it"
    "table_at D DefaultCmp ?cap 1 {(t, blocks)} blocks ?kvs None (it, c)" by auto
  have "iter_under_test D ?kvs = Some (it, c)"
    using b(1,2) t(1,2) it(1)
    by (simp add: iter_under_test_def tests_build_table_def open_default_def Options_default_block_cache_def
        open_file_def run_unwrap_def Let_def)
  with that it t(3-6) show thesis by blast
qed

section \<open>The loops of the tests\<close>

declare TableIterator_prev.simps [simp del] TableIterator_advance.simps [simp del]
  TableIterator_current.simps [simp del] TableIterator_seek.simps [simp del]

lemma skip_to_at:
  assumes "\<forall>j < i. fst (es ! j) \<noteq> fst (es ! i)" "i < length es"
  shows "table_at D C cap cid T bs es p it \<Longrightarrow> next_pos p \<le> i \<Longrightarrow>
    \<exists>it'. skip_to D (fst (es ! i)) it = Some it' \<and> table_at D C cap cid T bs es (Some i) it'"
proof (induction "i - next_pos p" arbitrary: p it)
  case 0
  then have "next_pos p = i" by simp
  with table_iterator.next_inside [OF 0(2)] assms(2) show ?case
    by (cases "es ! i") (auto simp: skip_to.simps [of D _ it])
next
  case (Suc n)
  then have less: "next_pos p < i" by simp
  with assms(2) have "next_pos p < length es" by simp
  from table_iterator.next_inside [OF Suc.prems(1) this] obtain it1 where
    it1: "table_next D it = Some (Some (es ! next_pos p), it1)"
      "table_at D C cap cid T bs es (Some (next_pos p)) it1" by blast
  have "n = i - next_pos (Some (next_pos p))" "next_pos (Some (next_pos p)) \<le> i"
    using Suc.hyps(2) less by simp_all
  from Suc.hyps(1) [OF this(1) it1(2) this(2)] show ?case
    using it1(1) assms(1) less by (cases "es ! next_pos p") (auto simp: skip_to.simps [of D _ it])
qed

lemma prev_out_of_table:
  assumes "table_at D DefaultCmp cap cid T bs es (Some 0) it" "\<not> zero_extended es"
  shows "\<exists>it'. TableIterator_prev D it = Some (False, it')"
  using table_seeks.prev_out [OF conjI [OF assms]] by blast

lemma backwards_count_at:
  assumes zero: "\<not> zero_extended es"
  shows "table_at D DefaultCmp cap cid T bs es (Some n) it \<Longrightarrow> n + j = length es - 1 \<Longrightarrow>
    backwards_count D es j it = Some (length es - 1)"
proof (induction n arbitrary: j it)
  case 0
  from prev_out_of_table [OF 0(1) zero] 0(2) show ?case
    by (auto simp: backwards_count.simps [of D _ _ it])
next
  case (Suc n)
  from prev_step [OF Suc.prems(1)] obtain it1 where
    it1: "TableIterator_prev D it = Some (True, it1)" "table_at D DefaultCmp cap cid T bs es (Some n) it1" by blast
  have j: "length es - Suc (Suc j) = n" "n + Suc j = length es - 1" "n < length es" "Suc j \<le> length es - 1"
    using Suc.prems(2) by auto
  show ?case
    using Suc.IH [OF it1(2) j(2)] it1(1) table_iterator.current_key_val_at [OF it1(2)] j(1,3,4)
    by (simp add: backwards_count.simps [of D _ _ it] usize_sub_def vec_index_def rassert_def)
qed

lemma back_and_forth_at:
  "table_at D C cap cid T bs es (Some (Suc i)) it \<Longrightarrow> back_and_forth D es i it = Some (length es - 1)"
proof (induction "length es - i" arbitrary: i it)
  case 0
  have "Suc i < length es" using table_iterator.at_bounds [OF 0(2)] .
  with 0(1) show ?case by simp
next
  case (Suc n)
  have i: "Suc i < length es" using table_iterator.at_bounds [OF Suc.prems] .
  obtain it1 where it1: "TableIterator_prev D it = Some (True, it1)" "table_at D C cap cid T bs es (Some i) it1"
    using prev_step [OF Suc.prems] by blast
  obtain it2 where it2: "table_next D it1 = Some (Some (es ! Suc i), it2)" "table_at D C cap cid T bs es (Some (Suc i)) it2"
    using table_iterator.next_inside [OF it1(2)] i by auto
  note step = it1(1) it2(1) table_iterator.current_key_val_at [OF it1(2)]
  show ?case
  proof (cases "Suc (Suc i) < length es")
    case True
    with table_iterator.next_inside [OF it2(2)] obtain it3 where
      it3: "table_next D it2 = Some (Some (es ! Suc (Suc i)), it3)" "table_at D C cap cid T bs es (Some (Suc (Suc i))) it3"
      by auto
    have "n = length es - Suc i" using Suc.hyps(2) by simp
    from Suc.hyps(1) [OF this it3(2)] show ?thesis
      using step it3(1) i by (simp add: back_and_forth.simps [of D _ _ it] vec_index_def rassert_def)
  next
    case False
    with table_iterator.next_end [OF it2(2)] obtain it3 where "table_next D it2 = Some (None, it3)" by auto
    moreover from False i have "length es = Suc (Suc i)" by simp
    ultimately show ?thesis
      using step by (simp add: back_and_forth.simps [of D _ _ it] vec_index_def rassert_def)
  qed
qed

section \<open>The tests pass\<close>

lemma under_test_all:
  assumes "third_party_laws D"
  obtains cap t c it blocks where "iter_under_test D build_data = Some (it, c)" "Table_iter D t = Some it"
    "opened_with D (Options_default D) cap build_data blocks t c"
    "table_at D DefaultCmp cap 1 {(t, blocks)} blocks build_data None (it, c)"
  by (rule under_test [OF assms, of 7, simplified]) (rule that)

lemma build_data_nth:
  "build_data ! 0 = (as_bytes ''abc'', as_bytes ''def'')" "build_data ! 2 = (as_bytes ''bcd'', as_bytes ''asa'')"
  "build_data ! 6 = (as_bytes ''zzz'', as_bytes ''111'')"
  by (simp_all add: build_data_def)

lemma build_data_distinct: "\<forall>j < 6. fst (build_data ! j) \<noteq> fst (build_data ! 6)"
proof (intro allI impI)
  fix j :: nat assume "j < 6"
  then have "cmp DefaultCmp (fst (build_data ! j)) (fst (build_data ! 6)) = Less"
    using build_data_ascending sorted_wrt_nth_less [of _ "map fst build_data" j 6] by (simp add: ascending_def)
  then show "fst (build_data ! j) \<noteq> fst (build_data ! 6)" using default_cmp.cmp_less_irrefl by auto
qed

lemma fwd_bwd_test:
  assumes D: "third_party_laws D"
  shows "test_table_iterator_fwd_bwd D = Some ()"
proof -
  obtain cap t c it blocks where it: "iter_under_test D build_data = Some (it, c)"
    "table_at D DefaultCmp cap 1 {(t, blocks)} blocks build_data None (it, c)" by (rule under_test_all [OF D])
  let ?at = "table_at D DefaultCmp cap 1 {(t, blocks)} blocks build_data"
  obtain it1 where it1: "check_entries (TableIterator_methods D) build_data 0 (it, c) = Some (7, it1)" "?at None it1"
    using table_seeks.check_entries_at [OF conjI [OF it(2) build_data_plain]]
    by (auto simp: TableIterator_methods_def)
  obtain it2 where it2: "skip_to D (as_bytes ''zzz'') it1 = Some it2" "?at (Some 6) it2"
    using skip_to_at [OF build_data_distinct _ it1(2)] by (auto simp: build_data_nth)
  have "backwards_count D build_data 0 it2 = Some 6"
    using backwards_count_at [OF build_data_plain it2(2), of 0] by simp
  then show ?thesis
    using table_iterator.valid_iff [OF it1(2)] table_iterator.valid_iff [OF it2(2)]
    by (simp add: test_table_iterator_fwd_bwd_def it(1) it1(1) it2(1) rassert_def)
qed

lemma behavior_standard_test:
  assumes D: "third_party_laws D"
  shows "test_table_iterator_behavior_standard D = Some ()"
proof -
  obtain t c it blocks where it: "iter_under_test D (take 4 build_data) = Some (it, c)"
    "table_at D DefaultCmp Options_default_cache_capacity 1 {(t, blocks)} blocks (take 4 build_data) None (it, c)"
    by (rule under_test [OF D])
  have "\<not> zero_extended (take 4 build_data)"
    using build_data_plain by (auto simp: zero_extended_def dest: in_set_takeD)
  from table_seeks.passes_test [OF conjI [OF it(2) this]] it(1) show ?thesis
    by (simp add: test_table_iterator_behavior_standard_def vec_truncate_def TableIterator_methods_def)
qed

lemma values_test:
  assumes D: "third_party_laws D"
  shows "test_table_iterator_values D = Some ()"
proof -
  obtain cap t c it blocks where it: "iter_under_test D build_data = Some (it, c)"
    "table_at D DefaultCmp cap 1 {(t, blocks)} blocks build_data None (it, c)" by (rule under_test_all [OF D])
  let ?at = "table_at D DefaultCmp cap 1 {(t, blocks)} blocks build_data"
  obtain it1 where it1: "table_next D (it, c) = Some (Some (build_data ! 0), it1)" "?at (Some 0) it1"
    using table_iterator.next_inside [OF it(2)] by auto
  obtain it2 where it2: "table_next D it1 = Some (Some (build_data ! 1), it2)" "?at (Some (Suc 0)) it2"
    using table_iterator.next_inside [OF it1(2)] by auto
  from back_and_forth_at [OF it2(2)] show ?thesis
    by (simp add: test_table_iterator_values_def it(1) it1(1) it2(1) rassert_def)
qed

text \<open>\<open>prev\<close> on an iterator that has not moved yet.\<close>

lemma fresh_prev:
  assumes it: "Table_iter D t = Some it" and at: "table_at D C cap cid T blocks es None (it, c)"
  shows "\<exists>it'. TableIterator_prev D (it, c) = Some (False, it', c) \<and> table_at D C cap cid T blocks es None (it', c)"
proof -
  obtain ix where ix: "Block_iter D (tab_index_block t) = Some ix"
    "it = \<lparr>ti_table = t, ti_current_block = None, ti_current_block_off = 0, ti_index_block = ix\<rparr>"
    using it by (auto simp: Table_iter_def bind_eq_Some_conv)
  then have "bi_current_entry_offset ix = 0"
    by (auto simp: Block_iter_def bind_eq_Some_conv Let_def)
  then have "BlockIter_prev D ix = Some (False, BlockIter_reset ix)" by (simp add: BlockIter_prev_def)
  then have "TableIterator_prev D (it, c) = Some (False, it\<lparr>ti_index_block := BlockIter_reset ix\<rparr>, c)"
    by (simp add: TableIterator_prev.simps ix(2))
  moreover have "table_at D C cap cid T blocks es None (it\<lparr>ti_index_block := BlockIter_reset ix\<rparr>, c)"
    using at by (auto simp: table_at_none before_blocks_def ix(2) intro: block_at_reset)
  ultimately show ?thesis by blast
qed

lemma state_behavior_test:
  assumes D: "third_party_laws D"
  shows "test_table_iterator_state_behavior D = Some ()"
proof -
  obtain cap t c it0 blocks where it0: "iter_under_test D build_data = Some (it0, c)" "Table_iter D t = Some it0"
    "table_at D DefaultCmp cap 1 {(t, blocks)} blocks build_data None (it0, c)" by (rule under_test_all [OF D])
  let ?at = "table_at D DefaultCmp cap 1 {(t, blocks)} blocks build_data"
  obtain it where it: "TableIterator_prev D (it0, c) = Some (False, it, c)" "?at None (it, c)"
    using fresh_prev [OF it0(2,3)] by blast
  obtain it1 where it1: "TableIterator_advance D (it, c) = Some (True, it1)" "?at (Some 0) it1"
    using table_iterator.advance_inside [OF it(2)] by auto
  obtain it2 where it2: "TableIterator_advance D it1 = Some (True, it2)" "?at (Some (Suc 0)) it2"
    using table_iterator.advance_inside [OF it1(2)] by auto
  obtain it3 where it3: "TableIterator_prev D it2 = Some (True, it3)" "?at (Some 0) it3"
    using prev_step [OF it2(2)] by blast
  have it4: "?at None (TableIterator_reset it3)" by (rule table_iterator.at_reset [OF it3(2)])
  obtain it5 where it5: "table_next D (TableIterator_reset it3) = Some (Some (build_data ! 0), it5)"
    using table_iterator.next_inside [OF it4] by auto
  note at = it0(3) it(2) it1(2) it2(2) it3(2) it4
  note valids = at [THEN table_iterator.valid_iff] and currents = at [THEN current_step]
  show ?thesis
    by (simp add: test_table_iterator_state_behavior_def it0(1) it(1) it1(1) it2(1) it3(1) it5 valids currents
        rassert_def Let_def del: TableIterator_valid.simps TableIterator_reset.simps)
qed

text \<open>An iterator from which a seek is well defined, also after a seek that fell into a gap.\<close>

definition seekable ::
  "deps \<Rightarrow> Cmp \<Rightarrow> nat \<Rightarrow> u64 \<Rightarrow> opened set \<Rightarrow> data_block list \<Rightarrow> table_iter \<Rightarrow> bool" where
  "seekable D C cap cid T blocks it \<longleftrightarrow>
     reading D C cap cid T blocks (ti_table (fst it)) (snd it) \<and>
     (\<exists>q. block_at D C (index_entries D blocks) q (ti_index_block (fst it)))"

lemma table_at_seekable: "table_at D C cap cid T blocks es p it \<Longrightarrow> seekable D C cap cid T blocks it"
  using table_at_index [of D C cap cid T blocks es p "fst it" "snd it"] by (simp add: seekable_def)

lemma seekable_seek:
  assumes "seekable D C cap cid T blocks it" "\<not> seek_gap C k blocks"
  shows "\<exists>it'. TableIterator_seek D it k = Some it' \<and>
    table_at D C cap cid T blocks (all_entries blocks) (seek_pos C k (all_entries blocks)) it'"
  using assms table_seek [of D C cap cid T blocks "fst it" "snd it"] by (auto simp: seekable_def)

lemma seekable_seek_past:
  assumes it: "seekable D C cap cid T blocks it" and past: "seek_pos C k (all_entries blocks) = None"
  shows "\<exists>it'. TableIterator_seek D it k = Some it' \<and> \<not> TableIterator_valid it' \<and> seekable D C cap cid T blocks it'"
proof (cases "seek_gap C k blocks")
  case True
  obtain q where "reading D C cap cid T blocks (ti_table (fst it)) (snd it)"
    "block_at D C (index_entries D blocks) q (ti_index_block (fst it))" using it by (auto simp: seekable_def)
  from table_seek_gap [OF this True] obtain i self' c' where
    s: "TableIterator_seek D it k = Some (self', c')" "\<not> TableIterator_valid (self', c')"
      "reading D C cap cid T blocks (ti_table self') c'" "in_block D C blocks i None self'"
    unfolding prod.collapse by blast
  then have "seekable D C cap cid T blocks (self', c')" by (auto simp: seekable_def in_block_def)
  with s(1,2) show ?thesis by blast
next
  case False
  from seekable_seek [OF it this] past obtain it' where
    "TableIterator_seek D it k = Some it'" "table_at D C cap cid T blocks (all_entries blocks) None it'" by auto
  with table_iterator.valid_iff [OF this(2)] table_at_seekable [OF this(2)] show ?thesis by auto
qed

text \<open>The end of a block and the beginning of the next one are neighbours among all entries.\<close>

lemma block_boundary:
  assumes ne: "\<forall>b \<in> set blocks. db_entries b \<noteq> []" and i: "Suc i < length blocks"
  shows "\<exists>n. Suc n < length (all_entries blocks) \<and>
    all_entries blocks ! n = last (db_entries (blocks ! i)) \<and>
    all_entries blocks ! Suc n = hd (db_entries (blocks ! Suc i))"
proof -
  let ?b = "db_entries (blocks ! i)" and ?b' = "db_entries (blocks ! Suc i)"
  have b: "?b \<noteq> []" "?b' \<noteq> []" using ne i by simp_all
  let ?n = "flat blocks i (length ?b - 1)"
  have "flat blocks (Suc i) 0 = Suc ?n" using i b(1) by (simp add: flat_Suc) (simp add: flat_def)
  with flat_nth [of "Suc i" blocks 0] flat_nth [of i blocks "length ?b - 1"] i b show ?thesis
    by (intro exI [of _ ?n]) (simp add: last_conv_nth hd_conv_nth)
qed

lemma last_entry:
  assumes "\<forall>b \<in> set blocks. db_entries b \<noteq> []" "length blocks = Suc i"
  shows "last (all_entries blocks) = last (db_entries (blocks ! i))"
  using assms by (cases blocks rule: rev_cases) (auto simp: all_entries_def nth_append)

lemma build_data_below:
  assumes "n < 7" "cmp DefaultCmp (fst (build_data ! n)) (as_bytes ''bbb'') = Less"
  shows "n = 0 \<or> n = Suc 0"
proof -
  have "n = 0 \<or> n = 1 \<or> n = 2 \<or> n = 3 \<or> n = 4 \<or> n = 5 \<or> n = 6" using assms(1) by linarith
  then show ?thesis using assms(2) by (elim disjE) (simp_all add: build_data_def as_bytes_def DefaultCmp_def)
qed

lemma build_data_separators:
  "find_shortest_sep DefaultCmp (fst (build_data ! 0)) (fst (build_data ! Suc 0)) = Some (as_bytes ''abc'' @ [0])"
  "find_shortest_sep DefaultCmp (fst (build_data ! Suc 0)) (fst (build_data ! Suc (Suc 0))) = Some (as_bytes ''abd'' @ [0])"
  by (simp_all add: build_data_def as_bytes_def DefaultCmp_def DefaultCmp_find_shortest_sep_def
      sep_common.simps sep_scan.simps)

lemma bbb_no_gap:
  assumes seps: "seps_made DefaultCmp blocks" and ne: "\<forall>b \<in> set blocks. db_entries b \<noteq> []"
    and kvs: "all_entries blocks = build_data"
  shows "\<not> seek_gap DefaultCmp (as_bytes ''bbb'') blocks"
proof
  let ?k = "as_bytes ''bbb''"
  assume "seek_gap DefaultCmp ?k blocks"
  then obtain b where b: "block_of DefaultCmp ?k blocks = Some b" "\<forall>x \<in> db_keys b. cmp DefaultCmp x ?k = Less"
    by (auto simp: seek_gap_def split: option.splits)
  then have mem: "b \<in> set blocks" "cmp DefaultCmp (db_sep b) ?k \<noteq> Less" using block_of_mem by blast+
  then obtain i where i: "i < length blocks" "blocks ! i = b" by (auto simp: in_set_conv_nth)
  have below: "cmp DefaultCmp (fst (last (db_entries b))) ?k = Less" using b(2) ne mem(1) by simp
  show False
  proof (cases "Suc i < length blocks")
    case True
    from block_boundary [OF ne True] obtain n where n: "Suc n < 7" "build_data ! n = last (db_entries b)"
      "build_data ! Suc n = hd (db_entries (blocks ! Suc i))" unfolding kvs i(2) by auto
    then have "n = 0 \<or> n = Suc 0" using build_data_below [of n] below by simp
    moreover have "find_shortest_sep DefaultCmp (fst (build_data ! n)) (fst (build_data ! Suc n)) = Some (db_sep b)"
      using seps True n(2,3) i(2) by (auto simp: seps_made_def sep_made_def)
    ultimately have "db_sep b = as_bytes ''abc'' @ [0] \<or> db_sep b = as_bytes ''abd'' @ [0]"
      using build_data_separators by auto
    with mem(2) show False by (auto simp: as_bytes_def DefaultCmp_def)
  next
    case False
    then have "length blocks = Suc i" using i(1) by simp
    from last_entry [OF ne this] have "last (db_entries b) = last build_data" by (simp add: kvs i(2))
    with below show False by (simp add: build_data_def as_bytes_def DefaultCmp_def)
  qed
qed

lemma table_seek_expecting_at:
  assumes at: "table_at D DefaultCmp cap cid T blocks build_data p it" and i: "i < 7"
    and e: "build_data ! i = (as_bytes k, as_bytes v)"
  shows "\<exists>it'. table_seek_expecting D k v it = Some it' \<and> table_at D DefaultCmp cap cid T blocks build_data (Some i) it'"
proof -
  obtain it' where it': "TableIterator_seek D it (as_bytes k) = Some it'"
    "table_at D DefaultCmp cap cid T blocks build_data (Some i) it'"
    using seek_step_at [OF at build_data_plain, of i] i e by auto
  with table_iterator.valid_iff [OF it'(2)] table_iterator.current_key_val_at [OF it'(2)] e show ?thesis
    by (simp add: table_seek_expecting_def rassert_def del: TableIterator_valid.simps)
qed

lemma seek_test:
  assumes D: "third_party_laws D"
  shows "test_table_iterator_seek D = Some ()"
proof -
  obtain cap t c it blocks where it: "iter_under_test D build_data = Some (it, c)"
    "opened_with D (Options_default D) cap build_data blocks t c"
    "table_at D DefaultCmp cap 1 {(t, blocks)} blocks build_data None (it, c)" by (rule under_test_all [OF D])
  let ?at = "table_at D DefaultCmp cap 1 {(t, blocks)} blocks build_data"
  have blocks: "seps_made DefaultCmp blocks" "\<forall>b \<in> set blocks. db_entries b \<noteq> []" "all_entries blocks = build_data"
    using it(2) by (auto simp: opened_with_def table_view_def data_blocks_def data_ok_def)
  obtain it1 where it1: "table_seek_expecting D ''bcd'' ''asa'' (it, c) = Some it1" "?at (Some 2) it1"
    using table_seek_expecting_at [OF it(3) _ build_data_nth(2)] by auto
  obtain it2 where it2: "table_seek_expecting D ''abc'' ''def'' it1 = Some it2" "?at (Some 0) it2"
    using table_seek_expecting_at [OF it1(2) _ build_data_nth(1)] by auto
  have "seek_pos DefaultCmp (as_bytes ''{{{'') (all_entries blocks) = None"
    by (simp add: blocks(3) seek_pos_def seek_index_def build_data_def as_bytes_def DefaultCmp_def)
  from seekable_seek_past [OF table_at_seekable [OF it2(2)] this] obtain it3 where
    it3: "TableIterator_seek D it2 (as_bytes ''{{{'') = Some it3" "\<not> TableIterator_valid it3"
      "seekable D DefaultCmp cap 1 {(t, blocks)} blocks it3" by blast
  have "seek_pos DefaultCmp (as_bytes ''bbb'') (all_entries blocks) = Some 2"
    by (simp add: blocks(3) seek_pos_def seek_index_def build_data_def as_bytes_def DefaultCmp_def)
  with seekable_seek [OF it3(3) bbb_no_gap [OF blocks]] obtain it4 where
    it4: "TableIterator_seek D it3 (as_bytes ''bbb'') = Some it4" "?at (Some 2) it4"
    by (auto simp: blocks(3))
  show ?thesis
    using it3(2) table_iterator.valid_iff [OF it4(2)]
    by (simp add: test_table_iterator_seek_def it(1) it1(1) it2(1) it3(1) it4(1) rassert_def
        del: TableIterator_valid.simps)
qed

section \<open>Properties\<close>

text \<open>The tests of comparators, filters, filter blocks, the cache, the vector iterator and the builders
  pass; those that expect certain bytes, with the reference instance of the third-party functions.\<close>

lemma reference_unit_tests_pass:
  "test_cmp_defaultcmp_shortest_sep = Some () \<and> test_cmp_defaultcmp_short_succ = Some () \<and>
   test_filter_bloom reference_deps = Some () \<and> test_filter_bloom_hash reference_deps = Some () \<and>
   test_filter_index = Some () \<and> test_filter_block_builder reference_deps = Some () \<and>
   test_filter_block_build_read reference_deps = Some () \<and>
   test_blockcache_cache_add_rm = Some () \<and> test_blockcache_cache_capacity = Some () \<and>
   test_blockcache_lru_remove = Some () \<and> test_blockcache_lru_1 = Some () \<and>
   test_blockcache_lru_reinsert = Some () \<and> test_blockcache_lru_reinsert_2 = Some () \<and>
   test_blockcache_lru_edge_cases = Some () \<and>
   test_test_util_basic = Some () \<and> test_test_util_ssiter_properties = Some () \<and>
   test_block_builder_sanity reference_deps = Some () \<and> test_block_builder_panics reference_deps = Some () \<and>
   test_block_empty reference_deps = Some () \<and>
   test_table_builder reference_deps = Some () \<and> test_bad_input reference_deps = Some ()"
  by (intro conjI shortest_sep_test short_succ_test bloom_test bloom_hash_test filter_index_test
      filter_block_builder_test filter_block_build_read_test cache_add_rm_test cache_capacity_test
      lru_remove_test lru_1_test lru_reinsert_test lru_reinsert_2_test lru_edge_cases_test
      test_util_basic_test test_util_properties_test block_builder_sanity_test block_builder_panics_test
      block_empty_test table_builder_test bad_input_test)

text \<open>C28: The tests of block iterators, block handles, footers and table iterators pass with any third-party
  functions that keep their laws. The last five write a table with small compressed blocks and read it
  with the default options.\<close>

theorem iterator_unit_tests_pass:
  assumes "third_party_laws D"
  shows "test_block_iterator_properties D = Some () \<and> test_block_build_iterate D = Some () \<and>
    test_block_iterate_reverse D = Some () \<and> test_block_seek D = Some () \<and> test_block_seek_to_last D = Some () \<and>
    test_blockhandle D = Some () \<and> test_footer D = Some () \<and>
    test_table_iterator_fwd_bwd D = Some () \<and> test_table_iterator_state_behavior D = Some () \<and>
    test_table_iterator_behavior_standard D = Some () \<and> test_table_iterator_values D = Some () \<and>
    test_table_iterator_seek D = Some ()"
  using assms third_party_laws.axioms(1) [OF assms]
  by (intro conjI block_iterator_properties_test block_build_iterate_test block_iterate_reverse_test
      block_seek_test block_seek_to_last_test blockhandle_test footer_test
      fwd_bwd_test state_behavior_test behavior_standard_test values_test seek_test)

theorem iterator_unit_tests_pass_witness:
  "test_block_iterate_reverse reference_deps = Some () \<and> test_table_iterator_fwd_bwd reference_deps = Some () \<and>
   test_table_iterator_seek reference_deps = Some ()"
  using iterator_unit_tests_pass [OF ref_deps.third_party_laws_axioms] by simp

end
