(* ===== verification/SST_CacheUse.thy ===== *)
theory SST_CacheUse
  imports SST_TableThms
begin

text \<open>
  The block cache while a table is iterated over: every data block is read through the cache once,
  when the iterator enters it, and the cache then holds the blocks entered last, the most recent
  one first, as many as it has room for.
\<close>

section \<open>The cache after some blocks were entered\<close>

definition block_key :: "deps \<Rightarrow> Table \<Rightarrow> data_block \<Rightarrow> CacheKey" where
  "block_key D t b = block_cache_handle D t (bh_offset (db_handle b))"

text \<open>The cache entry of a data block: its key, and its contents with the options of the table.\<close>

definition caches :: "deps \<Rightarrow> Table \<Rightarrow> CacheKey \<times> Block \<Rightarrow> data_block \<Rightarrow> bool" where
  "caches D t e b \<longleftrightarrow> fst e = block_key D t b \<and> blk_opt (snd e) = tab_opt t \<and>
     holds_entries D (blk_contents (snd e)) (db_entries b)"

text \<open>The cache holds the last \<open>cap\<close> of the first \<open>n\<close> blocks, the last one in front, and nothing else.\<close>

definition entered ::
  "deps \<Rightarrow> Table \<Rightarrow> data_block list \<Rightarrow> nat \<Rightarrow> u64 \<Rightarrow> nat \<Rightarrow> block_cache \<Rightarrow> bool" where
  "entered D t blocks cap cid n c \<longleftrightarrow>
     (\<exists>held. cache_holds cap cid c held \<and> list_all2 (caches D t) held (take cap (rev (take n blocks))))"

lemma entered_none: "cache_holds cap cid c [] \<Longrightarrow> entered D t blocks cap cid 0 c"
  by (auto simp: entered_def)

lemma caches_keys: "list_all2 (caches D t) held bs \<Longrightarrow> map fst held = map (block_key D t) bs"
  by (induction rule: list_all2_induct) (simp_all add: caches_def)

lemma entered_held:
  assumes "entered D t blocks cap cid n c" "n \<le> length blocks"
  shows "\<exists>held. cache_is c held \<and> list_all2 (caches D t) held (take cap (rev (take n blocks)))"
    and "Cache_count c = min cap n"
proof -
  obtain held where held: "cache_holds cap cid c held"
    "list_all2 (caches D t) held (take cap (rev (take n blocks)))"
    using assms(1) by (auto simp: entered_def)
  then have c: "cache_is c held" by (simp add: cache_holds_def)
  with held(2) show "\<exists>held. cache_is c held \<and> list_all2 (caches D t) held (take cap (rev (take n blocks)))"
    by blast
  have "length held = min cap n" using list_all2_lengthD [OF held(2)] assms(2) by simp
  then show "Cache_count c = min cap n" using Cache_count_view [OF c] by simp
qed

lemma block_keys_distinct:
  assumes "reading D C cap cid T blocks t c"
  shows "distinct (map (block_key D t) blocks)"
proof -
  obtain opt f fs where view: "table_view D opt f blocks fs t" and tr: "table_reader D C"
    using assms by (auto simp: reading_def)
  then have codec: "integer_codec D" by (simp add: table_reader_def third_party_laws_def)
  have "bh_offset (db_handle b) = bh_offset (db_handle b')"
    if b: "b \<in> set blocks" "b' \<in> set blocks" and k: "block_key D t b = block_key D t b'" for b b'
    using table_view_handles [OF view] b integer_codec.block_cache_handle_inject [OF codec k [unfolded block_key_def]]
    by (intro integer_codec.usize_as_u64_inject [OF codec]) (simp_all add: handle_ok_def)
  then show ?thesis
    using table_view_handles [OF view] unfolding distinct_map inj_on_def by metis
qed

text \<open>A block that is read holds its entries, from the file and from the cache alike.\<close>

lemma read_step_block:
  assumes rd: "reading D C cap cid T blocks t c" and b: "b \<in> set blocks"
    and read: "Table_read_block D t (db_handle b) c = Some (Inr block, c')"
  shows "caches D t (block_key D t b, block) b"
proof -
  obtain opt f fs where view: "table_view D opt f blocks fs t"
    and tr: "table_reader D C" and T: "(t, blocks) \<in> T" and inv: "cache_inv D cap cid T c"
    using rd by (auto simp: reading_def)
  from table_reader.Table_read_block_inv [OF tr view T inv b] read obtain contents where
    "block = \<lparr>blk_contents = contents, blk_opt = opt\<rparr>" "holds_entries D contents (db_entries b)" by auto
  then show ?thesis using view by (simp add: caches_def table_view_def)
qed

lemma entered_step:
  assumes c: "entered D t blocks cap cid n c" and n: "n < length blocks" and cap: "0 < cap"
    and rd: "reading D C cap cid T blocks t c" and read: "read_step D t (blocks ! n) c c'"
  shows "entered D t blocks cap cid (Suc n) c'"
proof -
  let ?b = "blocks ! n" let ?k = "block_key D t (blocks ! n)"
  obtain held where held: "cache_holds cap cid c held"
    "list_all2 (caches D t) held (take cap (rev (take n blocks)))"
    using c by (auto simp: entered_def)
  have "distinct (map (block_key D t) (take (Suc n) blocks))"
    using block_keys_distinct [OF rd] by (metis distinct_take take_map)
  then have "?k \<notin> set (map (block_key D t) (rev (take n blocks)))"
    using n by (simp add: take_Suc_conv_app_nth)
  then have "?k \<notin> set (map (block_key D t) (take cap (rev (take n blocks))))"
    by (metis in_set_takeD take_map)
  then have fresh: "?k \<notin> fst ` set held"
    using caches_keys [OF held(2)] by (metis list.set_map)
  then have none: "map_of held ?k = None" by (simp add: map_of_eq_None_iff)
  with lru_cache.get_holds [OF held(1), of ?k] obtain c1 where
    c1: "Cache_get c ?k = Some (None, c1)" "cache_holds cap cid c1 held" by auto
  obtain block where block: "Table_read_block D t (db_handle ?b) c = Some (Inr block, c')"
    using read by (auto simp: read_step_def)
  then have "Cache_insert c1 ?k block = Some c'"
    using c1(1) unfolding block_key_def
    by (cases "read_table_block D (tab_opt t) (tab_file t) (db_handle ?b)";
        cases "the (read_table_block D (tab_opt t) (tab_file t) (db_handle ?b))")
      (auto simp: Table_read_block_def Let_def bind_eq_Some_conv)
  with lru_cache.insert_holds [OF c1(2) fresh, of block]
  have holds: "cache_holds cap cid c' (lru_insert cap ?k block held)" by simp
  have new: "caches D t (?k, block) ?b" by (rule read_step_block [OF rd _ block]) (use n in simp)
  have "take (cap - 1) (take cap (rev (take n blocks))) = take (cap - 1) (rev (take n blocks))" by simp
  then have "list_all2 (caches D t) (take (cap - 1) held) (take (cap - 1) (rev (take n blocks)))"
    using list_all2_takeI [OF held(2), of "cap - 1"] by (simp only:)
  with new cap n have "list_all2 (caches D t) (lru_insert cap ?k block held) (take cap (rev (take (Suc n) blocks)))"
    by (cases cap) (simp_all add: lru_insert_def take_Suc_conv_app_nth)
  with holds show ?thesis by (auto simp: entered_def)
qed

section \<open>Iterating\<close>

text \<open>The iterator is at entry \<open>n\<close>, in block \<open>i\<close>, and the blocks up to that one were read.\<close>

definition caching ::
  "deps \<Rightarrow> Cmp \<Rightarrow> nat \<Rightarrow> u64 \<Rightarrow> opened set \<Rightarrow> data_block list \<Rightarrow> Table \<Rightarrow> nat \<Rightarrow> nat \<Rightarrow> table_iter \<Rightarrow> bool" where
  "caching D C cap cid T blocks t n i it \<longleftrightarrow>
     ti_table (fst it) = t \<and> reading D C cap cid T blocks t (snd it) \<and>
     (\<exists>j. n = flat blocks i j \<and> in_block D C blocks i (Some j) (fst it)) \<and>
     entered D t blocks cap cid (Suc i) (snd it)"

lemma caching_block: "caching D C cap cid T blocks t n i it \<Longrightarrow> i < length blocks"
  by (auto simp: caching_def in_block_def)

lemma caching_at:
  "caching D C cap cid T blocks t n i it \<Longrightarrow> table_at D C cap cid T blocks (all_entries blocks) (Some n) it"
  using table_atI [of D C cap cid T blocks "fst it" "snd it"] by (auto simp: caching_def)

lemma caching_start:
  assumes rd: "reading D C cap cid T blocks (ti_table self) c" and before: "before_blocks D C blocks self"
    and c: "entered D (ti_table self) blocks cap cid 0 c" and cap: "0 < cap" and ne: "blocks \<noteq> []"
  shows "\<exists>it'. TableIterator_advance D (self, c) = Some (True, it') \<and>
    caching D C cap cid T blocks (ti_table self) 0 0 it'"
proof -
  from advance_from_start(1) [OF rd before ne] obtain self' c' where
    s: "TableIterator_advance D (self, c) = Some (True, self', c')"
      "reading D C cap cid T blocks (ti_table self') c'" "in_block D C blocks 0 (Some 0) self'"
      "ti_table self' = ti_table self" "read_step D (ti_table self) (blocks ! 0) c c'" by blast
  from entered_step [OF c _ cap rd s(5)] ne
  have "entered D (ti_table self) blocks cap cid (Suc 0) c'" by simp
  with s show ?thesis by (auto simp: caching_def flat_def)
qed

lemma caching_next:
  assumes at: "caching D C cap cid T blocks t n i it" and cap: "0 < cap" and n: "Suc n < length (all_entries blocks)"
  shows "\<exists>i' it'. TableIterator_advance D it = Some (True, it') \<and> caching D C cap cid T blocks t (Suc n) i' it'"
proof -
  obtain self c j where it: "it = (self, c)" "ti_table self = t" "reading D C cap cid T blocks (ti_table self) c"
    "n = flat blocks i j" "in_block D C blocks i (Some j) self" "entered D t blocks cap cid (Suc i) c"
    using at by (cases it) (auto simp: caching_def)
  have i: "i < length blocks" by (rule caching_block [OF at])
  show ?thesis
  proof (cases "Suc j < length (db_entries (blocks ! i))")
    case True
    with advance_in_block [OF it(5), of c] obtain self' where
      "TableIterator_advance D (self, c) = Some (True, self', c)" "ti_table self' = ti_table self"
      "in_block D C blocks i (Some (Suc j)) self'" by auto
    with it have "caching D C cap cid T blocks t (Suc n) i (self', c)" by (auto simp: caching_def flat_def)
    with \<open>TableIterator_advance D (self, c) = Some (True, self', c)\<close> it(1) show ?thesis by blast
  next
    case False
    have "j < length (db_entries (blocks ! i))"
      using it(5) block_iter.at_bounds by (auto simp: in_block_def)
    with False have last: "Suc j = length (db_entries (blocks ! i))" by simp
    have next_i: "Suc i < length blocks"
    proof (rule ccontr)
      assume "\<not> Suc i < length blocks"
      then have "length (all_entries blocks) \<le> flat blocks i (Suc j)"
        using i last by (intro flat_end) simp_all
      then show False using n it(4) by (simp add: flat_def)
    qed
    with advance_over(1) [OF it(3,5)] last obtain self' c' where
      s: "TableIterator_advance D (self, c) = Some (True, self', c')"
        "reading D C cap cid T blocks (ti_table self') c'" "in_block D C blocks (Suc i) (Some 0) self'"
        "ti_table self' = ti_table self" "read_step D (ti_table self) (blocks ! Suc i) c c'" by auto
    have "entered D t blocks cap cid (Suc (Suc i)) c'"
      using entered_step [OF it(6) next_i cap it(3) [unfolded it(2)]] s(5) it(2) by simp
    moreover have "Suc n = flat blocks (Suc i) 0" using it(4) i last by (simp add: flat_Suc) (simp add: flat_def)
    ultimately have "caching D C cap cid T blocks t (Suc n) (Suc i) (self', c')"
      using s it(2) by (auto simp: caching_def)
    with s(1) it(1) show ?thesis by blast
  qed
qed

fun advance_times :: "deps \<Rightarrow> nat \<Rightarrow> table_iter \<Rightarrow> table_iter run" where
  "advance_times D 0 it = Some it"
| "advance_times D (Suc n) it = do { it \<leftarrow> advance_times D n it; (_, it) \<leftarrow> TableIterator_advance D it; Some it }"

lemma advance_times_at:
  assumes rd: "reading D C cap cid T blocks (ti_table self) c" and before: "before_blocks D C blocks self"
    and c: "entered D (ti_table self) blocks cap cid 0 c" and cap: "0 < cap"
    and n: "n < length (all_entries blocks)"
  shows "\<exists>i it'. advance_times D (Suc n) (self, c) = Some it' \<and>
    caching D C cap cid T blocks (ti_table self) n i it'"
  using n
proof (induction n)
  case 0
  then have "blocks \<noteq> []" by auto
  from caching_start [OF rd before c cap this] show ?case by auto
next
  case (Suc n)
  then obtain i it1 where s1: "advance_times D (Suc n) (self, c) = Some it1"
    "caching D C cap cid T blocks (ti_table self) n i it1" by auto
  from caching_next [OF s1(2) cap Suc.prems] s1(1) show ?case by auto
qed

section \<open>A lookup of the entry an iterator is at\<close>

lemma caching_end:
  assumes at: "caching D C cap cid T blocks t n i it" and n: "length (all_entries blocks) \<le> Suc n"
  shows "Suc i = length blocks \<and> (\<exists>it'. TableIterator_advance D it = Some (False, it') \<and> snd it' = snd it)"
proof -
  obtain self c j where it: "it = (self, c)" "reading D C cap cid T blocks (ti_table self) c"
    "n = flat blocks i j" "in_block D C blocks i (Some j) self"
    using at by (cases it) (auto simp: caching_def)
  have i: "i < length blocks" by (rule caching_block [OF at])
  have j: "j < length (db_entries (blocks ! i))" using it(4) block_iter.at_bounds by (auto simp: in_block_def)
  have "flat blocks i (length (db_entries (blocks ! i))) \<le> flat blocks i (Suc j)"
    using n it(3) flat_split [OF i] by (simp add: flat_def)
  then have last: "length (db_entries (blocks ! i)) \<le> Suc j" by (simp add: flat_def)
  have "drop (Suc i) blocks = []"
  proof (rule ccontr)
    assume ne: "drop (Suc i) blocks \<noteq> []"
    have "all_entries (drop (Suc i) blocks) \<noteq> []"
      using reading_blocks(1) [OF it(2)] in_set_dropD [of _ "Suc i" blocks] ne
      by (subst all_entries_empty) auto
    then have "0 < length (all_entries (drop (Suc i) blocks))" by simp
    then show False using n it(3) [unfolded flat_def] j arg_cong [OF flat_split [OF i], of length]
      unfolding length_append by linarith
  qed
  then have "length blocks \<le> Suc i" by simp
  with advance_over(2) [OF it(2,4), of] last i it(1) show ?thesis by auto
qed

text \<open>The block of the last entry is at the front of the cache, where a read leaves it.\<close>

lemma entered_read:
  assumes c: "entered D t blocks cap cid (Suc i) c" and i: "i < length blocks" and cap: "0 < cap"
    and distinct: "distinct (map (block_key D t) blocks)"
    and read: "Table_read_block D t (db_handle (blocks ! i)) c = Some (r, c')"
  shows "entered D t blocks cap cid (Suc i) c'"
proof -
  let ?k = "block_key D t (blocks ! i)" let ?bs = "take cap (rev (take (Suc i) blocks))"
  obtain held where held: "cache_holds cap cid c held" "list_all2 (caches D t) held ?bs"
    using c by (auto simp: entered_def)
  have bs: "?bs = blocks ! i # take (cap - 1) (rev (take i blocks))"
    using i cap by (cases cap) (simp_all add: take_Suc_conv_app_nth)
  with held(2) obtain v rest where front: "held = (?k, v) # rest"
    by (auto simp: list_all2_Cons2 caches_def)
  have "distinct (map (block_key D t) ?bs)"
    using distinct by (metis distinct_rev distinct_take rev_map take_map)
  then have "distinct (map fst held)" using caches_keys [OF held(2)] by (simp only:)
  then have "filter (\<lambda>e. fst e \<noteq> ?k) rest = rest" using front by (force simp: filter_id_conv)
  then have touch: "lru_touch ?k held = held" using front by simp
  from lru_cache.get_holds [OF held(1), of ?k] front touch obtain c1 where
    "Cache_get c ?k = Some (Some v, c1)" "cache_holds cap cid c1 held" by auto
  with read held(2) show ?thesis by (auto simp: Table_read_block_def Let_def entered_def block_key_def)
qed

lemma Table_get_reads:
  assumes "Table_get D t k c = Some (Inr (Some v), c')" "Table_get_handle D t k = Some (Some h)"
  shows "\<exists>r. Table_read_block D t h c = Some (r, c')"
proof (cases "Table_read_block D t h c")
  case None
  with assms show ?thesis by (auto simp: Table_get_def bind_eq_Some_conv split: option.splits if_splits)
next
  case (Some x)
  then obtain r c1 where x: "Table_read_block D t h c = Some (r, c1)" by (cases x) auto
  with assms have "c1 = c'"
    by (cases r) (auto simp: Table_get_def bind_eq_Some_conv split: option.splits if_splits)
  with x show ?thesis by blast
qed

text \<open>With the default comparator, \<open>get\<close> finds the current entry in the current block and leaves the cache's
  blocks as they are.\<close>

lemma caching_get:
  assumes D: "third_party_laws D" and opt: "opt_cmp opt = DefaultCmp" and P: "nonempty_filter_policy (opt_filter_policy opt)"
    and opened: "opened_with D opt cap kvs blocks t c" and zero: "\<not> zero_extended kvs" and cap: "0 < cap"
    and at: "caching D DefaultCmp cap 1 {(t, blocks)} blocks t n i (self, c)"
    and len: "length (fst (kvs ! n)) < 2 ^ 32"
  shows "\<exists>c'. Table_get D t (fst (kvs ! n)) c = Some (Inr (Some (snd (kvs ! n))), c') \<and>
    opened_with D opt cap kvs blocks t c' \<and> caching D DefaultCmp cap 1 {(t, blocks)} blocks t n i (self, c')"
proof -
  let ?k = "fst (kvs ! n)" and ?v = "snd (kvs ! n)"
  have C: "short_comparator (opt_cmp opt)" using opt default_cmp.short_comparator_axioms by simp
  note o = opened_blocks [OF D C opened, unfolded opt]
  obtain j where j: "n = flat blocks i j" "in_block D DefaultCmp blocks i (Some j) self" "ti_table self = t"
    "entered D t blocks cap 1 (Suc i) c" using at by (auto simp: caching_def)
  have i: "i < length blocks" by (rule caching_block [OF at])
  have j': "j < length (db_entries (blocks ! i))" using j(2) block_iter.at_bounds by (auto simp: in_block_def)
  have "n < length kvs" using table_iterator.at_bounds [OF caching_at [OF at]] o(3) by simp
  then have mem: "kvs ! n \<in> set kvs" by simp
  have nth: "kvs ! n = db_entries (blocks ! i) ! j"
    using flat_split [OF i] j(1) j' o(3) by (simp add: flat_def nth_append)
  then have key: "?k \<in> db_keys (blocks ! i)" using j' by simp
  have "map_of kvs ?k = Some ?v"
    using mem ascending_distinct [OF default_cmp.comparator_axioms o(4)] by (intro map_of_is_SomeI) simp_all
  moreover have "get_result DefaultCmp ?k blocks = map_of kvs ?k"
    using get_result_default [OF o(1,2)] zero o(3) by simp
  moreover have "\<forall>k. cmp (opt_cmp opt) k ?k = Equal \<longrightarrow> k = ?k" using opt by simp
  ultimately obtain c' where get: "Table_get D t ?k c = Some (Inr (Some ?v), c')"
    "opened_with D opt cap kvs blocks t c'"
    using opened_get [OF D C opened P _ len] opt by auto
  have "?k \<in> fst ` set (all_entries blocks)" using mem o(3) by simp
  from block_of_stored [OF o(1,2) _ this] zero o(3) obtain b where
    b: "block_of DefaultCmp ?k blocks = Some b" "?k \<in> db_keys b" "cmp DefaultCmp (db_sep b) ?k = Greater" by auto
  then have "b = blocks ! i"
    using separated_unique [OF default_cmp.comparator_axioms o(1) _ i] key block_of_mem
    by (metis in_set_conv_nth)
  moreover obtain data fs where view: "table_view D opt data blocks fs t" using opened by (auto simp: opened_with_def)
  moreover have "table_reader D DefaultCmp"
    using opened_reader [OF D C] opt by simp
  ultimately have "Table_get_handle D t ?k = Some (Some (db_handle (blocks ! i)))"
    using table_reader.Table_get_handle_eq [OF _ view opt, of ?k] b by simp
  with Table_get_reads [OF get(1)] obtain r where "Table_read_block D t (db_handle (blocks ! i)) c = Some (r, c')"
    by blast
  moreover have rd: "reading D DefaultCmp cap 1 {(t, blocks)} blocks t c'"
    using opened_reading [OF D C get(2)] opt by simp
  ultimately have "entered D t blocks cap 1 (Suc i) c'"
    by (intro entered_read [OF j(4) i cap block_keys_distinct [OF rd]])
  with get j rd show ?thesis by (auto simp: caching_def)
qed

section \<open>Property\<close>

text \<open>C21: While a table is iterated over from its beginning, the cache holds exactly the data blocks the
  iterator entered last, as many as it has room for, the most recent one in front: after the step to the
  \<open>j\<close>th entry of block \<open>i\<close> these are the blocks \<open>i\<close>, \<open>i - 1\<close> and so on, each under its own key and
  with its own contents. The index, metaindex and filter blocks are never cached.\<close>

theorem iteration_cache_use:
  assumes "third_party_laws D" "short_comparator (opt_cmp opt)" "table_fits opt kvs" "0 < cap" "cap < 2 ^ 64"
  shows "\<exists>t c it. open_new D opt cap kvs = Some (Inr t, c) \<and> cache_is c [] \<and> Table_iter D t = Some it \<and>
    (\<forall>n < length kvs. \<exists>i j it' held. i < length (table_blocks D opt kvs) \<and>
       n = flat (table_blocks D opt kvs) i j \<and> j < length (db_entries (table_blocks D opt kvs ! i)) \<and>
       advance_times D (Suc n) (it, c) = Some it' \<and>
       current_key_val TableIterator_current it' = Some (Some (kvs ! n)) \<and>
       cache_is (snd it') held \<and> Cache_count (snd it') = min cap (Suc i) \<and>
       list_all2 (caches D t) held (take cap (rev (take (Suc i) (table_blocks D opt kvs)))))"
proof -
  obtain t c where t: "open_new D opt cap kvs = Some (Inr t, c)"
    "opened_with D opt cap kvs (table_blocks D opt kvs) t c" "cache_holds cap 1 c []"
    using open_new_opened [OF assms] by blast
  let ?blocks = "table_blocks D opt kvs"
  have all: "all_entries ?blocks = kvs" using t(2) by (simp add: opened_with_def)
  from opened_iter [OF assms(1,2) t(2)] obtain it where it: "Table_iter D t = Some it" "ti_table it = t"
    "table_at D (opt_cmp opt) cap 1 {(t, ?blocks)} ?blocks kvs None (it, c)"
    by (auto simp: Table_iter_def bind_eq_Some_conv)
  then have rd: "reading D (opt_cmp opt) cap 1 {(t, ?blocks)} ?blocks (ti_table it) c"
    and before: "before_blocks D (opt_cmp opt) ?blocks it" by (simp_all add: table_at_none)
  have "cache_is c []" using t(3) by (simp add: cache_holds_def)
  moreover have "\<exists>i j it' held. i < length ?blocks \<and> n = flat ?blocks i j \<and>
      j < length (db_entries (?blocks ! i)) \<and> advance_times D (Suc n) (it, c) = Some it' \<and>
      current_key_val TableIterator_current it' = Some (Some (kvs ! n)) \<and>
      cache_is (snd it') held \<and> Cache_count (snd it') = min cap (Suc i) \<and>
      list_all2 (caches D t) held (take cap (rev (take (Suc i) ?blocks)))"
    if n: "n < length kvs" for n
  proof -
    from advance_times_at [OF rd before entered_none [OF t(3)] assms(4), of n] n all obtain i it' where
      s: "advance_times D (Suc n) (it, c) = Some it'"
        "caching D (opt_cmp opt) cap 1 {(t, ?blocks)} ?blocks (ti_table it) n i it'" by auto
    have i: "i < length ?blocks" by (rule caching_block [OF s(2)])
    obtain j where j: "n = flat ?blocks i j" "j < length (db_entries (?blocks ! i))"
      using s(2) block_iter.at_bounds by (auto simp: caching_def in_block_def)
    have ent: "entered D t ?blocks cap 1 (Suc i) (snd it')" using s(2) it(2) by (simp add: caching_def)
    have le: "Suc i \<le> length ?blocks" using i by simp
    obtain held where "cache_is (snd it') held" "list_all2 (caches D t) held (take cap (rev (take (Suc i) ?blocks)))"
      using entered_held(1) [OF ent le] by blast
    with entered_held(2) [OF ent le] table_iterator.current_key_val_at [OF caching_at [OF s(2)]] i j s(1) all
    show ?thesis
      by (intro exI [of _ i] exI [of _ j] exI [of _ it'] exI [of _ held]) simp
  qed
  ultimately show ?thesis using t(1) it(1) by blast
qed

theorem iteration_cache_use_witness:
  "\<exists>t c it it' held. open_new reference_deps small_opt 1 sample_kvs = Some (Inr t, c) \<and>
    Table_iter reference_deps t = Some it \<and> cache_is c [] \<and>
    advance_times reference_deps 2 (it, c) = Some it' \<and> cache_is (snd it') [held] \<and>
    current_key_val TableIterator_current it' = Some (Some (sample_kvs ! 1)) \<and>
    (\<exists>b \<in> set (table_blocks reference_deps small_opt sample_kvs).
       fst held = block_key reference_deps t b \<and>
       holds_entries reference_deps (blk_contents (snd held)) (db_entries b) \<and> sample_kvs ! 1 \<in> set (db_entries b))"
proof -
  let ?blocks = "table_blocks reference_deps small_opt sample_kvs"
  have len: "(1 :: nat) < length sample_kvs" by (simp add: sample_kvs_def)
  obtain t c it where t: "open_new reference_deps small_opt 1 sample_kvs = Some (Inr t, c)"
    "cache_is c []" "Table_iter reference_deps t = Some it"
    and step: "\<forall>n < length sample_kvs. \<exists>i j it' held. i < length ?blocks \<and> n = flat ?blocks i j \<and>
      j < length (db_entries (?blocks ! i)) \<and> advance_times reference_deps (Suc n) (it, c) = Some it' \<and>
      current_key_val TableIterator_current it' = Some (Some (sample_kvs ! n)) \<and> cache_is (snd it') held \<and>
      Cache_count (snd it') = min 1 (Suc i) \<and> list_all2 (caches reference_deps t) held (take 1 (rev (take (Suc i) ?blocks)))"
    using iteration_cache_use [OF ref_deps.third_party_laws_axioms small_short sample_fits, of 1] by force
  from step len obtain i j it' held where s: "i < length ?blocks" "1 = flat ?blocks i j"
    "j < length (db_entries (?blocks ! i))" "advance_times reference_deps (Suc 1) (it, c) = Some it'"
    "current_key_val TableIterator_current it' = Some (Some (sample_kvs ! 1))" "cache_is (snd it') held"
    "list_all2 (caches reference_deps t) held (take 1 (rev (take (Suc i) ?blocks)))" by metis
  have "take 1 (rev (take (Suc i) ?blocks)) = [?blocks ! i]" using s(1) by (simp add: take_Suc_conv_app_nth)
  with s(7) obtain e where e: "held = [e]" "caches reference_deps t e (?blocks ! i)"
    by (auto simp: list_all2_Cons2)
  have "all_entries ?blocks = sample_kvs"
    using open_new_opened [OF ref_deps.third_party_laws_axioms small_short sample_fits, of 1]
    by (auto simp: opened_with_def)
  then have "sample_kvs ! 1 = db_entries (?blocks ! i) ! j" using flat_nth(2) [OF s(1,3)] s(2) by simp
  then have "sample_kvs ! 1 \<in> set (db_entries (?blocks ! i))" using s(3) by simp
  with t s(1,4-6) e show ?thesis
    by (intro exI [of _ t] exI [of _ c] exI [of _ it] exI [of _ it'] exI [of _ e])
      (auto simp: numeral_2_eq_2 caches_def)
qed

end
