(* ===== verification/SST_Checksum.thy ===== *)
theory SST_Checksum
  imports SST_Corruption
begin

text \<open>
  What the checksum of a block detects: a change of any one of its bytes, be it in the data, in the
  type byte or in the checksum itself. That a CRC detects the change of a byte is a law of the
  interface \<open>byte_checksum\<close>, which holds for the reference CRC-32C.
\<close>

section \<open>The law\<close>

locale byte_checksum =
  fixes D :: deps
  assumes crc_byte: "crc32_iscsi D (pre @ a # post) = crc32_iscsi D (pre @ b # post) \<Longrightarrow> a = b"

text \<open>A step of the reference CRC loses no information: the polynomial's top bit marks the bit shifted out.\<close>

lemma crc_step_inject:
  fixes c d :: u32
  assumes "(if c AND 1 = 1 then drop_bit 1 c XOR 0x82F63B78 else drop_bit 1 c) =
    (if d AND 1 = 1 then drop_bit 1 d XOR 0x82F63B78 else drop_bit 1 d)"
  shows "c = d"
proof -
  let ?g = "\<lambda>c :: u32. if c AND 1 = 1 then drop_bit 1 c XOR 0x82F63B78 else drop_bit 1 c"
  have low: "x AND 1 = 1 \<longleftrightarrow> bit x 0" for x :: u32
    by (simp add: and_one_eq bit_0 flip: odd_iff_mod_2_eq_one)
  have top: "bit (0x82F63B78 :: u32) 31" by simp
  have bits: "bit (?g x) n \<longleftrightarrow> bit x (Suc n) \<noteq> (bit x 0 \<and> bit (0x82F63B78 :: u32) n)" if "n < 32" for x n
    using that by (auto simp: low bit_drop_bit_eq bit_xor_iff)
  have "\<not> bit x (Suc 31)" for x :: u32 using bit_imp_le_length [of x "Suc 31"] by auto
  then have "bit (?g x) 31 \<longleftrightarrow> bit x 0" for x
    using bits [of 31 x] top by simp
  from this [of c] this [of d] have zero: "bit c 0 \<longleftrightarrow> bit d 0" unfolding assms by blast
  have next_bit: "bit c (Suc n) \<longleftrightarrow> bit d (Suc n)" if "n < 32" for n
    using bits [OF that, of c] bits [OF that, of d] zero unfolding assms by blast
  show ?thesis
  proof (rule bit_word_eqI)
    fix n assume n: "n < LENGTH(32)"
    show "bit c n \<longleftrightarrow> bit d n"
    proof (cases n)
      case (Suc m)
      with n show ?thesis using next_bit [of m] by simp
    qed (simp only: zero)
  qed
qed

lemma crc32c_bits_inject: "crc32c_bits n c = crc32c_bits n d \<Longrightarrow> c = d"
proof (induction n arbitrary: c d)
  case (Suc n)
  show ?case by (rule crc_step_inject, rule Suc.IH, rule Suc.prems [unfolded crc32c_bits.simps])
qed simp

lemma crc_fold_inject:
  "fold (\<lambda>b c. crc32c_bits 8 (c XOR ucast b)) bs c = fold (\<lambda>b c. crc32c_bits 8 (c XOR ucast b)) bs d \<Longrightarrow> c = d"
proof (induction bs arbitrary: c d)
  case (Cons b bs)
  then have "c XOR ucast b = d XOR ucast b" by (auto dest: crc32c_bits_inject)
  then have "(c XOR ucast b) XOR ucast b = (d XOR ucast b) XOR ucast b" by (rule arg_cong)
  then show ?case by (simp add: xor.assoc)
qed simp

lemma crc32c_byte:
  assumes "crc32c (pre @ a # post) = crc32c (pre @ b # post)"
  shows "a = b"
proof -
  define c where "c = fold (\<lambda>b c. crc32c_bits 8 (c XOR ucast b)) pre (NOT 0 :: u32)"
  have "crc32c_bits 8 (c XOR ucast a) = crc32c_bits 8 (c XOR ucast b)"
    using assms by (auto simp: crc32c_def c_def dest: crc_fold_inject)
  then have "c XOR ucast a = c XOR ucast b" by (rule crc32c_bits_inject)
  then have "c XOR (c XOR ucast a) = c XOR (c XOR ucast b)" by (rule arg_cong)
  then have "(ucast a :: u32) = ucast b" by (simp add: xor.assoc [symmetric])
  then have "ucast (ucast a :: u32) = (ucast (ucast b :: u32) :: u8)" by (rule arg_cong)
  then show ?thesis by (simp add: ucast_up_ucast_id is_up)
qed

interpretation ref_checksum: byte_checksum reference_deps
  by unfold_locales (auto simp: reference_deps_def dest: crc32c_byte)

section \<open>Fixed-width integers are all lists of four bytes\<close>

context integer_codec
begin

lemma fixed32_surj:
  assumes "length bs = 4"
  shows "\<exists>w. encode_fixed32 D w = bs"
proof -
  let ?L = "{bs :: bytes. set bs \<subseteq> UNIV \<and> length bs = 4}"
  have "inj (encode_fixed32 D)" by (metis decode_encode_fixed32 injI)
  then have "card (range (encode_fixed32 D)) = 2 ^ 32" by (simp add: card_image card_word)
  moreover have "card ?L = 2 ^ 32" by (subst card_lists_length_eq) (simp_all add: card_word)
  moreover have "range (encode_fixed32 D) \<subseteq> ?L" by (auto simp: length_encode_fixed32)
  moreover have "finite ?L" by (rule finite_lists_length_eq) simp
  ultimately have "range (encode_fixed32 D) = ?L" by (intro card_subset_eq) simp_all
  then have "bs \<in> range (encode_fixed32 D)" using assms by simp
  then show ?thesis by auto
qed

lemma decode_fixed32_inject:
  "length xs = 4 \<Longrightarrow> length ys = 4 \<Longrightarrow> decode_fixed32 D xs = decode_fixed32 D ys \<Longrightarrow> xs = ys"
  by (metis decode_encode_fixed32 fixed32_surj)

end

section \<open>A file in which one byte has changed\<close>

lemma region_update:
  "bh_offset h \<le> i \<Longrightarrow> region (file[i := x]) h = (region file h)[i - bh_offset h := x]"
  by (simp add: region_def drop_update_swap take_update_swap)

lemma region_update_outside:
  "i < bh_offset h \<or> bh_offset h + bh_size h + 5 \<le> i \<Longrightarrow> region (file[i := x]) h = region file h"
  by (cases "i < bh_offset h") (auto simp: region_def drop_update_swap take_update_swap list_update_beyond)

lemma unmask_inject: "unmask_crc c = unmask_crc d \<Longrightarrow> c = d"
  by (metis mask_unmask)

lemma byte_change_detected:
  assumes codec: "integer_codec D" and law: "byte_checksum D" and stored: "stored D file h contents"
    and i: "bh_offset h \<le> i" "i < bh_offset h + bh_size h + 5" and x: "x \<noteq> file ! i"
  shows "checksum_fails D (file[i := x]) h"
proof -
  let ?r = "region file h" and ?n = "bh_size h + 1" and ?j = "i - bh_offset h"
  have ends: "bh_offset h + bh_size h + 5 \<le> length file" by (rule stored_end [OF codec stored])
  then have len: "length ?r = bh_size h + 5" and nth: "?r ! ?j = file ! i"
    using i by (simp_all add: region_def)
  have ok: "crc32_iscsi D (take ?n ?r) = unmask_crc (decode_fixed32 D (drop ?n ?r))"
    using stored_checksum [OF codec stored] by (simp add: checksum_fails_def)
  have r': "region (file[i := x]) h = ?r[?j := x]" by (rule region_update [OF i(1)])
  show ?thesis
  proof (cases "?j < ?n")
    case True
    let ?pre = "take ?j (take ?n ?r)" and ?post = "drop (Suc ?j) (take ?n ?r)"
    have j: "?j < length (take ?n ?r)" using True len by simp
    have t1: "take ?n (?r[?j := x]) = ?pre @ x # ?post"
      using j upd_conv_take_nth_drop [OF j, of x] by (simp add: take_update_swap)
    have "take ?n ?r ! ?j = file ! i" using nth True by (simp only: nth_take)
    then have "take ?n ?r = ?pre @ file ! i # ?post" using id_take_nth_drop [OF j] by (simp only:)
    then have t2: "crc32_iscsi D (?pre @ file ! i # ?post) = unmask_crc (decode_fixed32 D (drop ?n ?r))"
      using ok by (simp only:)
    have t3: "drop ?n (?r[?j := x]) = drop ?n ?r" using True by (intro drop_update_cancel)
    have "crc32_iscsi D (?pre @ x # ?post) \<noteq> crc32_iscsi D (?pre @ file ! i # ?post)"
      using byte_checksum.crc_byte [OF law, of ?pre x ?post "file ! i"] x by blast
    then show ?thesis unfolding checksum_fails_def r' t1 t3 t2 .
  next
    case False
    have lens: "length (drop ?n ?r) = 4" using len by simp
    have t1: "drop ?n (?r[?j := x]) = (drop ?n ?r)[?j - ?n := x]" using False by (simp add: drop_update_swap)
    have "(drop ?n ?r)[?j - ?n := x] \<noteq> drop ?n ?r"
    proof
      assume "(drop ?n ?r)[?j - ?n := x] = drop ?n ?r"
      then have "(drop ?n ?r)[?j - ?n := x] ! (?j - ?n) = drop ?n ?r ! (?j - ?n)" by simp
      moreover have "?j - ?n < length (drop ?n ?r)" using i(2) lens False by simp
      moreover have "drop ?n ?r ! (?j - ?n) = ?r ! ?j"
      proof -
        have "?n + (?j - ?n) = ?j" using False by linarith
        moreover have "drop ?n ?r ! (?j - ?n) = ?r ! (?n + (?j - ?n))" using len by (intro nth_drop) simp
        ultimately show ?thesis by (simp only:)
      qed
      ultimately show False using nth x by simp
    qed
    then have "decode_fixed32 D ((drop ?n ?r)[?j - ?n := x]) \<noteq> decode_fixed32 D (drop ?n ?r)"
      using integer_codec.decode_fixed32_inject [OF codec, of "(drop ?n ?r)[?j - ?n := x]" "drop ?n ?r"] lens
      unfolding length_list_update by blast
    then have t3: "unmask_crc (decode_fixed32 D (drop ?n ?r)) \<noteq> unmask_crc (decode_fixed32 D ((drop ?n ?r)[?j - ?n := x]))"
      by (rule contrapos_nn) (erule unmask_inject [symmetric])
    have t2: "take ?n (?r[?j := x]) = take ?n ?r" using False by (intro take_update_cancel) simp
    show ?thesis unfolding checksum_fails_def r' t1 t2 ok by (rule t3)
  qed
qed

text \<open>The change of a byte of one block damages this block and no other.\<close>

lemma byte_change_damages:
  assumes codec: "integer_codec D" and law: "byte_checksum D" and laid: "laid_out n blocks" "n \<le> length file"
    and data: "\<forall>b \<in> set blocks. data_ok D file b" and b: "b \<in> set blocks"
    and i: "bh_offset (db_handle b) \<le> i" "i < block_end b" and x: "x \<noteq> file ! i"
  shows "damaged_file D n blocks file (file[i := x])"
    and "\<forall>b' \<in> set blocks. checksum_fails D (file[i := x]) (db_handle b') \<longleftrightarrow> b' = b"
proof -
  obtain contents where stored: "stored D file (db_handle b) contents" using data b by (auto simp: data_ok_def)
  have fails: "checksum_fails D (file[i := x]) (db_handle b)"
    using byte_change_detected [OF codec law stored i(1)] i(2) x by (simp add: block_end_def)
  have others: "region (file[i := x]) (db_handle b') = region file (db_handle b')"
    if b': "b' \<in> set blocks" "b' \<noteq> b" for b'
  proof -
    have "block_end b' \<le> bh_offset (db_handle b) \<or> block_end b \<le> bh_offset (db_handle b')"
      using laid(1) b b' sorted_wrt_nth_less [of "\<lambda>b b'. block_end b \<le> bh_offset (db_handle b')" blocks]
      unfolding laid_out_def in_set_conv_nth by (metis linorder_neqE_nat)
    then show ?thesis using i by (intro region_update_outside) (auto simp: block_end_def)
  qed
  have "i < n" using i(2) laid(1) b by (auto simp: laid_out_def)
  then show "damaged_file D n blocks file (file[i := x])"
    using fails others unfolding damaged_file_def by (auto simp: drop_update_cancel)
  have "\<not> checksum_fails D (file[i := x]) (db_handle b')" if b': "b' \<in> set blocks" "b' \<noteq> b" for b'
  proof -
    obtain contents' where "stored D file (db_handle b') contents'" using data b' by (auto simp: data_ok_def)
    from stored_checksum [OF codec this] others [OF b'] show ?thesis by (simp add: checksum_fails_def)
  qed
  with fails show "\<forall>b' \<in> set blocks. checksum_fails D (file[i := x]) (db_handle b') \<longleftrightarrow> b' = b" by blast
qed

section \<open>Property\<close>

text \<open>C9: Whichever byte of the data blocks of a table file changes, and to whatever, the table is opened and its
  iterator yields the entries of all data blocks but the one the byte belongs to.\<close>

theorem changed_byte_skips_block:
  assumes "third_party_laws D" "byte_checksum D" "short_comparator (opt_cmp opt)" "table_fits opt kvs"
    and "0 < cap" "cap < 2 ^ 64"
    and "b \<in> set (table_blocks D opt kvs)" "bh_offset (db_handle b) \<le> i" "i < block_end b"
    and "x \<noteq> ref_file D opt kvs ! i"
  shows "build_file D opt kvs = Some (Inr (ref_file D opt kvs)) \<and>
    (\<exists>t c it it'. Cache_new cap \<bind> open_file D opt ((ref_file D opt kvs)[i := x]) = Some (Inr t, c) \<and>
       Table_iter D t = Some it \<and>
       drain (TableIterator_advance D) TableIterator_current (it, c) =
         Some (all_entries (remove1 b (table_blocks D opt kvs)), it'))"
proof -
  obtain n ft where fl: "build_file D opt kvs = Some (Inr (ref_file D opt kvs))"
    "data_blocks D (opt_cmp opt) (ref_file D opt kvs) (table_blocks D opt kvs)"
    "table_tail D opt n (ref_file D opt kvs) (table_blocks D opt kvs) ft" "length (ref_file D opt kvs) < 2 ^ 29"
    using built_file [OF assms(1,3,4)] by metis
  let ?blocks = "table_blocks D opt kvs" and ?tbl = "(ref_file D opt kvs)[i := x]"
  have laid: "laid_out n ?blocks" "n \<le> length (ref_file D opt kvs)"
    "\<forall>b \<in> set ?blocks. data_ok D (ref_file D opt kvs) b"
    using fl(2) table_tail_length [OF fl(3)] fl(3) by (simp_all add: data_blocks_def table_tail_def)
  note dmg = byte_change_damages [OF third_party_laws.axioms(1) [OF assms(1)] assms(2) laid assms(7-10)]
  have "distinct ?blocks" using laid_out_distinct [OF laid(1)] by (simp add: distinct_map)
  then have "remove1 b ?blocks = filter (\<lambda>b. \<not> checksum_fails D ?tbl (db_handle b)) ?blocks"
    using dmg(2) by (auto simp: distinct_remove1_removeAll removeAll_filter_not_eq intro!: filter_cong)
  with fl(1) drain_damaged [OF assms(1,3) fl(2-4) assms(5,6) dmg(1)] show ?thesis by simp
qed

text \<open>The first byte of a table is changed: a bit of it is flipped.\<close>

theorem changed_byte_skips_block_witness:
  "\<exists>tbl t c it it'. build_file reference_deps small_opt [([97], [1]), ([99], [2])] = Some (Inr tbl) \<and>
    Cache_new 2 \<bind> open_file reference_deps small_opt (tbl[0 := tbl ! 0 XOR 1]) = Some (Inr t, c) \<and>
    Table_iter reference_deps t = Some it \<and>
    drain (TableIterator_advance reference_deps) TableIterator_current (it, c) = Some ([([99], [2])], it')"
proof -
  let ?D = reference_deps and ?kvs = "[([97], [1]), ([99], [2])] :: (bytes \<times> bytes) list"
  let ?blocks = "table_blocks ?D small_opt ?kvs" and ?tbl = "ref_file ?D small_opt ?kvs"
  have groups: "ref_cut ?D small_opt [] ?kvs = [[([97], [1])], [([99], [2])]]"
    using ref_cut_single [OF ref_deps.integer_codec_axioms, of small_opt "([97], [1])" "[([99], [2])]"]
    by (simp add: ref_block_Nil [OF ref_deps.integer_codec_axioms])
  then obtain b b' where b: "?blocks = [b, b']" "db_entries b' = [([99], [2])]" "bh_offset (db_handle b) = 0"
    by (auto simp: table_blocks_def Let_def)
  have flip: "x XOR 1 \<noteq> x" for x :: u8
  proof
    assume "x XOR 1 = x"
    then have "x XOR (x XOR 1) = x XOR x" by (rule arg_cong)
    then show False by (simp add: xor.assoc [symmetric])
  qed
  have b0: "b \<in> set ?blocks" "bh_offset (db_handle b) \<le> 0" "0 < block_end b"
    using b by (simp_all add: block_end_def)
  from changed_byte_skips_block [OF ref_deps.third_party_laws_axioms ref_checksum.byte_checksum_axioms small_short
      two_fits, of 2 b 0 "?tbl ! 0 XOR 1", OF _ _ b0 flip] b(1,2)
  obtain t c it it' where "build_file ?D small_opt ?kvs = Some (Inr ?tbl)"
    "Cache_new 2 \<bind> open_file ?D small_opt (?tbl[0 := ?tbl ! 0 XOR 1]) = Some (Inr t, c)" "Table_iter ?D t = Some it"
    "drain (TableIterator_advance ?D) TableIterator_current (it, c) = Some ([([99], [2])], it')"
    by (auto simp: all_entries_def)
  then show ?thesis by blast
qed

end
