(* ===== verification/SST_LookupTests.thy ===== *)
theory SST_LookupTests
  imports SST_ReaderTests SST_CacheUse SST_Checksum
begin

text \<open>
  The unit tests of \<open>src/table_reader.rs\<close> that look at offsets, at the block cache, at filters and at
  a damaged file. They count blocks and bytes, so their results follow from the reference file
  of the entries: the entries under test make three data blocks.
\<close>

section \<open>The tests\<close>

definition table_under_test ::
  "deps \<Rightarrow> (Options \<times> block_cache) run \<Rightarrow> bytes \<Rightarrow> usize \<Rightarrow> (Table \<times> block_cache) run" where
  "table_under_test D options src len =
     do {
       (opt, cache) \<leftarrow> options;
       (r, cache) \<leftarrow> Table_new D opt (BufferBackedFile_read_at src) len cache;
       table \<leftarrow> run_unwrap r;
       Some (table, cache)
     }"

text \<open>The loop over the entries that compares each key's offset with the expected one.\<close>

partial_function (option) check_offsets ::
  "deps \<Rightarrow> Table \<Rightarrow> usize list \<Rightarrow> usize \<Rightarrow> table_iter \<Rightarrow> unit run" where
  "check_offsets D table expected_offsets i iter =
     do {
       (r, iter) \<leftarrow> SSIteratorIter_next (TableIterator_methods D) iter;
       case r of
         None \<Rightarrow> Some ()
       | Some (k, _) \<Rightarrow>
           do {
             e \<leftarrow> vec_index expected_offsets i;
             off \<leftarrow> Table_approx_offset_of D table k;
             assert_eq e off;
             check_offsets D table expected_offsets (i + 1) iter
           }
     }"

declare check_offsets.simps [code]

definition test_table_approximate_offset :: "deps \<Rightarrow> unit run" where
  "test_table_approximate_offset D =
     do {
       (src, len) \<leftarrow> tests_build_table D build_data;
       (opt, cache) \<leftarrow> Options_default_block_cache D;
       (table, cache) \<leftarrow> table_under_test D (Some (opt\<lparr>block_size := 32\<rparr>, cache)) src len;
       iter \<leftarrow> Table_iter D table;
       check_offsets D table [0, 0, 0, 44, 44, 44, 89] 0 (iter, cache);
       off \<leftarrow> Table_approx_offset_of D table (as_bytes ''{aa'');
       assert_eq 137 off
     }"

definition test_table_block_cache_use :: "deps \<Rightarrow> unit run" where
  "test_table_block_cache_use D =
     do {
       (src, len) \<leftarrow> tests_build_table D build_data;
       (opt, cache) \<leftarrow> Options_default_block_cache D;
       (table, cache) \<leftarrow> table_under_test D (Some (opt\<lparr>block_size := 32\<rparr>, cache)) src len;
       iter \<leftarrow> Table_iter D table;
       assert_eq (Cache_count cache) 0;
       (_, iter) \<leftarrow> table_next D (iter, cache);
       assert_eq (Cache_count (snd iter)) 1;
       (_, iter) \<leftarrow> table_next D iter;
       (_, iter) \<leftarrow> table_next D iter;
       (_, iter) \<leftarrow> table_next D iter;
       (_, iter) \<leftarrow> table_next D iter;
       assert_eq (Cache_count (snd iter)) 2
     }"

definition test_table_block_tiny_cache :: "deps \<Rightarrow> unit run" where
  "test_table_block_tiny_cache D =
     do {
       (src, len) \<leftarrow> tests_build_table D build_data;
       opt \<leftarrow> Options_default_block_cache D;
       (opt, cache) \<leftarrow> Options_with_cache_capacity opt 1;
       (table, cache) \<leftarrow> table_under_test D (Some (opt\<lparr>block_size := 32\<rparr>, cache)) src len;
       iter \<leftarrow> Table_iter D table;
       assert_eq (Cache_count cache) 0;
       (_, iter) \<leftarrow> table_next D (iter, cache);
       assert_eq (Cache_count (snd iter)) 1;
       (_, iter) \<leftarrow> table_next D iter;
       assert_eq (Cache_count (snd iter)) 1
     }"

text \<open>The loop that asks the filters for each key, and for a key that is not stored.\<close>

partial_function (option) check_filters :: "deps \<Rightarrow> FilterBlockReader \<Rightarrow> table_iter \<Rightarrow> unit run" where
  "check_filters D filter_reader iter =
     do {
       (r, iter) \<leftarrow> table_next D iter;
       case r of
         None \<Rightarrow> Some ()
       | Some (k, _) \<Rightarrow>
           do {
             b \<leftarrow> FilterBlockReader_key_may_match D filter_reader (ti_current_block_off (fst iter)) k;
             rassert b;
             b \<leftarrow> FilterBlockReader_key_may_match D filter_reader (ti_current_block_off (fst iter))
               (as_bytes ''somerandomkey'');
             rassert (\<not> b);
             check_filters D filter_reader iter
           }
     }"

declare check_filters.simps [code]

definition test_table_iterator_filter :: "deps \<Rightarrow> unit run" where
  "test_table_iterator_filter D =
     do {
       (src, len) \<leftarrow> tests_build_table D build_data;
       (table, cache) \<leftarrow> table_under_test D (Options_default_block_cache D) src len;
       rassert (tab_filters table \<noteq> None);
       filter_reader \<leftarrow> tab_filters table;
       iter \<leftarrow> Table_iter D table;
       check_filters D filter_reader (iter, cache)
     }"

text \<open>The loop that looks every entry up; the iterator and the table share the cache.\<close>

partial_function (option) get_entries :: "deps \<Rightarrow> Table \<Rightarrow> table_iter \<Rightarrow> block_cache run" where
  "get_entries D table iter =
     do {
       (r, iter) \<leftarrow> SSIteratorIter_next (TableIterator_methods D) iter;
       case r of
         None \<Rightarrow> Some (snd iter)
       | Some (k, v) \<Rightarrow>
           do {
             (r, cache) \<leftarrow> Table_get D table k (snd iter);
             assert_eq (Inr (Some v)) r;
             get_entries D table (fst iter, cache)
           }
     }"

declare get_entries.simps [code]

definition get_none :: "deps \<Rightarrow> Table \<Rightarrow> string \<Rightarrow> block_cache \<Rightarrow> block_cache run" where
  "get_none D table key cache =
     do {
       (r, cache) \<leftarrow> Table_get D table (as_bytes key) cache;
       v \<leftarrow> run_unwrap r;
       rassert (v = None);
       Some cache
     }"

definition test_table_get :: "deps \<Rightarrow> unit run" where
  "test_table_get D =
     do {
       (src, len) \<leftarrow> tests_build_table D build_data;
       (table, cache) \<leftarrow> table_under_test D (Options_default_block_cache D) src len;
       iter \<leftarrow> Table_iter D table;
       cache \<leftarrow> get_entries D table (iter, cache);
       assert_eq (Cache_count cache) 3;
       cache \<leftarrow> get_none D table ''aaa'' cache;
       cache \<leftarrow> get_none D table ''aaaa'' cache;
       cache \<leftarrow> get_none D table ''aa'' cache;
       cache \<leftarrow> get_none D table ''abcd'' cache;
       cache \<leftarrow> get_none D table ''abb'' cache;
       cache \<leftarrow> get_none D table ''xyy'' cache;
       cache \<leftarrow> get_none D table ''zzy'' cache;
       cache \<leftarrow> get_none D table ''zz1'' cache;
       cache \<leftarrow> get_none D table ''zz{'' cache;
       Some ()
     }"

text \<open>The loop that returns at an entry with the given key, and panics without one.\<close>

partial_function (option) find_key :: "deps \<Rightarrow> bytes \<Rightarrow> table_iter \<Rightarrow> unit run" where
  "find_key D key iter =
     do {
       (r, iter) \<leftarrow> SSIteratorIter_next (TableIterator_methods D) iter;
       case r of
         None \<Rightarrow> None
       | Some (k, _) \<Rightarrow> if k = key then Some () else find_key D key iter
     }"

declare find_key.simps [code]

definition test_table_reader_checksum :: "deps \<Rightarrow> unit run" where
  "test_table_reader_checksum D =
     do {
       (src, len) \<leftarrow> tests_build_table D build_data;
       b \<leftarrow> vec_index src 10;
       rassert (unat b + 1 < 2 ^ 8);
       let src = src[10 := b + 1];
       (table, cache) \<leftarrow> table_under_test D (Options_default_block_cache D) src len;
       filters \<leftarrow> tab_filters table;
       n \<leftarrow> FilterBlockReader_num filters;
       assert_eq n 1;
       iter \<leftarrow> Table_iter D table;
       (entries, iter) \<leftarrow> drain (TableIterator_advance D) TableIterator_current (iter, cache);
       assert_eq (length entries) 4;
       iter' \<leftarrow> Table_iter D table;
       d \<leftarrow> vec_index build_data 5;
       find_key D (fst d) (iter', snd iter)
     }"

section \<open>The data blocks under test\<close>

context integer_codec
begin

lemma encode_var_small: "n < 128 \<Longrightarrow> length (encode_var D n) = 1"
  using required_space_le [of 1 n] length_encode_var_pos [of n] by (simp add: length_encode_var)

lemma entry_bytes_small:
  "length (ent_key e) < 128 \<Longrightarrow> length (ent_val e) < 128 \<Longrightarrow> ent_shared e \<le> length (ent_key e) \<Longrightarrow>
   length (entry_bytes D e) = 3 + (length (ent_key e) - ent_shared e) + length (ent_val e)"
  by (simp add: entry_bytes_length entry_head_def encode_var_small)

lemma build_groups:
  "ref_cut D (build_opt D) [] build_data = [take 3 build_data, take 3 (drop 3 build_data), drop 6 build_data]"
  by (simp add: build_data_def as_bytes_def ref_block_def block_bytes_length ref_entries_def ref_shared_def
      ref_restarts_def upt_rec layout_simps entry_bytes_small)

end

abbreviation tested_blocks :: "deps \<Rightarrow> data_block list" where
  "tested_blocks D \<equiv> table_blocks D (build_opt D) build_data"

lemma tested_entries:
  assumes "integer_codec D"
  shows "map db_entries (tested_blocks D) = [take 3 build_data, take 3 (drop 3 build_data), drop 6 build_data]"
  using integer_codec.build_groups [OF assms] by simp

lemma tested_three:
  assumes "integer_codec D"
  shows "length (tested_blocks D) = 3"
  using arg_cong [OF tested_entries [OF assms], of length] by (simp del: table_blocks_entries)

text \<open>The block of each entry.\<close>

lemma tested_block_of:
  assumes "integer_codec D" "n = flat (tested_blocks D) i j" "i < 3" "j < length (db_entries (tested_blocks D ! i))"
  shows "i = n div 3"
proof -
  let ?es = "map db_entries (tested_blocks D)"
  have es: "?es = [take 3 build_data, take 3 (drop 3 build_data), drop 6 build_data]"
    by (rule tested_entries [OF assms(1)])
  have "n = length (concat (take i ?es)) + j" "j < length (?es ! i)"
    using assms(2-4) tested_three [OF assms(1)] by (simp_all add: flat_def all_entries_def take_map [symmetric] del: table_blocks_entries)
  moreover have "i = 0 \<or> i = 1 \<or> i = 2" using assms(3) by linarith
  ultimately show ?thesis unfolding es by (elim disjE) simp_all
qed

section \<open>Opening the table under test\<close>

text \<open>The table is written with the options of the tests and read with any options that agree with them on
  the comparator and the filter policy.\<close>

lemma build_fits: "table_fits (build_opt D) build_data"
  using take_fits [of D 7] by simp

lemma build_short: "short_comparator (opt_cmp (build_opt D))"
  using default_cmp.short_comparator_axioms by simp

abbreviation read_opt :: "deps \<Rightarrow> Options \<Rightarrow> bool" where
  "read_opt D opt \<equiv> opt_cmp opt = DefaultCmp \<and> opt_filter_policy opt = BloomPolicy_new D 10"

lemma tests_build_file:
  assumes "third_party_laws D"
  shows "tests_build_table D build_data =
    Some (ref_file D (build_opt D) build_data, length (ref_file D (build_opt D) build_data))"
proof -
  obtain b tbl where b: "fold_run (add_unwrap D) build_data (TableBuilder_new (build_opt D) []) = Some b"
    "finish_unwrap D b = Some (length tbl, tbl)" "build_file D (build_opt D) build_data = Some (Inr tbl)"
    by (rule tests_build [OF assms _ build_fits]) simp_all
  moreover have "build_file D (build_opt D) build_data = Some (Inr (ref_file D (build_opt D) build_data))"
    using built_file [OF assms build_short build_fits] by metis
  ultimately show ?thesis by (simp add: tests_build_table_def Let_def)
qed

lemma opened_test:
  assumes D: "third_party_laws D" and opt: "read_opt D opt" and cap: "0 < cap" "cap < 2 ^ 64"
  shows "\<exists>cache t c it. Cache_new cap = Some cache \<and>
    table_under_test D (Some (opt, cache)) (ref_file D (build_opt D) build_data)
      (length (ref_file D (build_opt D) build_data)) = Some (t, c) \<and>
    opened_with D opt cap build_data (tested_blocks D) t c \<and> cache_holds cap 1 c [] \<and>
    reference_parts D (build_opt D) build_data t \<and> Table_iter D t = Some it \<and> ti_table it = t \<and>
    table_at D DefaultCmp cap 1 {(t, tested_blocks D)} (tested_blocks D) build_data None (it, c)"
proof -
  have same: "opt_cmp opt = opt_cmp (build_opt D)" "opt_filter_policy opt = opt_filter_policy (build_opt D)"
    using opt by simp_all
  have built: "build_file D (build_opt D) build_data = Some (Inr (ref_file D (build_opt D) build_data))"
    using built_file [OF D build_short build_fits] by metis
  from open_written [OF D build_short build_fits cap same] built obtain cache t c where
    t: "Cache_new cap = Some cache"
      "open_file D opt (ref_file D (build_opt D) build_data) cache = Some (Inr t, c)"
      "opened_with D opt cap build_data (tested_blocks D) t c" "cache_holds cap 1 c []"
      "reference_parts D (build_opt D) build_data t" by auto
  have "short_comparator (opt_cmp opt)" using opt default_cmp.short_comparator_axioms by simp
  from opened_iter [OF D this t(3)] opt obtain it where "Table_iter D t = Some it" "ti_table it = t"
    "table_at D DefaultCmp cap 1 {(t, tested_blocks D)} (tested_blocks D) build_data None (it, c)" by auto
  with t show ?thesis by (auto simp: table_under_test_def open_file_def run_unwrap_def)
qed

lemma default_cap: "0 < Options_default_cache_capacity" "Options_default_cache_capacity < 2 ^ 64"
  "3 \<le> Options_default_cache_capacity"
  by (simp_all add: Options_default_cache_capacity_def BLOCK_CACHE_CAPACITY_def BLOCK_MAX_SIZE_def MB_def KB_def)

section \<open>The block cache\<close>

text \<open>What \<open>next\<close> does, called any number of times on the iterator of the table under test.\<close>

fun next_times :: "deps \<Rightarrow> nat \<Rightarrow> table_iter \<Rightarrow> table_iter run" where
  "next_times D 0 it = Some it"
| "next_times D (Suc n) it = do { it \<leftarrow> next_times D n it; (_, it) \<leftarrow> table_next D it; Some it }"

lemma next_advance:
  "table_next D it = Some (Some kv, it') \<Longrightarrow> TableIterator_advance D it = Some (True, it')"
  by (auto simp: SSIterator_next_def bind_eq_Some_conv split: if_splits)

lemma next_advance_times:
  assumes "table_at D C cap cid T bs es None it" "n \<le> length es"
  shows "\<exists>it'. next_times D n it = Some it' \<and> advance_times D n it = Some it' \<and>
    table_at D C cap cid T bs es (if n = 0 then None else Some (n - 1)) it'"
  using assms(2)
proof (induction n)
  case (Suc n)
  then obtain it1 where it1: "next_times D n it = Some it1" "advance_times D n it = Some it1"
    "table_at D C cap cid T bs es (if n = 0 then None else Some (n - 1)) it1" by auto
  have "next_pos (if n = 0 then None else Some (n - 1)) = n" by simp
  with table_iterator.next_inside [OF it1(3)] Suc.prems obtain it2 where
    "table_next D it1 = Some (Some (es ! n), it2)" "table_at D C cap cid T bs es (Some n) it2" by auto
  with it1 next_advance [OF this(1)] show ?case by simp
qed (simp add: assms(1))

text \<open>After \<open>n + 1\<close> calls of \<open>next\<close> the blocks of the first \<open>n + 1\<close> entries have been read.\<close>

lemma cached_after:
  assumes D: "third_party_laws D" and opt: "read_opt D opt" and cap: "0 < cap"
    and at: "opened_with D opt cap build_data (tested_blocks D) t c" "cache_holds cap 1 c []" "ti_table it = t"
      "table_at D DefaultCmp cap 1 {(t, tested_blocks D)} (tested_blocks D) build_data None (it, c)"
    and n: "n < 7"
  shows "\<exists>it'. next_times D (Suc n) (it, c) = Some it' \<and> Cache_count (snd it') = min cap (Suc (n div 3))"
proof -
  have codec: "integer_codec D" using D by (simp add: third_party_laws_def)
  have len: "length (tested_blocks D) = 3" by (rule tested_three [OF codec])
  have start: "reading D DefaultCmp cap 1 {(t, tested_blocks D)} (tested_blocks D) (ti_table it) c"
    "before_blocks D DefaultCmp (tested_blocks D) it" "all_entries (tested_blocks D) = build_data"
    using at(4) by (simp_all add: table_at_none)
  from next_advance_times [OF at(4), of "Suc n"] n obtain it' where
    it': "next_times D (Suc n) (it, c) = Some it'" "advance_times D (Suc n) (it, c) = Some it'" by auto
  from advance_times_at [OF start(1,2) entered_none [OF at(2)] cap, of n] n start(3) it'(2) obtain i where
    s: "caching D DefaultCmp cap 1 {(t, tested_blocks D)} (tested_blocks D) (ti_table it) n i it'" by auto
  have i: "i < 3" using caching_block [OF s] len by simp
  obtain j where j: "n = flat (tested_blocks D) i j" "j < length (db_entries (tested_blocks D ! i))"
    using s block_iter.at_bounds by (auto simp: caching_def in_block_def)
  have "i = n div 3" by (rule tested_block_of [OF codec j(1) i j(2)])
  moreover have "entered D (ti_table it) (tested_blocks D) cap 1 (Suc i) (snd it')" using s by (simp add: caching_def)
  ultimately show ?thesis using entered_held(2) [of D "ti_table it" "tested_blocks D" cap 1 "Suc i" "snd it'"] it'(1) i len
    by auto
qed

text \<open>An index or metaindex block is never in the cache, and an entry of the second block needs two.\<close>

lemma block_cache_use_test:
  assumes D: "third_party_laws D"
  shows "test_table_block_cache_use D = Some ()"
proof -
  let ?opt = "(Options_default D)\<lparr>block_size := 32\<rparr>"
  have opt: "read_opt D ?opt" by simp
  from opened_test [OF D opt default_cap(1,2)] obtain cache t c it where
    t: "Cache_new Options_default_cache_capacity = Some cache"
      "table_under_test D (Some (?opt, cache)) (ref_file D (build_opt D) build_data)
         (length (ref_file D (build_opt D) build_data)) = Some (t, c)"
      "opened_with D ?opt Options_default_cache_capacity build_data (tested_blocks D) t c"
      "cache_holds Options_default_cache_capacity 1 c []" "Table_iter D t = Some it" "ti_table it = t"
      "table_at D DefaultCmp Options_default_cache_capacity 1 {(t, tested_blocks D)} (tested_blocks D) build_data None (it, c)"
    by blast
  have empty: "Cache_count c = 0" using t(4) Cache_count_view [of c "[]"] by (simp add: cache_holds_def)
  note cached = cached_after [OF D opt default_cap(1) t(3,4,6,7)]
  obtain it1 where it1: "next_times D (Suc 0) (it, c) = Some it1" "Cache_count (snd it1) = 1"
    using cached [of 0] default_cap(1) by auto
  obtain it5 where it5: "next_times D (Suc (Suc (Suc (Suc (Suc 0))))) (it, c) = Some it5" "Cache_count (snd it5) = 2"
    using cached [of "Suc (Suc (Suc (Suc 0)))"] default_cap(3) by auto
  with empty it1 show ?thesis using t(1,2,5)
    by (auto simp: test_table_block_cache_use_def tests_build_file [OF D] Options_default_block_cache_def
        bind_eq_Some_conv)
qed

lemma block_tiny_cache_test:
  assumes D: "third_party_laws D"
  shows "test_table_block_tiny_cache D = Some ()"
proof -
  let ?opt = "(Options_default D)\<lparr>block_size := 32\<rparr>"
  have opt: "read_opt D ?opt" by simp
  from opened_test [OF D opt, of 1] obtain cache t c it where
    t: "Cache_new 1 = Some cache"
      "table_under_test D (Some (?opt, cache)) (ref_file D (build_opt D) build_data)
         (length (ref_file D (build_opt D) build_data)) = Some (t, c)"
      "opened_with D ?opt 1 build_data (tested_blocks D) t c"
      "cache_holds 1 1 c []" "Table_iter D t = Some it" "ti_table it = t"
      "table_at D DefaultCmp 1 1 {(t, tested_blocks D)} (tested_blocks D) build_data None (it, c)"
    by auto
  have empty: "Cache_count c = 0" using t(4) Cache_count_view [of c "[]"] by (simp add: cache_holds_def)
  note cached = cached_after [OF D opt zero_less_one t(3,4,6,7)]
  obtain it1 where it1: "next_times D (Suc 0) (it, c) = Some it1" "Cache_count (snd it1) = 1"
    using cached [of 0] by auto
  obtain it2 where it2: "next_times D (Suc 1) (it, c) = Some it2" "Cache_count (snd it2) = 1"
    using cached [of 1] by auto
  obtain cache' :: block_cache where "Cache_new Options_default_cache_capacity = Some cache'"
    using Cache_new_is [OF default_cap(1)] by blast
  with empty it1 it2 show ?thesis using t(1,2,5)
    by (auto simp: test_table_block_tiny_cache_def tests_build_file [OF D] Options_default_block_cache_def
        Options_with_cache_capacity_def bind_eq_Some_conv)
qed

section \<open>Lookups\<close>

lemma methods_next [simp]: "SSIteratorIter_next (TableIterator_methods D) it = table_next D it"
  by (simp add: SSIteratorIter_next_def TableIterator_methods_def)

text \<open>The state of the loop of \<open>test_table_get\<close> after the entry it looked up last.\<close>

definition getting :: "deps \<Rightarrow> Table \<Rightarrow> nat \<Rightarrow> table_iter \<Rightarrow> bool" where
  "getting D t n it \<longleftrightarrow>
     opened_with D (Options_default D) Options_default_cache_capacity build_data (tested_blocks D) t (snd it) \<and>
     (\<exists>i. caching D DefaultCmp Options_default_cache_capacity 1 {(t, tested_blocks D)} (tested_blocks D) t n i it)"

lemma getting_lookup:
  assumes D: "third_party_laws D"
    and at: "caching D DefaultCmp Options_default_cache_capacity 1 {(t, tested_blocks D)} (tested_blocks D) t n i it"
    and before: "opened_with D (Options_default D) Options_default_cache_capacity build_data (tested_blocks D) t c0"
    and n: "n < 7"
  shows "\<exists>c. Table_get D t (fst (build_data ! n)) (snd it) = Some (Inr (Some (snd (build_data ! n))), c) \<and>
    getting D t n (fst it, c)"
proof -
  have opt: "opt_cmp (Options_default D) = DefaultCmp" "nonempty_filter_policy (opt_filter_policy (Options_default D))"
    using bloom.nonempty_filter_policy_axioms by simp_all
  have "length (fst (build_data ! n)) = 3" using build_data_keys n by simp
  then have len: "length (fst (build_data ! n)) < 2 ^ 32" by simp
  have opened: "opened_with D (Options_default D) Options_default_cache_capacity build_data (tested_blocks D) t (snd it)"
    using at before by (auto simp: caching_def reading_def opened_with_def)
  from caching_get [OF D opt opened build_data_plain default_cap(1) _ len, of i "fst it"] at
  show ?thesis by (auto simp: getting_def)
qed

text \<open>At the end all blocks have been read, each once.\<close>

definition gotten :: "deps \<Rightarrow> Table \<Rightarrow> block_cache \<Rightarrow> bool" where
  "gotten D t c \<longleftrightarrow>
     opened_with D (Options_default D) Options_default_cache_capacity build_data (tested_blocks D) t c \<and>
     Cache_count c = 3"

lemma get_entries_step:
  assumes "table_next D it = Some (Some (build_data ! n), it')"
    and "Table_get D t (fst (build_data ! n)) (snd it') = Some (Inr (Some (snd (build_data ! n))), c)"
  shows "get_entries D t it = get_entries D t (fst it', c)"
  using assms by (cases "build_data ! n") (simp add: get_entries.simps [of D t it])

lemma caching_entry:
  assumes "caching D C cap cid T blocks t n i it"
  shows "current_key_val TableIterator_current it = Some (Some (all_entries blocks ! n))"
  by (rule table_iterator.current_key_val_at [OF caching_at [OF assms]])

lemma next_entry:
  "TableIterator_advance D it = Some (True, it') \<Longrightarrow>
   current_key_val TableIterator_current it' = Some (Some kv) \<Longrightarrow> table_next D it = Some (Some kv, it')"
  by (cases kv) (auto simp: SSIterator_next_def current_key_val_def bind_eq_Some_conv split: if_splits)

lemma get_entries_from:
  assumes D: "third_party_laws D"
  shows "getting D t n it \<Longrightarrow> n < 7 \<Longrightarrow> \<exists>c. get_entries D t it = Some c \<and> gotten D t c"
proof (induction "6 - n" arbitrary: n it)
  case 0
  have codec: "integer_codec D" using D by (simp add: third_party_laws_def)
  obtain i where opened: "opened_with D (Options_default D) Options_default_cache_capacity build_data (tested_blocks D) t (snd it)"
    and at: "caching D DefaultCmp Options_default_cache_capacity 1 {(t, tested_blocks D)} (tested_blocks D) t n i it"
    using 0 by (auto simp: getting_def)
  have "length (all_entries (tested_blocks D)) \<le> Suc n" using opened 0 by (simp add: opened_with_def)
  from caching_end [OF at this] obtain it' where
    i: "Suc i = length (tested_blocks D)" and it': "TableIterator_advance D it = Some (False, it')" "snd it' = snd it"
    by blast
  have "entered D t (tested_blocks D) Options_default_cache_capacity 1 (Suc i) (snd it)"
    using at by (simp add: caching_def)
  then have "Cache_count (snd it) = 3"
    using entered_held(2) [of D t "tested_blocks D" _ 1 "Suc i" "snd it"] i tested_three [OF codec] default_cap(3) by simp
  with opened it' show ?case by (simp add: get_entries.simps [of D t it] SSIterator_next_def gotten_def)
next
  case (Suc m)
  then obtain i where
    at: "caching D DefaultCmp Options_default_cache_capacity 1 {(t, tested_blocks D)} (tested_blocks D) t n i it"
    by (auto simp: getting_def)
  have all: "all_entries (tested_blocks D) = build_data" using Suc.prems(1) by (simp add: getting_def opened_with_def)
  have n: "Suc n < 7" "m = 6 - Suc n" using Suc.hyps(2) by linarith+
  from caching_next [OF at default_cap(1)] n all obtain i' it1 where
    it1: "TableIterator_advance D it = Some (True, it1)"
      "caching D DefaultCmp Options_default_cache_capacity 1 {(t, tested_blocks D)} (tested_blocks D) t (Suc n) i' it1" by auto
  have next1: "table_next D it = Some (Some (build_data ! Suc n), it1)"
    using next_entry [OF it1(1) caching_entry [OF it1(2)]] all by simp
  from Suc.prems(1) have
    "opened_with D (Options_default D) Options_default_cache_capacity build_data (tested_blocks D) t (snd it)"
    by (simp add: getting_def)
  from getting_lookup [OF D it1(2) this n(1)] obtain c where
    c: "Table_get D t (fst (build_data ! Suc n)) (snd it1) = Some (Inr (Some (snd (build_data ! Suc n))), c)"
      "getting D t (Suc n) (fst it1, c)" by blast
  from Suc.hyps(1) [OF n(2) c(2) n(1)] get_entries_step [OF next1 c(1)] show ?case by simp
qed

lemma get_entries_all:
  assumes D: "third_party_laws D" and it: "ti_table it = t" and empty: "cache_holds Options_default_cache_capacity 1 c []"
    and opened: "opened_with D (Options_default D) Options_default_cache_capacity build_data (tested_blocks D) t c"
    and at: "table_at D DefaultCmp Options_default_cache_capacity 1 {(t, tested_blocks D)} (tested_blocks D) build_data None (it, c)"
  shows "\<exists>c'. get_entries D t (it, c) = Some c' \<and> gotten D t c'"
proof -
  have start: "reading D DefaultCmp Options_default_cache_capacity 1 {(t, tested_blocks D)} (tested_blocks D) (ti_table it) c"
    "before_blocks D DefaultCmp (tested_blocks D) it" "all_entries (tested_blocks D) = build_data"
    using at by (simp_all add: table_at_none)
  have "tested_blocks D \<noteq> []" using arg_cong [OF start(3), of length] by auto
  from caching_start [OF start(1,2) entered_none [OF empty] default_cap(1) this] it obtain it1 where
    it1: "TableIterator_advance D (it, c) = Some (True, it1)"
      "caching D DefaultCmp Options_default_cache_capacity 1 {(t, tested_blocks D)} (tested_blocks D) t 0 0 it1" by auto
  have next1: "table_next D (it, c) = Some (Some (build_data ! 0), it1)"
    using next_entry [OF it1(1) caching_entry [OF it1(2)]] start(3) by simp
  from getting_lookup [OF D it1(2) opened] obtain c1 where
    c1: "Table_get D t (fst (build_data ! 0)) (snd it1) = Some (Inr (Some (snd (build_data ! 0))), c1)"
      "getting D t 0 (fst it1, c1)" by auto
  from get_entries_from [OF D c1(2)] get_entries_step [OF next1 c1(1)] show ?thesis by simp
qed

lemma get_none_absent:
  assumes D: "third_party_laws D" and key: "as_bytes key \<notin> fst ` set build_data" "length key < 5"
    and opened: "opened_with D (Options_default D) Options_default_cache_capacity build_data (tested_blocks D) t c"
  shows "\<exists>c'. get_none D t key c = Some c' \<and>
    opened_with D (Options_default D) Options_default_cache_capacity build_data (tested_blocks D) t c'"
proof -
  have opt: "opt_cmp (Options_default D) = DefaultCmp" "nonempty_filter_policy (opt_filter_policy (Options_default D))"
    using bloom.nonempty_filter_policy_axioms by simp_all
  have C: "short_comparator (opt_cmp (Options_default D))" using default_cmp.short_comparator_axioms by simp
  note o = opened_blocks [OF D C opened, unfolded opt(1)]
  have "get_result DefaultCmp (as_bytes key) (tested_blocks D) = map_of build_data (as_bytes key)"
    using get_result_default [OF o(1,2)] build_data_plain o(3) by simp
  also have "\<dots> = None" using key(1) by (simp add: map_of_eq_None_iff)
  finally have "get_result DefaultCmp (as_bytes key) (tested_blocks D) = None" .
  moreover have "length (as_bytes key) < 2 ^ 32" using key(2) by (simp add: as_bytes_def)
  ultimately show ?thesis
    using opened_get [OF D C opened opt(2), of "as_bytes key"] opt(1) by (auto simp: get_none_def run_unwrap_def)
qed

text \<open>A lookup of an absent key at the head of a run that goes on with any cache of the table.\<close>

lemma get_none_bind:
  assumes "third_party_laws D" "as_bytes key \<notin> fst ` set build_data" "length key < 5"
    and "opened_with D (Options_default D) Options_default_cache_capacity build_data (tested_blocks D) t c"
    and "\<And>c'. opened_with D (Options_default D) Options_default_cache_capacity build_data (tested_blocks D) t c' \<Longrightarrow>
      rest c' = Some x"
  shows "get_none D t key c \<bind> rest = Some x"
  using get_none_absent [OF assms(1-4)] assms(5) by auto

lemma table_get_test:
  assumes D: "third_party_laws D"
  shows "test_table_get D = Some ()"
proof -
  from opened_test [OF D _ default_cap(1,2), of "Options_default D"] obtain cache t c it where
    t: "Cache_new Options_default_cache_capacity = Some cache"
      "table_under_test D (Some (Options_default D, cache)) (ref_file D (build_opt D) build_data)
         (length (ref_file D (build_opt D) build_data)) = Some (t, c)"
      "opened_with D (Options_default D) Options_default_cache_capacity build_data (tested_blocks D) t c"
      "cache_holds Options_default_cache_capacity 1 c []" "Table_iter D t = Some it" "ti_table it = t"
      "table_at D DefaultCmp Options_default_cache_capacity 1 {(t, tested_blocks D)} (tested_blocks D) build_data None (it, c)"
    by auto
  from get_entries_all [OF D t(6,4,3,7)] obtain c' where
    c': "get_entries D t (it, c) = Some c'" "Cache_count c' = 3"
      "opened_with D (Options_default D) Options_default_cache_capacity build_data (tested_blocks D) t c'"
    by (auto simp: gotten_def)
  have "test_table_get D = do {
      cache \<leftarrow> get_none D t ''aaa'' c';
      cache \<leftarrow> get_none D t ''aaaa'' cache;
      cache \<leftarrow> get_none D t ''aa'' cache;
      cache \<leftarrow> get_none D t ''abcd'' cache;
      cache \<leftarrow> get_none D t ''abb'' cache;
      cache \<leftarrow> get_none D t ''xyy'' cache;
      cache \<leftarrow> get_none D t ''zzy'' cache;
      cache \<leftarrow> get_none D t ''zz1'' cache;
      cache \<leftarrow> get_none D t ''zz{'' cache;
      Some ()
    }"
    using t(1,2,5) c'(1,2)
    by (simp add: test_table_get_def tests_build_file [OF D] Options_default_block_cache_def)
  also have "\<dots> = Some ()"
    using c'(3) by (intro get_none_bind [OF D]) (simp_all add: build_data_def as_bytes_def)
  finally show ?thesis .
qed

section \<open>A damaged file\<close>

text \<open>The stored data blocks, with the reference instance of the third-party functions: Snappy's literals.\<close>

lemma tested_stored:
  "ref_stored reference_deps (build_opt reference_deps) (take 3 build_data) =
     37 # 144 # ref_block reference_deps (build_opt reference_deps) (take 3 build_data)"
  "ref_stored reference_deps (build_opt reference_deps) (take 3 (drop 3 build_data)) =
     39 # 152 # ref_block reference_deps (build_opt reference_deps) (take 3 (drop 3 build_data))"
  "ref_stored reference_deps (build_opt reference_deps) (drop 6 build_data) =
     17 # 64 # ref_block reference_deps (build_opt reference_deps) (drop 6 build_data)"
  by (simp_all add: build_data_def as_bytes_def ref_stored_def ref_pack_def pack_def reference_deps_def ref_compress_def
      ref_block_def ref_entries_def ref_shared_def ref_restarts_def block_bytes_def layout_simps entry_bytes_def
      entry_head_def leb_encode.simps snap_literals.simps le32_encode_def usize_as_u32_def ent_off_def upt_rec)

lemma tested_block_bytes:
  "length (ref_block reference_deps (build_opt reference_deps) (take 3 build_data)) = 37"
  "length (ref_block reference_deps (build_opt reference_deps) (take 3 (drop 3 build_data))) = 39"
  "length (ref_block reference_deps (build_opt reference_deps) (drop 6 build_data)) = 17"
  "ref_block reference_deps (build_opt reference_deps) (take 3 build_data) ! 8 = 102"
  by (simp_all add: build_data_def as_bytes_def reference_deps_def
      ref_block_def ref_entries_def ref_shared_def ref_restarts_def block_bytes_def layout_simps entry_bytes_def
      entry_head_def leb_encode.simps le32_encode_def usize_as_u32_def ent_off_def upt_rec)

abbreviation tested_file :: bytes where
  "tested_file \<equiv> ref_file reference_deps (build_opt reference_deps) build_data"

abbreviation tested_groups :: "(bytes \<times> bytes) list list" where
  "tested_groups \<equiv> ref_cut reference_deps (build_opt reference_deps) [] build_data"

lemmas ref_groups = integer_codec.build_groups [OF third_party_laws.axioms(1) [OF ref_deps.third_party_laws_axioms]]

lemma length_sealed_ref: "length (sealed reference_deps c xs) = length xs + 5"
  by (simp add: sealed_def integer_codec.length_encode_fixed32 [OF third_party_laws.axioms(1) [OF ref_deps.third_party_laws_axioms]])

lemma tested_data_length: "length (ref_data reference_deps (build_opt reference_deps) tested_groups) = 114"
  unfolding ref_groups by (simp add: ref_data_def length_sealed_ref tested_stored tested_block_bytes)

lemma tested_byte: "tested_file ! 10 = 102" "10 < length tested_file"
proof -
  let ?b = "ref_block reference_deps (build_opt reference_deps) (take 3 build_data)"
  have "\<exists>rest. tested_file = 37 # 144 # ?b @ rest"
    unfolding ref_file_def ref_file_of_def ref_groups by (simp add: ref_data_def sealed_def tested_stored)
  then obtain rest where "tested_file = 37 # 144 # ?b @ rest" by blast
  then show "tested_file ! 10 = 102" "10 < length tested_file"
    by (simp_all add: tested_block_bytes nth_append)
qed

text \<open>The first block, and what is left of the table without it.\<close>

lemma tested_first:
  "\<exists>b bs. tested_blocks reference_deps = b # bs \<and> bh_offset (db_handle b) = 0 \<and> block_end b = 44 \<and>
     all_entries bs = drop 3 build_data"
  unfolding table_blocks_def ref_groups
  by (simp add: Let_def tested_stored tested_block_bytes BlockHandle_new_def block_end_def all_entries_def)
    (simp add: build_data_def)

lemma tested_filters:
  "length (filters_of P (table_records (tested_blocks reference_deps)) 114) = 1"
proof -
  obtain b bs where b: "tested_blocks reference_deps = b # bs" "bh_offset (db_handle b) = 0" using tested_first by blast
  have "map db_entries (tested_blocks reference_deps) = [take 3 build_data, take 3 (drop 3 build_data), drop 6 build_data]"
    by (rule tested_entries [OF third_party_laws.axioms(1) [OF ref_deps.third_party_laws_axioms]])
  then have "db_entries b \<noteq> []" using b(1) by (auto simp del: table_blocks_entries simp: build_data_def)
  then have "filter_group (table_records (tested_blocks reference_deps)) 0 \<noteq> []"
    using b by (auto simp: table_records_def filter_group_def filter_empty_conv)
  then show ?thesis by (simp add: filters_of_def)
qed

text \<open>Iterating leaves an iterator's table alone.\<close>

lemma load_block_table: "load_block D it h = Some (r, it') \<Longrightarrow> ti_table (fst it') = ti_table (fst it)"
proof -
  assume load: "load_block D it h = Some (r, it')"
  obtain self c where it: "it = (self, c)" by (cases it)
  with load obtain loc res c' where "Table_read_block D (ti_table self) loc c = Some (res, c')"
    "(case res of Inl e \<Rightarrow> Some (Inl e, self, c')
      | Inr block \<Rightarrow> do { iter \<leftarrow> Block_iter D block;
          Some (Inr (), self\<lparr>ti_current_block := Some iter, ti_current_block_off := bh_offset loc\<rparr>, c') }) =
      Some (r, it')" by (auto simp: bind_eq_Some_conv)
  then show ?thesis by (cases res) (auto simp: it bind_eq_Some_conv)
qed

lemma skip_table: "skip_to_next_entry D it = Some (r, it') \<Longrightarrow> ti_table (fst it') = ti_table (fst it)"
  by (cases it) (auto simp: bind_eq_Some_conv Let_def split: option.splits dest!: load_block_table simp del: load_block.simps)

lemma advance_current_table: "advance_current D it = Some (r, it') \<Longrightarrow> ti_table (fst it') = ti_table (fst it)"
  by (cases it) (auto simp: bind_eq_Some_conv split: option.splits)

lemma reset_table [simp]: "ti_table (fst (TableIterator_reset it)) = ti_table (fst it)"
  by (cases it) simp

lemma drop_current_table [simp]: "ti_table (fst (drop_current it)) = ti_table (fst it)"
  by (cases it) simp

lemma advance_table: "TableIterator_advance D it = Some y \<Longrightarrow> ti_table (fst (snd y)) = ti_table (fst it)"
proof (erule TableIterator_advance.raw_induct
    [where P = "\<lambda>D it y. ti_table (fst (snd y)) = ti_table (fst it)", rotated], goal_cases)
  case (1 adv D it y)
  let ?on = "\<lambda>it. do {
      (r, it) \<leftarrow> skip_to_next_entry D it;
      case r of Inl e \<Rightarrow> adv D it
      | Inr loaded \<Rightarrow> if loaded then adv D it else Some (False, TableIterator_reset it) }"
  have on: "ti_table (fst (snd y)) = ti_table (fst it)" if run: "?on it = Some y" for it
  proof -
    obtain r it1 where it1: "skip_to_next_entry D it = Some (r, it1)"
      "(case r of Inl e \<Rightarrow> adv D it1
        | Inr loaded \<Rightarrow> if loaded then adv D it1 else Some (False, TableIterator_reset it1)) = Some y"
      using run by (auto simp: bind_eq_Some_conv)
    with 1(1) have "ti_table (fst (snd y)) = ti_table (fst it1)" by (cases r) (auto split: if_splits)
    with skip_table [OF it1(1)] show ?thesis by simp
  qed
  show ?case
  proof (cases "ti_current_block (fst it) = None")
    case True
    with 1(2) on show ?thesis by simp
  next
    case False
    with 1(2) obtain b it1 where it1: "advance_current D it = Some (b, it1)"
      "(if b then Some (True, it1) else ?on (drop_current it1)) = Some y"
      by (auto simp: bind_eq_Some_conv)
    show ?thesis
    proof (cases b)
      case True
      with it1(2) advance_current_table [OF it1(1)] show ?thesis by auto
    next
      case False
      with it1(2) have "?on (drop_current it1) = Some y" by simp
      from on [OF this] advance_current_table [OF it1(1)] show ?thesis by simp
    qed
  qed
qed

lemma next_table: "table_next D it = Some (r, it') \<Longrightarrow> ti_table (fst it') = ti_table (fst it)"
  by (auto simp: SSIterator_next_def bind_eq_Some_conv split: if_splits dest!: advance_table)

lemma drain_table:
  "drain (TableIterator_advance D) TableIterator_current it = Some y \<Longrightarrow> ti_table (fst (snd y)) = ti_table (fst it)"
proof -
  assume "drain (TableIterator_advance D) TableIterator_current it = Some y"
  then have "TableIterator_advance D = TableIterator_advance D \<longrightarrow> TableIterator_current = TableIterator_current \<longrightarrow>
      ti_table (fst (snd y)) = ti_table (fst it)"
  proof (rule drain.raw_induct [where P = "\<lambda>advance current it y. advance = TableIterator_advance D \<longrightarrow>
      current = TableIterator_current \<longrightarrow> ti_table (fst (snd y)) = ti_table (fst it)", rotated], goal_cases)
    case (1 drain advance current it y)
    then show ?case
      by (fastforce simp: bind_eq_Some_conv split: option.split_asm dest!: next_table)
  qed
  then show ?thesis by simp
qed

lemma find_key_at:
  assumes "\<forall>j < i. fst (es ! j) \<noteq> fst (es ! i)" "i < length es"
  shows "damaged_at D C cap bs bad es p it \<Longrightarrow> next_pos p \<le> i \<Longrightarrow> find_key D (fst (es ! i)) it = Some ()"
proof (induction "i - next_pos p" arbitrary: p it)
  case 0
  then have "next_pos p = i" by simp
  with damaged_iterator.next_inside [OF 0(2)] assms(2) show ?case
    by (cases "es ! i") (auto simp: find_key.simps [of D _ it])
next
  case (Suc n)
  then have less: "next_pos p < i" by simp
  with assms(2) have "next_pos p < length es" by simp
  from damaged_iterator.next_inside [OF Suc.prems(1) this] obtain it1 where
    it1: "table_next D it = Some (Some (es ! next_pos p), it1)"
      "damaged_at D C cap bs bad es (Some (next_pos p)) it1" by blast
  have "n = i - next_pos (Some (next_pos p))" "next_pos (Some (next_pos p)) \<le> i"
    using Suc.hyps(2) less by simp_all
  from Suc.hyps(1) [OF this(1) it1(2) this(2)] show ?case
    using it1(1) assms(1) less by (cases "es ! next_pos p") (auto simp: find_key.simps [of D _ it])
qed

lemma checksum_test: "test_table_reader_checksum reference_deps = Some ()"
proof -
  let ?D = reference_deps and ?opt = "Options_default reference_deps"
    and ?bad = "{b. checksum_fails reference_deps (tested_file[10 := 103]) (db_handle b)}"
  note D = ref_deps.third_party_laws_axioms
  have C: "short_comparator (opt_cmp ?opt)" using default_cmp.short_comparator_axioms by simp
  note ex = built_exact [OF D build_short [of ?D] build_fits [of ?D]]
  have data: "data_blocks ?D (opt_cmp ?opt) tested_file (tested_blocks ?D)" using ex(3) by simp
  have tail: "table_tail ?D ?opt 114 tested_file (tested_blocks ?D) (ref_footer ?D (build_opt ?D) tested_groups)"
    using ex(4) unfolding tested_data_length by (rule table_tail_reader) simp
  obtain b bs where b: "tested_blocks ?D = b # bs" "bh_offset (db_handle b) = 0" "block_end b = 44"
    "all_entries bs = drop 3 build_data" using tested_first by blast
  have laid: "laid_out 114 (tested_blocks ?D)" "114 \<le> length tested_file"
    "\<forall>b \<in> set (tested_blocks ?D). data_ok ?D tested_file b"
    using tail table_tail_length [OF tail] data by (simp_all add: table_tail_def data_blocks_def)
  have mem: "b \<in> set (tested_blocks ?D)" "bh_offset (db_handle b) \<le> 10" "10 < block_end b" "103 \<noteq> tested_file ! 10"
    using b tested_byte by simp_all
  note dmg = byte_change_damages [OF third_party_laws.axioms(1) [OF D] ref_checksum.byte_checksum_axioms laid mem]
  from open_damaged [OF D C data tail ex(5) default_cap(1,2) dmg(1)] obtain t c fs where
    t: "Cache_new Options_default_cache_capacity \<bind> open_file ?D ?opt (tested_file[10 := 103]) = Some (Inr t, c)"
      "damaged_view ?D ?opt tested_file (tested_blocks ?D) fs ?bad t"
      "damaged_reading ?D (opt_cmp ?opt) Options_default_cache_capacity (tested_blocks ?D) ?bad t c"
      "fs = filters_of (opt_filter_policy ?opt) (table_records (tested_blocks ?D)) 114" by blast
  have "b \<notin> set bs" using laid_out_distinct [OF laid(1)] b(1) by auto
  then have "good_blocks ?bad (tested_blocks ?D) = bs"
    using dmg(2) b(1) by (auto simp: good_blocks_def filter_id_conv)
  then have good: "all_entries (good_blocks ?bad (tested_blocks ?D)) = drop 3 build_data" using b(4) by simp
  from damaged_iter [OF D C t(2,3)] good obtain it where
    it: "Table_iter ?D t = Some it" "ti_table it = t"
      "damaged_at ?D (opt_cmp ?opt) Options_default_cache_capacity (tested_blocks ?D) ?bad (drop 3 build_data) None (it, c)"
    by auto
  from damaged_iterator.drain_all [OF it(3)] obtain it1 where
    it1: "drain (TableIterator_advance ?D) TableIterator_current (it, c) = Some (drop 3 build_data, it1)"
      "damaged_at ?D (opt_cmp ?opt) Options_default_cache_capacity (tested_blocks ?D) ?bad (drop 3 build_data) None it1"
    by blast
  from drain_table [OF it1(1)] it(2) it1(2) have
    "damaged_reading ?D (opt_cmp ?opt) Options_default_cache_capacity (tested_blocks ?D) ?bad t (snd it1)"
    by (simp add: damaged_at_def)
  from damaged_iter [OF D C t(2) this] it(1) good have
    "damaged_at ?D (opt_cmp ?opt) Options_default_cache_capacity (tested_blocks ?D) ?bad (drop 3 build_data) None (it, snd it1)"
    by simp
  moreover have keys: "\<forall>j < 2. fst (drop 3 build_data ! j) \<noteq> fst (drop 3 build_data ! 2)"
    by (auto simp: less_2_cases_iff build_data_def as_bytes_def)
  ultimately have "find_key ?D (fst (drop 3 build_data ! 2)) (it, snd it1) = Some ()"
    using find_key_at [OF keys, where p = None] by simp
  then have find: "find_key ?D (fst (build_data ! 5)) (it, snd it1) = Some ()" by simp
  have "tab_filters t = Some (reader_of ?D (opt_filter_policy ?opt) fs)" "length fs = 1"
    "length (filter_block_bytes ?D fs) < 2 ^ 32"
    using t(2,4) tested_filters by (auto simp: damaged_view_def table_view_def)
  then have num: "tab_filters t \<bind> FilterBlockReader_num = Some 1"
    using integer_codec.reader_num [OF third_party_laws.axioms(1) [OF D]] by (simp add: usize_as_u32_def)
  obtain cache where cache: "Cache_new Options_default_cache_capacity = Some cache"
    "open_file ?D ?opt (tested_file[10 := 103]) cache = Some (Inr t, c)"
    using t(1) by (auto simp: bind_eq_Some_conv)
  then have "table_under_test ?D (Options_default_block_cache ?D) (tested_file[10 := 103]) (length tested_file) = Some (t, c)"
    by (simp add: table_under_test_def Options_default_block_cache_def open_file_def run_unwrap_def)
  then show ?thesis
    using tested_byte num it(1) it1(1) find
    by (auto simp: test_table_reader_checksum_def tests_build_file [OF D] vec_index_def rassert_def bind_eq_Some_conv)
qed

section \<open>The filters of the table under test\<close>

lemma bits_10: "BloomPolicy_new_unwrapped 10 = \<lparr>bits_per_key = 10, bloom_k = 6\<rparr>"
  by (simp add: BloomPolicy_new_unwrapped_def f32_mul_069_as_u32_def f32_round_def f32_shift.simps)

text \<open>Keys of three bytes are hashed without decoding a word.\<close>

lemma tested_hashes:
  "bloom_hash D (map of_char ''abc'') = Some 2237464879"
  "bloom_hash D (map of_char ''abd'') = Some 753926534"
  "bloom_hash D (map of_char ''bcd'') = Some 2554084517"
  "bloom_hash D (map of_char ''bsr'') = Some 213871665"
  "bloom_hash D (map of_char ''xyz'') = Some 929776872"
  "bloom_hash D (map of_char ''xzz'') = Some 3692222211"
  "bloom_hash D (map of_char ''zzz'') = Some 1767647084"
  by (simp_all add: bloom_hash_def bloom_words.simps bloom_m_def BLOOM_SEED_def test_eval)

lemma unknown_hash: "bloom_hash reference_deps (map of_char ''somerandomkey'') = Some 3056436653"
  by (simp add: hash_eval test_eval)

lemma tested_set_bits:
  "bloom_set_bits 6 72 2237464879 (bloom_delta 2237464879) [0, 0, 0, 0, 0, 0, 0, 0, 0, 6] =
     Some [160, 0, 0, 0, 0, 10, 0, 0, 0, 6]"
  "bloom_set_bits 6 72 753926534 (bloom_delta 753926534) [160, 0, 0, 0, 0, 10, 0, 0, 0, 6] =
     Some [224, 0, 64, 0, 64, 10, 64, 64, 64, 6]"
  "bloom_set_bits 6 72 2554084517 (bloom_delta 2554084517) [224, 0, 64, 0, 64, 10, 64, 64, 64, 6] =
     Some [224, 0, 64, 2, 64, 10, 72, 64, 192, 6]"
  "bloom_set_bits 6 72 213871665 (bloom_delta 213871665) [224, 0, 64, 2, 64, 10, 72, 64, 192, 6] =
     Some [224, 32, 64, 2, 80, 10, 73, 66, 192, 6]"
  "bloom_set_bits 6 72 929776872 (bloom_delta 929776872) [224, 32, 64, 2, 80, 10, 73, 66, 192, 6] =
     Some [224, 32, 64, 130, 82, 10, 93, 66, 224, 6]"
  "bloom_set_bits 6 72 3692222211 (bloom_delta 3692222211) [224, 32, 64, 130, 82, 10, 93, 66, 224, 6] =
     Some [232, 32, 64, 130, 82, 27, 125, 66, 224, 6]"
  "bloom_set_bits 6 72 1767647084 (bloom_delta 1767647084) [232, 32, 64, 130, 82, 27, 125, 66, 224, 6] =
     Some [232, 36, 65, 130, 82, 31, 125, 66, 240, 6]"
  by (simp_all add: bits_eval)

lemma tested_test_bits:
  "bloom_test_bits 6 72 3056436653 (bloom_delta 3056436653) [232, 36, 65, 130, 82, 31, 125, 66, 240] = Some False"
  by (simp add: bits_eval)

lemma tested_filter:
  "create_filter (BloomPolicy_new D 10) (concat (map fst build_data)) (offsets_from 0 (map fst build_data)) =
     Some [232, 36, 65, 130, 82, 31, 125, 66, 240, 6]"
proof -
  have "concat (map fst build_data) = map of_char ''abcabdbcdbsrxyzxzzzzz''"
    "offsets_from 0 (map fst build_data) = [0, 3, 6, 9, 12, 15, 18]"
    by (simp_all add: build_data_def as_bytes_def)
  moreover have "vec_resize [] 9 0 = [0, 0, 0, 0, 0, 0, 0, 0, 0 :: u8]" by (simp add: vec_resize_def eval_nat_numeral)
  ultimately show ?thesis
    using tested_hashes tested_set_bits
    by (simp add: BloomPolicy_new_def BloomPolicy_create_filter_def bits_10
        rassert_def usize_add_def vec_slice_def u32_as_usize_def usize_as_u32_def)
qed

lemma tested_unknown:
  "key_may_match (BloomPolicy_new reference_deps 10) (as_bytes ''somerandomkey'')
     [232, 36, 65, 130, 82, 31, 125, 66, 240, 6] = Some False"
  using unknown_hash tested_test_bits
  by (simp add: BloomPolicy_new_def BloomPolicy_key_may_match_def vec_slice_def u32_as_usize_def usize_as_u32_def test_eval)

text \<open>All data blocks start in the range of the first filter.\<close>

lemma tested_filters_of:
  assumes D: "third_party_laws D" and n: "n < 2048"
    and offs: "set (map (\<lambda>b. bh_offset (db_handle b)) (tested_blocks D)) \<subseteq> {..<2048}"
  shows "filters_of (BloomPolicy_new D 10) (table_records (tested_blocks D)) n =
     [[232, 36, 65, 130, 82, 31, 125, 66, 240, 6]]"
proof -
  let ?b = "tested_blocks D"
  have "\<forall>r \<in> set (table_records ?b). fst r div 2048 = 0" using offs by (auto simp: table_records_def)
  then have "filter_group (table_records ?b) 0 = map snd (table_records ?b)"
    by (simp add: filter_group_def filter_id_conv)
  also have "\<dots> = map fst (all_entries ?b)"
    by (simp add: table_records_def all_entries_def map_concat comp_def del: table_blocks_entries)
  also have "all_entries ?b = build_data" by (rule built_exact(2) [OF D build_short build_fits])
  finally have "filter_group (table_records ?b) 0 = map fst build_data" .
  moreover have "map fst build_data \<noteq> []" by (simp add: build_data_def)
  ultimately show ?thesis using n by (simp add: filters_of_def filter_of_def tested_filter)
qed

lemma tested_offsets:
  "map (\<lambda>b. bh_offset (db_handle b)) (tested_blocks reference_deps) = [0, 44, 90]"
  unfolding table_blocks_def ref_groups
  by (simp add: Let_def tested_stored tested_block_bytes BlockHandle_new_def)

lemma check_filters_at:
  assumes stored: "\<And>b k. b \<in> set bs \<Longrightarrow> k \<in> db_keys b \<Longrightarrow>
      FilterBlockReader_key_may_match D r (bh_offset (db_handle b)) k = Some True"
    and unknown: "\<And>b. b \<in> set bs \<Longrightarrow>
      FilterBlockReader_key_may_match D r (bh_offset (db_handle b)) (as_bytes ''somerandomkey'') = Some False"
  shows "table_at D C cap cid T bs es p it \<Longrightarrow> check_filters D r it = Some ()"
proof (induction "length es - next_pos p" arbitrary: p it)
  case 0
  with table_iterator.next_end [OF 0(2)] show ?case by (auto simp: check_filters.simps [of D r it])
next
  case (Suc n)
  then have less: "next_pos p < length es" by simp
  from table_iterator.next_inside [OF Suc.prems less] obtain self c where
    it1: "table_next D it = Some (Some (es ! next_pos p), self, c)"
      "table_at D C cap cid T bs es (Some (next_pos p)) (self, c)" by auto
  obtain i j where ij: "es = all_entries bs" "next_pos p = flat bs i j" "in_block D C bs i (Some j) self"
    "i < length bs" "j < length (db_entries (bs ! i))" by (rule table_at_someE [OF it1(2)])
  then have "es ! next_pos p = db_entries (bs ! i) ! j"
    using flat_split [OF ij(4)] by (simp add: flat_def nth_append)
  then have "fst (es ! next_pos p) \<in> db_keys (bs ! i)" using ij(5) by simp
  moreover have "ti_current_block_off self = bh_offset (db_handle (bs ! i))" using ij(3) by (simp add: in_block_def)
  ultimately have "FilterBlockReader_key_may_match D r (ti_current_block_off self) (fst (es ! next_pos p)) = Some True"
    "FilterBlockReader_key_may_match D r (ti_current_block_off self) (as_bytes ''somerandomkey'') = Some False"
    using stored unknown ij(4) by simp_all
  moreover have "n = length es - next_pos (Some (next_pos p))" using Suc.hyps(2) by simp
  ultimately show ?case
    using Suc.hyps(1) [OF _ it1(2)] it1(1)
    by (cases "es ! next_pos p") (simp add: check_filters.simps [of D r it] rassert_def)
qed

lemma iterator_filter_test: "test_table_iterator_filter reference_deps = Some ()"
proof -
  let ?D = reference_deps and ?P = "BloomPolicy_new reference_deps 10"
  note D = ref_deps.third_party_laws_axioms and codec = third_party_laws.axioms(1) [OF ref_deps.third_party_laws_axioms]
  from opened_test [OF D _ default_cap(1,2), of "Options_default ?D"] obtain cache t c it where
    t: "Cache_new Options_default_cache_capacity = Some cache"
      "table_under_test ?D (Some (Options_default ?D, cache)) tested_file (length tested_file) = Some (t, c)"
      "opened_with ?D (Options_default ?D) Options_default_cache_capacity build_data (tested_blocks ?D) t c"
      "reference_parts ?D (build_opt ?D) build_data t" "Table_iter ?D t = Some it"
      "table_at ?D DefaultCmp Options_default_cache_capacity 1 {(t, tested_blocks ?D)} (tested_blocks ?D) build_data None (it, c)"
    by auto
  let ?r = "reader_of ?D ?P [[232, 36, 65, 130, 82, 31, 125, 66, 240, 6]]"
  have filters: "tab_filters t = Some ?r"
    using t(4) tested_filters_of [OF D, of 114] tested_offsets by (simp add: reference_parts_def tested_data_length)
  have len: "length (filter_block_bytes ?D [[232, 36, 65, 130, 82, 31, 125, 66, 240, 6]]) < 2 ^ 32"
    by (simp add: integer_codec.filter_block_bytes_length [OF codec])
  have off: "bh_offset (db_handle b) div 2048 = 0" if "b \<in> set (tested_blocks ?D)" for b
  proof -
    have "bh_offset (db_handle b) \<in> set (map (\<lambda>b. bh_offset (db_handle b)) (tested_blocks ?D))" using that by simp
    then show ?thesis unfolding tested_offsets by auto
  qed
  have unknown: "FilterBlockReader_key_may_match ?D ?r (bh_offset (db_handle b)) (as_bytes ''somerandomkey'') = Some False"
    if "b \<in> set (tested_blocks ?D)" for b
    using integer_codec.reader_lookup [OF codec len _ off [OF that]] tested_unknown by simp
  obtain data fs where view: "table_view ?D (Options_default ?D) data (tested_blocks ?D) fs t"
    using t(3) by (auto simp: opened_with_def)
  have tr: "table_reader ?D DefaultCmp" using opened_reader [OF D build_short] by simp
  note v = table_reader.view_blocks [OF tr view]
  have all: "all_entries (tested_blocks ?D) = build_data" using t(3) by (simp add: opened_with_def)
  have stored: "FilterBlockReader_key_may_match ?D ?r (bh_offset (db_handle b)) k = Some True"
    if b: "b \<in> set (tested_blocks ?D)" "k \<in> db_keys b" for b k
  proof -
    have "set (db_entries b) \<subseteq> set (all_entries (tested_blocks ?D))" using b(1) by (auto simp: all_entries_set)
    then have "k \<in> fst ` set build_data" using b(2) unfolding all by auto
    then have "length k < 2 ^ 32" using build_data_keys by auto
    moreover have "nonempty_filter_policy (opt_filter_policy (Options_default ?D))"
      using bloom.nonempty_filter_policy_axioms by simp
    ultimately obtain m where "FilterBlockReader_key_may_match ?D (reader_of ?D ?P fs) (bh_offset (db_handle b)) k = Some m"
      "k \<in> db_keys b \<longrightarrow> m"
      using table_reader.filters_may_match [OF tr _ v(7,8) b(1) v(5) [OF _ b(1)]] by auto
    with b(2) v(9) filters show ?thesis by simp
  qed
  from check_filters_at [OF stored unknown t(6)] t(1,2,5) filters show ?thesis
    by (simp add: test_table_iterator_filter_def tests_build_file [OF D] Options_default_block_cache_def rassert_def)
qed

section \<open>Offsets\<close>

lemma check_offsets_at:
  assumes offs: "\<And>n. n < length es \<Longrightarrow> Table_approx_offset_of D t (fst (es ! n)) = Some (offs ! n)"
    and len: "length offs = length es"
  shows "table_at D C cap cid T bs es p it \<Longrightarrow> check_offsets D t offs (next_pos p) it = Some ()"
proof (induction "length es - next_pos p" arbitrary: p it)
  case 0
  with table_iterator.next_end [OF 0(2)] show ?case by (auto simp: check_offsets.simps [of D t _ _ it])
next
  case (Suc n)
  then have less: "next_pos p < length es" by simp
  from table_iterator.next_inside [OF Suc.prems less] obtain it1 where
    it1: "table_next D it = Some (Some (es ! next_pos p), it1)"
      "table_at D C cap cid T bs es (Some (next_pos p)) it1" by auto
  have "n = length es - next_pos (Some (next_pos p))" using Suc.hyps(2) by simp
  from Suc.hyps(1) [OF this it1(2)] it1(1) offs [OF less] len less show ?case
    by (cases "es ! next_pos p") (simp add: check_offsets.simps [of D t _ _ it] vec_index_def)
qed

text \<open>Where the blocks of the test start depends on how far Snappy compresses them: to 39, 40 and 19 bytes.\<close>

definition snappy_sizes :: "deps \<Rightarrow> bool" where
  "snappy_sizes D \<longleftrightarrow>
     map (\<lambda>g. length (ref_stored D (build_opt D) g))
       [take 3 build_data, take 3 (drop 3 build_data), drop 6 build_data] = [39, 40, 19]"

lemma snappy_offsets:
  assumes codec: "integer_codec D" and sizes: "snappy_sizes D"
  shows "map (\<lambda>b. bh_offset (db_handle b)) (tested_blocks D) = [0, 44, 89]"
    "length (ref_data D (build_opt D) (ref_cut D (build_opt D) [] build_data)) = 113"
  using sizes
  by (simp_all add: snappy_sizes_def table_blocks_def integer_codec.build_groups [OF codec] Let_def BlockHandle_new_def
      ref_data_def sealed_def integer_codec.length_encode_fixed32 [OF codec])

lemma separators:
  "find_shortest_sep DefaultCmp [98, 99, 100] [98, 115, 114] = Some [98, 100]"
  "find_shortest_sep DefaultCmp [120, 122, 122] [122, 122, 122] = Some [121]"
  "find_shortest_sep DefaultCmp [122, 122, 122] [123] = Some [122, 122, 122, 0]"
  "find_short_succ DefaultCmp [122, 122, 122] = [123]"
  by (simp_all add: DefaultCmp_def DefaultCmp_find_shortest_sep_def sep_common.simps sep_scan.simps
      DefaultCmp_find_short_succ_def succ_from.simps vec_resize_def test_eval)

lemma tested_seps:
  assumes codec: "integer_codec D"
  shows "map db_sep (tested_blocks D) = [[98, 100], [121], [122, 122, 122, 0]]"
  by (simp add: table_blocks_def integer_codec.build_groups [OF codec] Let_def) (simp add: build_data_def as_bytes_def separators)

text \<open>The place of each entry in its block.\<close>

lemma tested_entry:
  assumes codec: "integer_codec D" and n: "n < 7"
  shows "n div 3 < length (tested_blocks D)" "build_data ! n \<in> set (db_entries (tested_blocks D ! (n div 3)))"
proof -
  have len: "length (tested_blocks D) = 3" by (rule tested_three [OF codec])
  show i: "n div 3 < length (tested_blocks D)" using n len by simp
  have "db_entries (tested_blocks D ! (n div 3)) =
      [take 3 build_data, take 3 (drop 3 build_data), drop 6 build_data] ! (n div 3)"
    using i tested_entries [OF codec] by (metis nth_map)
  moreover have "n = 0 \<or> n = 1 \<or> n = 2 \<or> n = 3 \<or> n = 4 \<or> n = 5 \<or> n = 6" using n by linarith
  ultimately show "build_data ! n \<in> set (db_entries (tested_blocks D ! (n div 3)))"
    by (elim disjE) (simp_all add: build_data_def)
qed

lemma tested_offset:
  assumes D: "third_party_laws D"
    and view: "table_view D opt data (tested_blocks D) fs t" and opt: "opt_cmp opt = DefaultCmp" and n: "n < 7"
  shows "Table_approx_offset_of D t (fst (build_data ! n)) = Some (bh_offset (db_handle (tested_blocks D ! (n div 3))))"
proof -
  let ?b = "tested_blocks D" and ?k = "fst (build_data ! n)"
  have codec: "integer_codec D" using D by (simp add: third_party_laws_def)
  have tr: "table_reader D DefaultCmp" using opened_reader [OF D build_short] by simp
  note v = table_reader.view_blocks [OF tr view opt]
  have all: "all_entries ?b = build_data" by (rule built_exact(2) [OF D build_short build_fits])
  have ne: "\<forall>b \<in> set ?b. db_entries b \<noteq> []" using v(5) by blast
  have "?k \<in> fst ` set (all_entries ?b)" using n all by simp
  from block_of_stored [OF v(2) ne _ this] build_data_plain all obtain b where
    b: "block_of DefaultCmp ?k ?b = Some b" "?k \<in> db_keys b" by auto
  have "?k \<in> db_keys (?b ! (n div 3))" using tested_entry(2) [OF codec n] by simp
  then have "b = ?b ! (n div 3)"
    using separated_unique [OF default_cmp.comparator_axioms v(2) _ tested_entry(1) [OF codec n]] b block_of_mem
    by (metis in_set_conv_nth)
  then show ?thesis
    using table_reader.Table_approx_offset_of_eq [OF tr view opt, of ?k] b by simp
qed

lemma approximate_offset_test:
  assumes D: "third_party_laws D" and sizes: "snappy_sizes D"
  shows "test_table_approximate_offset D = Some ()"
proof -
  let ?opt = "(Options_default D)\<lparr>block_size := 32\<rparr>" and ?b = "tested_blocks D"
  have codec: "integer_codec D" using D by (simp add: third_party_laws_def)
  from opened_test [OF D _ default_cap(1,2), of ?opt] obtain cache t c it where
    t: "Cache_new Options_default_cache_capacity = Some cache"
      "table_under_test D (Some (?opt, cache)) (ref_file D (build_opt D) build_data)
         (length (ref_file D (build_opt D) build_data)) = Some (t, c)"
      "opened_with D ?opt Options_default_cache_capacity build_data ?b t c"
      "reference_parts D (build_opt D) build_data t" "Table_iter D t = Some it"
      "table_at D DefaultCmp Options_default_cache_capacity 1 {(t, ?b)} ?b build_data None (it, c)"
    by auto
  obtain data fs where view: "table_view D ?opt data ?b fs t" using t(3) by (auto simp: opened_with_def)
  have off: "bh_offset (db_handle (?b ! i)) = [0, 44, 89] ! i" if "i < 3" for i
    using that snappy_offsets(1) [OF codec sizes] tested_three [OF codec] by (metis nth_map)
  have "[0, 0, 0, 44, 44, 44, 89] ! n = [0, 44, 89 :: nat] ! (n div 3)" if "n < 7" for n
  proof -
    have "n = 0 \<or> n = 1 \<or> n = 2 \<or> n = 3 \<or> n = 4 \<or> n = 5 \<or> n = 6" using that by linarith
    then show ?thesis by (elim disjE) simp_all
  qed
  then have "Table_approx_offset_of D t (fst (build_data ! n)) = Some ([0, 0, 0, 44, 44, 44, 89] ! n)" if "n < 7" for n
    using tested_offset [OF D view _ that] off that by simp
  then have loop: "check_offsets D t [0, 0, 0, 44, 44, 44, 89] 0 (it, c) = Some ()"
    using check_offsets_at [OF _ _ t(6), of t "[0, 0, 0, 44, 44, 44, 89]"] by simp
  have "set (map (\<lambda>b. bh_offset (db_handle b)) ?b) \<subseteq> {..<2048}" unfolding snappy_offsets(1) [OF codec sizes] by simp
  then have "filters_of (BloomPolicy_new D 10) (table_records ?b) 113 = [[232, 36, 65, 130, 82, 31, 125, 66, 240, 6]]"
    using tested_filters_of [OF D, of 113] by simp
  then have "bh_offset (ft_meta_index (tab_footer t)) = 137"
    using t(4) snappy_offsets(2) [OF codec sizes]
    by (simp add: reference_parts_def ref_footer_def Let_def Footer_new_def BlockHandle_new_def ref_filter_def
        table_blocks_def integer_codec.filter_block_bytes_length [OF codec])
  moreover have "block_of DefaultCmp (as_bytes ''{aa'') ?b = None"
  proof -
    have "db_sep b \<in> set (map db_sep ?b)" if "b \<in> set ?b" for b using that by simp
    then have "cmp DefaultCmp (db_sep b) (as_bytes ''{aa'') = Less" if "b \<in> set ?b" for b
      using that unfolding tested_seps [OF codec] by (fastforce simp: as_bytes_def DefaultCmp_def)
    then show ?thesis by (auto simp: block_of_def find_None_iff)
  qed
  moreover have "table_reader D DefaultCmp" using opened_reader [OF D build_short] by simp
  ultimately have "Table_approx_offset_of D t (as_bytes ''{aa'') = Some 137"
    using table_reader.Table_approx_offset_of_eq [OF _ view, of DefaultCmp "as_bytes ''{aa''"] by simp
  with loop t(1,2,5) show ?thesis
    by (simp add: test_table_approximate_offset_def tests_build_file [OF D] Options_default_block_cache_def rassert_def)
qed

text \<open>An instance with these sizes: Snappy copies four bytes of the second block, \<open>0, 3, 3, x\<close>.\<close>

definition second_block :: bytes where
  "second_block = [0, 3, 3, 98, 115, 114, 97, 48, 48, 0, 3, 3, 120, 121, 122, 120, 120, 120,
     0, 3, 3, 120, 122, 122, 121, 121, 121, 0, 0, 0, 0, 18, 0, 0, 0, 2, 0, 0, 0]"

definition second_packed :: bytes where
  "second_packed = [39, 68] @ take 18 second_block @ [1, 9, 64] @ drop 22 second_block"

definition snappy_deps :: deps where
  "snappy_deps = reference_deps
     \<lparr>snap_compress := (\<lambda>x. if x = second_block then Inr second_packed else ref_compress x),
      snap_decompress := (\<lambda>y. if y = second_packed then Inr second_block else ref_decompress y)\<rparr>"

lemma second_packed_other: "ref_decompress second_packed = Inl ''corrupt input''"
proof -
  have "leb_decode (Suc 9) second_packed = Some (39, 1)"
    unfolding second_packed_def append_Cons append_Nil leb_decode.simps by simp
  moreover have "snap_unliterals (1 # ys) = Inl ''corrupt input''" for ys
    by (simp add: snap_unliterals.simps [of "1 # ys"])
  then have "snap_unliterals (68 # take 18 second_block @ 1 # ys) = Inl ''corrupt input''" for ys
    by (subst snap_unliterals_step) (simp_all add: second_block_def)
  then have "snap_unliterals (drop 1 second_packed) = Inl ''corrupt input''" by (simp add: second_packed_def)
  ultimately show ?thesis by (simp add: ref_decompress_def ref_decode_var_def)
qed

interpretation snappy_deps: third_party_laws snappy_deps
proof -
  have codec: "integer_codec snappy_deps"
    using third_party_laws.axioms(1) [OF ref_deps.third_party_laws_axioms]
    by (simp add: snappy_deps_def integer_codec_def)
  have "snap_decompress snappy_deps y = Inr x" if y: "snap_compress snappy_deps x = Inr y" for x y
  proof (cases "x = second_block")
    case True
    with y show ?thesis by (simp add: snappy_deps_def)
  next
    case False
    with y have "snap_compress reference_deps x = Inr y" by (simp add: snappy_deps_def reference_deps_def)
    then have ref: "ref_decompress y = Inr x" using ref_deps.decompress_compress by (simp add: reference_deps_def)
    then have "y \<noteq> second_packed" using second_packed_other by auto
    with ref show ?thesis by (simp add: snappy_deps_def)
  qed
  moreover have "\<exists>y. snap_compress snappy_deps x = Inr y \<and> length y \<le> max_compress_len (length x)"
    if "max_compress_len (length x) < 2 ^ 32" for x
    using ref_compress_total [OF that]
    by (simp add: snappy_deps_def second_block_def second_packed_def max_compress_len_def)
  ultimately show "third_party_laws snappy_deps"
    using codec by (simp add: third_party_laws_def third_party_laws_axioms_def)
qed

lemma snappy_ref_block:
  "ref_block snappy_deps (build_opt snappy_deps) kvs = ref_block reference_deps (build_opt reference_deps) kvs"
proof -
  have "entry_bytes snappy_deps = entry_bytes reference_deps"
    by (rule ext) (simp add: entry_bytes_def entry_head_def snappy_deps_def)
  then have "encoded snappy_deps = encoded reference_deps" by (intro ext) (simp add: encoded_def)
  moreover have "encode_fixed32 snappy_deps = encode_fixed32 reference_deps" by (simp add: snappy_deps_def)
  ultimately show ?thesis by (simp add: ref_block_def block_bytes_def ent_off_def)
qed

lemma second_block_eq: "ref_block reference_deps (build_opt reference_deps) (take 3 (drop 3 build_data)) = second_block"
  by (simp add: build_data_def as_bytes_def reference_deps_def second_block_def
      ref_block_def ref_entries_def ref_shared_def ref_restarts_def block_bytes_def layout_simps entry_bytes_def
      entry_head_def leb_encode.simps le32_encode_def usize_as_u32_def ent_off_def upt_rec)

lemma snappy_deps_sizes: "snappy_sizes snappy_deps"
proof -
  have stored: "length (ref_stored snappy_deps (build_opt snappy_deps) kvs) =
      length (ref_stored reference_deps (build_opt reference_deps) kvs)"
    if "ref_block reference_deps (build_opt reference_deps) kvs \<noteq> second_block" for kvs
    using that
    by (simp add: ref_stored_def ref_pack_def pack_def snappy_ref_block) (simp add: snappy_deps_def reference_deps_def)
  have "length second_block = 39" "length second_packed = 40" by (simp_all add: second_block_def second_packed_def)
  then have "ref_block reference_deps (build_opt reference_deps) (take 3 build_data) \<noteq> second_block"
    "ref_block reference_deps (build_opt reference_deps) (drop 6 build_data) \<noteq> second_block"
    using tested_block_bytes by (metis numeral_eq_iff semiring_norm(85,88,90))+
  note sizes = stored [OF this(1)] stored [OF this(2)]
  have "ref_stored snappy_deps (build_opt snappy_deps) (take 3 (drop 3 build_data)) = second_packed"
    by (simp add: ref_stored_def ref_pack_def pack_def snappy_ref_block second_block_eq) (simp add: snappy_deps_def)
  with sizes \<open>length second_packed = 40\<close> show ?thesis
    by (simp add: snappy_sizes_def tested_stored tested_block_bytes)
qed

section \<open>Property\<close>

text \<open>C30: The unit tests of the table reader that look at the block cache, at lookups, at offsets, at a damaged
  file and at filters pass; those of the cache, the lookups and the offsets with any implementation of the
  third-party functions that keeps its laws and, for the offsets, compresses the three blocks as far as the
  test expects.\<close>

theorem lookup_unit_tests_pass:
  assumes "third_party_laws D"
  shows "test_table_block_cache_use D = Some () \<and> test_table_block_tiny_cache D = Some () \<and>
    test_table_get D = Some () \<and> (snappy_sizes D \<longrightarrow> test_table_approximate_offset D = Some ()) \<and>
    test_table_reader_checksum reference_deps = Some () \<and> test_table_iterator_filter reference_deps = Some ()"
  using assms
  by (simp add: block_cache_use_test block_tiny_cache_test table_get_test approximate_offset_test checksum_test
      iterator_filter_test)

theorem lookup_unit_tests_pass_witness:
  "test_table_block_cache_use snappy_deps = Some () \<and> test_table_get snappy_deps = Some () \<and>
   test_table_approximate_offset snappy_deps = Some ()"
  using lookup_unit_tests_pass [OF snappy_deps.third_party_laws_axioms] snappy_deps_sizes by blast

end
