(* ===== verification/SST_CacheRemove.thy ===== *)
theory SST_CacheRemove
  imports SST_Cache
begin

text \<open>
  \<open>Cache::remove\<close> of \<open>src/cache.rs\<close> on caches with several entries: what it returns, and what it
  leaves of the linked list. The contract of the table reader needs \<open>get\<close> and \<open>insert\<close> only.
\<close>

section \<open>Removing an entry\<close>

text \<open>The node reached from the head after following \<open>n\<close> pointers to the next node.\<close>

fun nth_node :: "'a lru_heap \<Rightarrow> nat \<Rightarrow> lru_ptr option" where
  "nth_node h 0 = Some Head"
| "nth_node h (Suc n) = do { p \<leftarrow> nth_node h n; nd \<leftarrow> h p; nd_next nd }"

lemma nth_node_cong:
  assumes "\<And>p. map_option nd_next (h' p) = map_option nd_next (h p)"
  shows "nth_node h' n = nth_node h n"
proof (induction n)
  case (Suc n)
  have "Option.bind (h' p) nd_next = Option.bind (h p) nd_next" for p
    using assms [of p] by (cases "h p"; cases "h' p") simp_all
  with Suc show ?case by simp
qed simp

lemma nth_node_links:
  assumes "links h es"
  shows "nth_node h (length es) = Some (last_ptr Head es)" "nth_node h (Suc (length es)) = None"
proof -
  have seg: "seg h Head es None" and head: "\<exists>n. h Head = Some n \<and> nd_next n = first_ptr es None"
    using assms by (auto simp: links_def)
  have "\<exists>n. h (last_ptr a es) = Some n \<and> nd_next n = None"
    if "seg h a es None" "\<exists>n. h a = Some n \<and> nd_next n = first_ptr es None" for a
    using that by (induction es arbitrary: a) auto
  from this [OF seg head] obtain n where n: "h (last_ptr Head es) = Some n" "nd_next n = None" by blast
  have step: "nth_node h (m + length es) = Some (last_ptr a es)"
    if "nth_node h m = Some a" "seg h a es nxt" "\<exists>n. h a = Some n \<and> nd_next n = first_ptr es nxt" for m a nxt
    using that
  proof (induction es arbitrary: m a)
    case (Cons e es)
    then have "nth_node h (Suc m) = Some (fst e)" by auto
    from Cons.IH [OF this] Cons.prems(2) show ?case by simp
  qed simp
  from step [of 0 Head None] seg head show 1: "nth_node h (length es) = Some (last_ptr Head es)" by simp
  from 1 n show "nth_node h (Suc (length es)) = None" by simp
qed

text \<open>A node that is not the last one is marked as removed, but all nodes stay linked.\<close>

lemma LRUList_remove_inside:
  assumes at: "lru_at l (fs @ e # gs)" and gs: "gs \<noteq> []" and len: "length (fs @ e # gs) < 2 ^ 64"
  shows "\<exists>l'. LRUList_remove l (fst e) = Some (snd e, l') \<and> ll_count l' = length fs + length gs \<and>
    (\<forall>p. map_option nd_next (ll_heap l' p) = map_option nd_next (ll_heap l p))"
proof -
  obtain g gs' where g: "gs = g # gs'" using gs by (cases gs) auto
  have "links (ll_heap l) (fs @ e # gs)" using at by (simp add: lru_at_def)
  then have node: "ll_heap l (fst e) = Some \<lparr>nd_next = Some (fst g), nd_prev = Some (last_ptr Head fs), nd_data = Some (snd e)\<rparr>"
    and nxt: "ll_heap l (fst g) = Some \<lparr>nd_next = first_ptr gs' None, nd_prev = Some (fst e), nd_data = Some (snd g)\<rparr>"
    and neq: "fst g \<noteq> fst e"
    by (auto simp: links_def g)
  have count: "ll_count l = length fs + length gs + 1" using at by (simp add: lru_at_def)
  show ?thesis
    using node nxt neq count by (simp add: LRUList_remove_def heap_simps run_simps)
qed

text \<open>The last node is unlinked, but the head still points back to it.\<close>

definition stale :: "'a LRUList \<Rightarrow> (lru_ptr \<times> 'a) list \<Rightarrow> lru_ptr \<Rightarrow> bool" where
  "stale l es p \<longleftrightarrow>
     es \<noteq> [] \<and> seg (ll_heap l) Head es None \<and> distinct (map fst es) \<and> Head \<notin> fst ` set es \<and>
     p \<notin> fst ` set es \<and> p \<noteq> Head \<and>
     ll_heap l Head = Some \<lparr>nd_next = first_ptr es None, nd_prev = Some p, nd_data = None\<rparr> \<and>
     ll_heap l p = Some \<lparr>nd_next = Some p, nd_prev = Some (last_ptr Head es), nd_data = None\<rparr> \<and>
     insert p (fst ` set es) \<subseteq> Node ` {..<ll_fresh l} \<and> ll_count l = length es"

lemma LRUList_remove_stale:
  assumes at: "lru_at l (fs @ [e])" and fs: "fs \<noteq> []"
  shows "\<exists>l'. LRUList_remove l (fst e) = Some (snd e, l') \<and> stale l' fs (fst e)"
proof -
  obtain fs' f where f: "fs = fs' @ [f]" using fs by (cases fs rule: rev_cases) auto
  show ?thesis
    using at unfolding f
    by (auto simp: LRUList_remove_def stale_def lru_at_def links_def heap_simps run_simps)
qed

lemma LRUList_insert_stale:
  assumes at: "stale l es p" and len: "length es + 1 < 2 ^ 64"
  shows "\<exists>l' q. LRUList_insert l x = Some (q, l') \<and> stale l' ((q, x) # es) p"
proof -
  obtain e es' where e: "es = e # es'" using at by (cases es) (auto simp: stale_def)
  have "Node (ll_fresh l) \<notin> insert p (fst ` set es)" using at by (auto simp: stale_def)
  then show ?thesis
    using at len unfolding e
    by (auto simp: LRUList_insert_def stale_def heap_simps run_simps Let_def)
qed

lemma LRUList_remove_last_stale:
  assumes "stale l es p"
  shows "\<exists>l'. LRUList_remove_last l = Some (None, l')"
proof -
  obtain fs f where f: "es = fs @ [f]" using assms by (cases es rule: rev_cases) (auto simp: stale_def)
  show ?thesis
    using assms unfolding f by (auto simp: LRUList_remove_last_def stale_def heap_simps)
qed

fun cache_inserts :: "'v Cache \<Rightarrow> (CacheKey \<times> 'v) list \<Rightarrow> 'v Cache run" where
  "cache_inserts c [] = Some c"
| "cache_inserts c ((k, v) # kvs) = do { c \<leftarrow> Cache_insert c k v; cache_inserts c kvs }"

lemma cache_inserts_stale:
  assumes "stale (ca_list c) es p" "length es \<le> ca_cap c" "ca_cap c < 2 ^ 64"
  shows "cache_inserts c kvs = None \<longleftrightarrow> ca_cap c < length es + length kvs"
  using assms
proof (induction kvs arbitrary: c es)
  case (Cons kv kvs)
  obtain k v where kv: "kv = (k, v)" by (cases kv)
  have count: "LRUList_count (ca_list c) = length es"
    using Cons.prems(1) by (simp add: stale_def LRUList_count_def)
  show ?case
  proof (cases "length es < ca_cap c")
    case True
    with LRUList_insert_stale [OF Cons.prems(1), of k] Cons.prems(3) obtain l' q where
      l': "LRUList_insert (ca_list c) k = Some (q, l')" "stale l' ((q, k) # es) p" by auto
    let ?c' = "c\<lparr>ca_list := l', ca_map := (ca_map c)(k \<mapsto> (v, q))\<rparr>"
    have "Cache_insert c k v = Some ?c'" using True count l'(1) by (simp add: Cache_insert_def)
    moreover have "cache_inserts ?c' kvs = None \<longleftrightarrow> ca_cap ?c' < length ((q, k) # es) + length kvs"
      using Cons.IH [of ?c' "(q, k) # es"] l'(2) True Cons.prems(3) by simp
    ultimately show ?thesis by (simp add: kv)
  next
    case False
    with LRUList_remove_last_stale [OF Cons.prems(1)] have "Cache_insert c k v = None"
      by (auto simp: Cache_insert_def count)
    then show ?thesis using False by (simp add: kv)
  qed
qed simp

section \<open>Property\<close>

text \<open>C39: Removing one of several entries returns its value, but leaves a broken list. If it is the least
  recently used entry, the list still points back to its node, and the insertion that next has to evict an
  entry panics. If it is another one, its node is not unlinked: the list still links as many nodes as there
  were entries, one more than it counts.\<close>

theorem cache_remove_breaks_list:
  assumes "cache_is c kvs" "ca_cap c < 2 ^ 64" "(k, v) \<in> set kvs" "1 < length kvs"
  shows "\<exists>c'. Cache_remove c k = Some (Some v, c') \<and> Cache_count c' = length kvs - 1 \<and>
    Cache_get c' k = Some (None, c') \<and>
    (if k = fst (last kvs)
     then \<forall>new. cache_inserts c' new = None \<longleftrightarrow> ca_cap c < length kvs - 1 + length new
     else nth_node (ll_heap (ca_list c')) (length kvs) \<noteq> None)"
proof -
  obtain es where es: "cache_at c es" "kvs = cache_view c es" using assms(1) by (auto simp: cache_is_def)
  have len: "length es = length kvs" "length es \<le> ca_cap c" using es by (simp_all add: cache_view_def cache_at_def)
  have "map_of kvs k = Some v"
    using es assms(3) by (simp add: cache_view_keys cache_at_def)
  then obtain p where p: "ca_map c k = Some (v, p)" using cache_view_map_of [OF es(1), of k] es(2) by auto
  then have "k \<in> snd ` set es" using es(1) by (auto simp: cache_at_def dom_def)
  then have mem: "(p, k) \<in> set es" using p es(1) by (force simp: cache_at_def)
  then obtain fs gs where split: "es = fs @ (p, k) # gs" by (auto simp: in_set_conv_decomp)
  have at: "lru_at (ca_list c) (fs @ (p, k) # gs)" using es(1) split by (simp add: cache_at_def)
  have keys: "distinct (map fst kvs)" "map fst kvs = map snd es"
    using es by (simp_all add: cache_view_keys cache_at_def)
  moreover have "kvs \<noteq> []" using assms(4) by auto
  ultimately have last: "k = fst (last kvs) \<longleftrightarrow> gs = []"
    using split last_map [of kvs fst] last_map [of es snd] assms(4) len by (cases gs rule: rev_cases) auto
  let ?remove = "\<lambda>l'. c\<lparr>ca_map := (ca_map c)(k := None), ca_list := l'\<rparr>"
  have remove: "Cache_remove c k = Some (Some v, ?remove l')" "Cache_get (?remove l') k = Some (None, ?remove l')"
    if "LRUList_remove (ca_list c) p = Some (k, l')" for l'
    using p that by (simp_all add: Cache_remove_def Cache_get_def)
  show ?thesis
  proof (cases "gs = []")
    case True
    then have "fs \<noteq> []" using split len(1) assms(4) by auto
    with LRUList_remove_stale [of "ca_list c" fs "(p, k)"] at True obtain l' where
      l': "LRUList_remove (ca_list c) p = Some (k, l')" "stale l' fs p" by auto
    have fs: "length fs = length kvs - 1" using split len(1) True by simp
    have "cache_inserts (?remove l') new = None \<longleftrightarrow> ca_cap c < length kvs - 1 + length new" for new
      using cache_inserts_stale [of "?remove l'" fs p new] l'(2) fs len assms(2) by simp
    moreover have "Cache_count (?remove l') = length kvs - 1"
      using l'(2) fs by (simp add: Cache_count_def LRUList_count_def stale_def)
    ultimately show ?thesis using remove [OF l'(1)] last True by auto
  next
    case False
    with LRUList_remove_inside [OF at False] split len assms(2) obtain l' where
      l': "LRUList_remove (ca_list c) p = Some (k, l')" "ll_count l' = length fs + length gs"
        "\<forall>q. map_option nd_next (ll_heap l' q) = map_option nd_next (ll_heap (ca_list c) q)" by auto
    have "nth_node (ll_heap l') (length kvs) = nth_node (ll_heap (ca_list c)) (length es)"
      using nth_node_cong l'(3) len(1) by metis
    also have "\<dots> \<noteq> None" using nth_node_links(1) [of "ll_heap (ca_list c)" es] at split by (simp add: lru_at_def)
    finally have "nth_node (ll_heap l') (length kvs) \<noteq> None" .
    moreover have "Cache_count (?remove l') = length kvs - 1"
      using l'(2) split len(1) by (simp add: Cache_count_def LRUList_count_def)
    ultimately show ?thesis using remove [OF l'(1)] last False by auto
  qed
qed

theorem cache_remove_breaks_list_witness:
  "\<exists>c c'. Cache_new 2 = Some c \<and>
    (do { c \<leftarrow> cache_inserts c [([0], 10 :: nat), ([1], 11)]; Cache_remove c [0] }) = Some (Some 10, c') \<and>
    cache_inserts c' [([2], 12), ([3], 13)] = None"
proof -
  obtain c :: "nat Cache" where c: "Cache_new 2 = Some c" "cache_is c []" "ca_cap c = 2"
    using Cache_new_is [of 2] by auto
  obtain c1 where c1: "Cache_insert c [0] 10 = Some c1" "cache_is c1 [([0], 10)]" "ca_cap c1 = 2"
    using Cache_insert_is [OF c(2), of "[0]" 10] c(3) by (auto simp: lru_insert_def)
  obtain c2 where c2: "Cache_insert c1 [1] 11 = Some c2" "cache_is c2 [([1], 11), ([0], 10)]" "ca_cap c2 = 2"
    using Cache_insert_is [OF c1(2), of "[1]" 11] c1(3) by (auto simp: lru_insert_def)
  from cache_remove_breaks_list [OF c2(2), of "[0]" 10] c2(3) obtain c' where
    "Cache_remove c2 [0] = Some (Some 10, c')" "\<forall>new. cache_inserts c' new = None \<longleftrightarrow> 2 < 1 + length new" by auto
  moreover from this(2) have "cache_inserts c' [([2], 12), ([3], 13)] = None" by (simp del: cache_inserts.simps)
  ultimately have "(do { c \<leftarrow> cache_inserts c [([0], 10 :: nat), ([1], 11)]; Cache_remove c [0] }) = Some (Some 10, c') \<and>
      cache_inserts c' [([2], 12), ([3], 13)] = None"
    using c1(1) c2(1) by simp
  with c(1) show ?thesis by blast
qed

end
