(* ===== verification/Spec2Isabelle.thy ===== *)
theory Spec2Isabelle
  imports SST_Client SST_ReadFaults SST_WriteErrors SST_LookupTests SST_CacheRemove
begin

text \<open>
  A verification development for the Rust crate \<open>sstable\<close>: immutable sorted tables of byte
  strings in a file, with the layout of LevelDB.

  \<^bold>\<open>The program.\<close> A table builder (\<open>src/table_builder.rs\<close>) takes entries in ascending order. It
  collects them in a data block (\<open>src/block_builder.rs\<close>) and writes the block, with a type byte and
  a masked checksum, when it has grown beyond the block size; for each data block it enters a
  separating key (\<open>src/cmp.rs\<close>) and a handle (\<open>src/blockhandle.rs\<close>) into an index block, and it
  feeds the keys to a filter block (\<open>src/filter_block.rs\<close>, \<open>src/filter.rs\<close>). Finishing writes the
  filter block, a metaindex block with the filter block's handle, the index block and a footer.
  A reader (\<open>src/table_reader.rs\<close>, \<open>src/table_block.rs\<close>) decodes the footer, keeps the index block
  and the filters, and looks keys up or iterates over the data blocks, which it reads through a
  cache that several tables share (\<open>src/cache.rs\<close>). Both use the iterator over the entries of one
  block (\<open>src/block.rs\<close>).

  \<^bold>\<open>Conventions.\<close> A function that may panic has a result in \<open>'a run\<close>, an option: \<open>None\<close> is the panic
  or, for a loop, a run that does not end; an error value of the crate is the left part of a sum
  inside of it. A method that changes its object returns the new one. \<open>usize\<close> values are natural
  numbers whose additions and subtractions are checked; \<open>u8\<close>, \<open>u32\<close> and \<open>u64\<close> values are words.
  A trait object (\<open>Cmp\<close>, \<open>FilterPolicy\<close>, \<open>RandomAccess\<close>, \<open>Write\<close>) is a record of functions or a
  function. The crates \<open>integer-encoding\<close>, \<open>crc\<close> and \<open>snap\<close> are the parameter \<open>deps\<close>, with their
  documented behaviour in the locales of \<open>SST_Deps\<close>.

  \<^bold>\<open>The theories.\<close>
  \<^item> \<open>SST_Prelude\<close>: machine types, checked arithmetic, slices, and generic lemmas.
  \<^item> \<open>SST_Error\<close>: \<open>src/error.rs\<close>, status codes and conversions.
  \<^item> \<open>SST_Deps\<close>: the third-party crates, as an interface with a reference instance.
  \<^item> \<open>SST_Cmp\<close>: \<open>src/cmp.rs\<close>. Separators lie between their arguments, successors are above.
  \<^item> \<open>SST_Types\<close>: \<open>src/types.rs\<close>. The iterator trait as the locales \<open>forward_iterator\<close> and
    \<open>ssiterator\<close>, random access to a byte vector, checksum masking.
  \<^item> \<open>SST_BlockHandle\<close>, \<open>SST_Options\<close>: \<open>src/blockhandle.rs\<close>, \<open>src/options.rs\<close>.
  \<^item> \<open>SST_Filter\<close>, \<open>SST_FilterBlock\<close>: \<open>src/filter.rs\<close>, \<open>src/filter_block.rs\<close>. A filter accepts the
    keys it was created from, and a filter block accepts a key at the offset of its data block.
  \<^item> \<open>SST_BlockFormat\<close>, \<open>SST_BlockBuilder\<close>, \<open>SST_Block\<close>, \<open>SST_BlockProps\<close>: the format of a block, its
    builder (\<open>src/block_builder.rs\<close>), its iterator (\<open>src/block.rs\<close>), and both together. The builder
    establishes \<open>block_layout\<close>, the iterator relies on it; \<open>bi_at\<close> relates an iterator to a position.
  \<^item> \<open>SST_Reference\<close>: the reference file of a list of entries, written down in one piece: where the entries
    are cut into blocks (\<open>ref_cut\<close>), each block (\<open>ref_block\<close>), the blocks with their handles and
    separators (\<open>ref_blocks\<close>), and the whole file (\<open>ref_file\<close>). The block builder computes \<open>ref_block\<close>.
  \<^item> \<open>SST_Cache\<close>: \<open>src/cache.rs\<close>, the doubly linked list on a heap and its refinement to a bounded
    list in order of use. \<open>SST_CacheRemove\<close>: what removing an entry leaves of the list.
  \<^item> \<open>SST_TableBuilder\<close>, \<open>SST_TableFormat\<close>, \<open>SST_TableBuild\<close>: \<open>src/table_builder.rs\<close>, the format of a
    table file, and the builder's invariant \<open>tb_inv\<close>, from which \<open>finish\<close> makes exactly the reference file
    (\<open>table_build_reference\<close>), which is a \<open>table_file\<close>.
  \<^item> \<open>SST_TableBlock\<close>, \<open>SST_TableReader\<close>: \<open>src/table_block.rs\<close>, \<open>src/table_reader.rs\<close>.
  \<^item> \<open>SST_TableRead\<close>, \<open>SST_TableGet\<close>, \<open>SST_TableIter\<close>: opening a file with the table format gives a
    \<open>table_view\<close>; reading a block goes through the cache and keeps its contents those of the open
    tables' files (\<open>cache_inv\<close>); lookups; the two-level iterator and its position (\<open>table_at\<close>).
  \<^item> \<open>SST_TableProps\<close>, \<open>SST_TableThms\<close>, \<open>SST_TableErrors\<close>: from the entries given to a builder to what a
    reader sees of them, and what happens with malformed files and unsorted entries.
  \<^item> \<open>SST_TestUtil\<close>: \<open>src/test_util.rs\<close>, the iterator over a vector and the shared test of the
    iterators, which is proved of all block and table iterators with four entries.
  \<^item> \<open>SST_Client\<close>: any number of tables on one cache, with lookups and iterators in any order,
    refine a specification in which a table is a list and an iterator a position.
  \<^item> \<open>SST_CacheUse\<close>: which blocks the cache holds, and with which contents, while a table is iterated over
    (\<open>caches\<close>, \<open>entered\<close>, \<open>caching\<close>).
  \<^item> \<open>SST_Corruption\<close>, \<open>SST_ReadFaults\<close>: files whose data blocks are damaged, and reads that fail. An
    opened table with a set of unreadable blocks (\<open>damaged_view\<close>) is read like one without them:
    lookups report the error, the iterator goes over them. \<open>SST_Checksum\<close>: a change of one byte is
    always detected, because the checksum of a block changes with any one of its bytes.
  \<^item> \<open>SST_WriteErrors\<close>: destinations that fail. The builder on any honest destination follows the
    builder on a byte vector up to the first error (\<open>follows\<close>).
  \<^item> \<open>SST_Files\<close>: files of the operating system, \<open>Table::new_from_file\<close> and the example program
    (\<open>examples/rw_sstable/src/main.rs\<close>) from its first write to its last lookup.
  \<^item> \<open>SST_UnitTests\<close>, \<open>SST_CacheTests\<close>, \<open>SST_BlockTests\<close>, \<open>SST_TableTests\<close>, \<open>SST_ReaderTests\<close>,
    \<open>SST_LookupTests\<close>: the unit tests of the modules as runs that must not panic. Tests that expect certain bytes or sizes are evaluated
    with the reference instance of the third-party crates; the tests of iterators follow from their
    contracts, and those that count blocks or bytes from the reference file, for any instance that keeps
    the laws; one of them expects the sizes to which Snappy compresses its blocks (\<open>snappy_sizes\<close>).

  \<^bold>\<open>Interfaces.\<close> Each is a locale, interpreted on the model's definitions: \<open>comparator\<close> and
  \<open>short_comparator\<close> (the default comparator), \<open>filter_policy\<close> and \<open>nonempty_filter_policy\<close> (the
  two policies), \<open>random_access_file\<close> and \<open>append_writer\<close> (a byte vector, and each file of a
  \<open>working_disk\<close>), \<open>honest_writer\<close> (a destination of limited size), \<open>working_disk\<close> (a map from paths
  to contents), \<open>forward_iterator\<close>, \<open>ssiterator\<close> and \<open>stored_seek_iterator\<close> (the block iterator, the
  table iterator and the table iterator over a damaged file), \<open>read_cache\<close> (the block cache),
  \<open>byte_checksum\<close> (a checksum that any change of one byte changes; interpreted on CRC-32/ISCSI), \<open>table_writer\<close>, \<open>table_env\<close> and \<open>table_reader\<close> (the
  contexts in which the table builder and reader work).

  \<^bold>\<open>Bounds.\<close> The theorems on tables are for entries of a total weight (\<open>table_weight\<close>: key and value
  bytes and a constant for each entry) below \<open>2 ^ 30\<close> and files below \<open>2 ^ 29\<close> bytes
  (\<open>table_fits\<close>), because the filter block stores its offsets in 32 bits; for keys that are not empty,
  since the block iterator is never valid at an empty key; for a block size of at least 8, a
  positive restart interval and a policy name below \<open>2 ^ 16\<close> bytes (\<open>table_options\<close>). No
  definition has fuel: loops that need not end are partial functions, and that they end is part
  of the theorems on them.

  \<^bold>\<open>Limits that the theorems make explicit.\<close> \<open>get\<close> misses a key that is a separator of the
  index, which for the default comparator is the last key of a block followed by a zero byte
  (\<open>after_boundary\<close>), and \<open>seek\<close> may miss it too; \<open>seek\<close> for a key between the last entry of a block and
  its separator ends in an iterator that is not valid; a full data block accepts a key below the last one;
  \<open>prev\<close> from the first entry leaves an iterator that repeats a block; the policy without
  filters cannot be read back; a file without a footer panics; a builder whose \<open>add\<close> failed panics
  when it is used again; a destination that takes only a part of the bytes loses data; the cache's \<open>remove\<close> breaks
  its list; displaying a status does not end.

  \<^bold>\<open>Not modelled.\<close> The read-write lock around the cache, whose poisoning needs a panic, which ends the
  modelled run; the Windows variant of \<open>RandomAccess for File\<close>; \<open>src/lib.rs\<close>, which only declares
  modules; the benchmark, which times the modelled operations on random data. The operations of the
  operating system on files are a parameter (\<open>OS\<close>), and the example program's formatting of an
  optional string is left as its value.
\<close>

end
